(* ===== verification/Krate_Prelude.thy ===== *)
theory Krate_Prelude
  imports Main "HOL-Library.Word" "HOL-Library.AList" "HOL-Library.Multiset"
begin

text \<open>
  The prelude: Go's fixed-width integers, times and maps as the components use them, and the
  generic lemmas about them. A Go \<^verbatim>\<open>map[K]V\<close> is an association list with distinct keys; the
  order of the list stands for the (unspecified) iteration order of one run, so a theorem about
  every such list is a theorem about every iteration order.
\<close>

named_theorems word_to_int \<open>reading machine words as integers\<close>
named_theorems gomap_simps \<open>lookups after updates and deletions of Go maps\<close>

type_synonym u64 = "64 word"
type_synonym i64 = "64 word"
type_synonym u32 = "32 word"
type_synonym byte = "8 word"
type_synonym ('k, 'v) gomap = "('k \<times> 'v) list"

subsection \<open>64-bit integers\<close>

text \<open>
  \<^verbatim>\<open>uint64\<close> and \<^verbatim>\<open>int64\<close> are both \<^typ>\<open>64 word\<close>; a conversion between them is the identity on
  bits. An unsigned value is read by \<^const>\<open>uint\<close> or \<^const>\<open>unat\<close>, a signed one by \<^const>\<open>sint\<close>.
\<close>

definition i64_div :: "i64 \<Rightarrow> i64 \<Rightarrow> i64" where
  \<comment> \<open>Go's signed division, truncated towards zero (a zero divisor panics: callers check it)\<close>
  "i64_div a b = word_of_int (sgn (sint a) * sgn (sint b) * (\<bar>sint a\<bar> div \<bar>sint b\<bar>))"

lemma sint_i64_lower: "- (2 ^ 63) \<le> sint (a :: i64)"
  using sint_ge [of a] by simp

lemma sint_i64_upper: "sint (a :: i64) < 2 ^ 63"
  using sint_lt [of a] by simp

lemma sint_of_int_exact [word_to_int]:
  assumes "- (2 ^ 63) \<le> x" "x < 2 ^ 63"
  shows "sint (word_of_int x :: i64) = x"
proof -
  have "signed_take_bit 63 x = x"
    using assms by (rule signed_take_bit_int_eq_self)
  then show ?thesis
    by (simp add: sint_sbintrunc')
qed

lemma sint_of_nat_exact: "n < 2 ^ 63 \<Longrightarrow> sint (of_nat n :: i64) = int n"
  using sint_of_int_exact [of "int n"] by simp

lemma sint_small [word_to_int]:
  assumes "uint (a :: 64 word) < 2 ^ 63"
  shows "sint a = uint a"
proof -
  have "sint (word_of_int (uint a) :: 64 word) = uint a"
    using assms uint_ge_0 [of a] by (intro sint_of_int_exact) linarith+
  then show ?thesis by simp
qed

lemma sint_large [word_to_int]:
  assumes "2 ^ 63 \<le> uint (a :: 64 word)"
  shows "sint a = uint a - 2 ^ 64"
proof -
  have "uint a < 2 ^ 64" using uint_lt2p [of a] by simp
  with assms have "(uint a + 2 ^ 63) mod 2 ^ 64 = uint a - 2 ^ 63"
    using mod_add_self1 [of "2 ^ 64" "uint a - 2 ^ 63"]
    by (simp add: algebra_simps)
  then show ?thesis
    using int_word_sint [of "uint a", where 'a = 64] by simp
qed

lemma uint_nonneg_sint [word_to_int]:
  assumes "0 \<le> sint (a :: 64 word)"
  shows "uint a = sint a"
  using assms sint_i64_upper [of a] by (simp add: uint_sint take_bit_eq_mod)

lemma sint_add_exact:
  assumes "- (2 ^ 63) \<le> sint a + sint b" "sint a + sint b < 2 ^ 63"
  shows "sint (a + b :: i64) = sint a + sint b"
  using signed_take_bit_int_eq_self [OF assms] by (simp add: sint_word_add)

lemma sint_diff_exact:
  assumes "- (2 ^ 63) \<le> sint a - sint b" "sint a - sint b < 2 ^ 63"
  shows "sint (a - b :: i64) = sint a - sint b"
  using signed_take_bit_int_eq_self [OF assms] by (simp add: sint_word_diff)

lemma unat_u64_of_u32 [word_to_int]: "unat (ucast (w :: u32) :: u64) = unat w"
proof -
  have "unat w < 2 ^ LENGTH(32)" by (rule unsigned_less)
  then show ?thesis
    by (simp only: unsigned_ucast_eq unsigned_take_bit_eq) (simp add: take_bit_nat_eq_self)
qed

subsection \<open>Panics\<close>

text \<open>The outcome of a Go call that may panic; an \<^verbatim>\<open>error\<close> result is a sum inside it.\<close>

datatype 'a go = Return 'a | Panic string

fun go_bind :: "'a go \<Rightarrow> ('a \<Rightarrow> 'b go) \<Rightarrow> 'b go" where
  "go_bind (Return x) f = f x"
| "go_bind (Panic msg) f = Panic msg"

definition byte_of_char :: "char \<Rightarrow> byte" where
  "byte_of_char c = of_nat (of_char c)"

subsection \<open>Times and durations\<close>

text \<open>
  A \<^verbatim>\<open>time.Time\<close> is the number of nanoseconds since the Unix epoch, a \<^verbatim>\<open>time.Duration\<close> a signed
  64-bit number of nanoseconds. \<^verbatim>\<open>Sub\<close> saturates at the ends of the range; the zero
  \<^verbatim>\<open>time.Time{}\<close> is the first instant of year 1.
\<close>

type_synonym gtime = int
type_synonym duration = i64

definition zero_time :: gtime where
  "zero_time = - 62135596800 * 10 ^ 9"

definition UnixMilli :: "gtime \<Rightarrow> i64" where
  "UnixMilli t = word_of_int (t div 10 ^ 6)"

definition time_sub :: "gtime \<Rightarrow> gtime \<Rightarrow> duration" where
  "time_sub t u = word_of_int (max (- (2 ^ 63)) (min (2 ^ 63 - 1) (t - u)))"

definition Milliseconds :: "duration \<Rightarrow> i64" where
  "Milliseconds d = i64_div d 1000000"

lemma sint_time_sub: "sint (time_sub t u) = max (- (2 ^ 63)) (min (2 ^ 63 - 1) (t - u))"
  unfolding time_sub_def by (rule sint_of_int_exact) auto

subsection \<open>Go maps\<close>

abbreviation keys :: "('k, 'v) gomap \<Rightarrow> 'k list" where
  "keys m \<equiv> map fst m"

abbreviation gomap_ok :: "('k, 'v) gomap \<Rightarrow> bool" where
  "gomap_ok m \<equiv> distinct (map fst m)"

definition get0 :: "('k, 'v::zero) gomap \<Rightarrow> 'k \<Rightarrow> 'v" where
  \<comment> \<open>the index expression \<^verbatim>\<open>m[k]\<close>: the zero value when the key is missing\<close>
  "get0 m k = (case map_of m k of None \<Rightarrow> 0 | Some v \<Rightarrow> v)"

lemmas [gomap_simps] = update_conv' delete_conv' get0_def

lemma gomap_ok_update [simp, intro]: "gomap_ok m \<Longrightarrow> gomap_ok (AList.update k v m)"
  by (rule distinct_update)

lemma set_update_subset: "set (AList.update k v m) \<subseteq> insert (k, v) (set m)"
  by (induction m) auto

lemma gomap_ok_delete [simp, intro]: "gomap_ok m \<Longrightarrow> gomap_ok (AList.delete k m)"
  by (rule distinct_delete)

lemma dom_delete_eq [simp]: "fst ` set (AList.delete k m) = fst ` set m - {k}"
  by (induction m) auto

lemma map_of_mem_iff: "gomap_ok m \<Longrightarrow> map_of m k = Some v \<longleftrightarrow> (k, v) \<in> set m"
  by (rule map_of_eq_Some_iff)

lemma map_of_filter_val:
  assumes "gomap_ok m"
  shows "map_of (filter (\<lambda>(k, v). P k v) m) k =
         (case map_of m k of None \<Rightarrow> None | Some v \<Rightarrow> if P k v then Some v else None)"
  using assms
proof (induction m)
  case Nil
  then show ?case by simp
next
  case (Cons a m)
  then show ?case
    by (cases a) (auto split: option.splits simp: map_of_eq_None_iff)
qed

lemma map_of_map_val:
  "map_of (map (\<lambda>(k, v). (k, f k v)) m) k = map_option (f k) (map_of m k)"
  by (induction m) auto

lemma fold_delete_map_of:
  "map_of (fold AList.delete ks m) k = (if k \<in> set ks then None else map_of m k)"
  by (induction ks arbitrary: m) (auto simp: delete_conv')

lemma fold_delete_ok [simp, intro]: "gomap_ok m \<Longrightarrow> gomap_ok (fold AList.delete ks m)"
  by (induction ks arbitrary: m) auto

lemma fold_delete_keys_subset: "fst ` set (fold AList.delete ks m) \<subseteq> fst ` set m"
proof (induction ks arbitrary: m)
  case (Cons k ks)
  have "fst ` set (fold AList.delete ks (AList.delete k m)) \<subseteq> fst ` set (AList.delete k m)"
    by (rule Cons.IH)
  also have "\<dots> \<subseteq> fst ` set m" by (rule dom_delete_subset)
  finally show ?case by simp
qed simp

lemma fold_update_fresh:
  "gomap_ok (ys @ xs) \<Longrightarrow> fold (\<lambda>(k, v) m. AList.update k v m) xs ys = ys @ xs"
proof (induction xs arbitrary: ys)
  case (Cons x xs)
  obtain k v where x: "x = (k, v)" by (cases x)
  have "k \<notin> fst ` set ys" using Cons.prems x by auto
  then have "AList.update k v ys = ys @ [(k, v)]"
    by (induction ys) auto
  with Cons.IH [of "ys @ [x]"] Cons.prems show ?case by (simp add: x)
qed simp

subsection \<open>Nested Go maps\<close>

text \<open>
  A \<^verbatim>\<open>map[string]map[string]V\<close>: \<open>inner\<close> is the index expression \<^verbatim>\<open>m[id]\<close> (a nil, hence empty, map
  when the identifier is missing), \<open>nget\<close> is \<^verbatim>\<open>m[id][k]\<close>, \<open>nset\<close> and \<open>ndel\<close> are the assignment and
  the deletion through \<^verbatim>\<open>m[id]\<close> once the inner map exists.
\<close>

definition inner :: "('i, ('k, 'v) gomap) gomap \<Rightarrow> 'i \<Rightarrow> ('k, 'v) gomap" where
  "inner m i = (case map_of m i of None \<Rightarrow> [] | Some im \<Rightarrow> im)"

definition nget :: "('i, ('k, 'v) gomap) gomap \<Rightarrow> 'i \<Rightarrow> 'k \<Rightarrow> 'v option" where
  "nget m i k = map_of (inner m i) k"

definition nensure :: "'i \<Rightarrow> ('i, ('k, 'v) gomap) gomap \<Rightarrow> ('i, ('k, 'v) gomap) gomap" where
  "nensure i m = (case map_of m i of None \<Rightarrow> AList.update i [] m | Some im \<Rightarrow> m)"

definition nset :: "'i \<Rightarrow> 'k \<Rightarrow> 'v \<Rightarrow> ('i, ('k, 'v) gomap) gomap \<Rightarrow> ('i, ('k, 'v) gomap) gomap" where
  "nset i k v m = AList.update i (AList.update k v (inner m i)) m"

definition ndel :: "'i \<Rightarrow> 'k \<Rightarrow> ('i, ('k, 'v) gomap) gomap \<Rightarrow> ('i, ('k, 'v) gomap) gomap" where
  "ndel i k m = AList.update i (AList.delete k (inner m i)) m"

definition ndel_all :: "'k \<Rightarrow> ('i, ('k, 'v) gomap) gomap \<Rightarrow> ('i, ('k, 'v) gomap) gomap" where
  \<comment> \<open>\<^verbatim>\<open>for id := range m { delete(m[id], k) }\<close>\<close>
  "ndel_all k m = map (\<lambda>(i, im). (i, AList.delete k im)) m"

lemma nget_simps [simp]:
  "nget [] i k = None"
  "nget (nensure i m) i' k' = nget m i' k'"
  "nget (nset i k v m) i' k' = (if i = i' \<and> k = k' then Some v else nget m i' k')"
  "nget (ndel i k m) i' k' = (if i = i' \<and> k = k' then None else nget m i' k')"
  "nget (AList.delete i m) i' k' = (if i = i' then None else nget m i' k')"
  by (auto simp: nget_def inner_def nensure_def nset_def ndel_def update_conv' delete_conv'
      split: option.splits)

lemma nget_ndel_all [simp]: "nget (ndel_all k m) i k' = (if k = k' then None else nget m i k')"
  by (auto simp: nget_def inner_def ndel_all_def map_of_map_val delete_conv' split: option.splits)

lemma keys_ndel_all [simp]: "keys (ndel_all k m) = keys m"
  by (simp add: ndel_all_def split_beta comp_def)

lemma nmap_ok [simp]:
  "gomap_ok m \<Longrightarrow> gomap_ok (nensure i m)" "gomap_ok m \<Longrightarrow> gomap_ok (nset i k v m)"
  "gomap_ok m \<Longrightarrow> gomap_ok (ndel i k m)"
  by (auto simp: nensure_def nset_def ndel_def distinct_update split: option.splits)

lemma nmap_dom [simp]:
  "fst ` set (nensure i m) = insert i (fst ` set m)" "fst ` set (nset i k v m) = insert i (fst ` set m)"
  "fst ` set (ndel i k m) = insert i (fst ` set m)" "fst ` set (ndel_all k m) = fst ` set m"
  by (auto simp: nensure_def nset_def ndel_def ndel_all_def dom_update image_image split_beta
      map_of_eq_None_iff split: option.splits intro: rev_image_eqI dest: map_of_SomeD)

text \<open>
  A loop over a Go map whose body changes only what is observed of its own key: at the end each
  key has seen its own step once, whatever the iteration order.
\<close>

lemma fold_keywise:
  assumes "gomap_ok xs"
    and "\<And>k v s k'. obs (step (k, v) s) k' = (if k = k' then f v (obs s k') else obs s k')"
  shows "obs (fold step xs s) k = (case map_of xs k of None \<Rightarrow> obs s k | Some v \<Rightarrow> f v (obs s k))"
  using assms(1)
proof (induction xs arbitrary: s)
  case (Cons x xs)
  obtain k1 v1 where x: "x = (k1, v1)" by (cases x)
  show ?case
  proof (cases "k1 = k")
    case True
    with Cons.prems x have "map_of xs k = None" by (auto simp: map_of_eq_None_iff)
    with Cons True show ?thesis by (simp add: x assms(2))
  next
    case False
    with Cons show ?thesis by (simp add: x assms(2) split: option.splits)
  qed
qed simp

subsection \<open>Sorting\<close>

text \<open>
  \<^verbatim>\<open>sort.Slice\<close> by a descending unsigned key. Go leaves the order of equal elements open; the
  model keeps their input order, which is itself the arbitrary order of a map iteration.
\<close>

definition sort_desc :: "('a \<Rightarrow> u64) \<Rightarrow> 'a list \<Rightarrow> 'a list" where
  "sort_desc f xs = sort_key (\<lambda>x. - uint (f x)) xs"

abbreviation desc :: "('a \<Rightarrow> u64) \<Rightarrow> 'a list \<Rightarrow> bool" where
  "desc f \<equiv> sorted_wrt (\<lambda>x y. f y \<le> f x)"

lemma mset_sort_desc [simp]: "mset (sort_desc f xs) = mset xs"
  by (simp add: sort_desc_def)

lemma set_sort_desc [simp]: "set (sort_desc f xs) = set xs"
  by (simp add: sort_desc_def)

lemma desc_sort_desc: "desc f (sort_desc f xs)"
proof -
  have "sorted (map (\<lambda>x. - uint (f x)) (sort_desc f xs))"
    by (simp add: sort_desc_def)
  then show ?thesis
    by (simp add: sorted_map word_le_def)
qed

lemma desc_take_drop:
  "desc f xs \<Longrightarrow> x \<in> set (take n xs) \<Longrightarrow> y \<in> set (drop n xs) \<Longrightarrow> f y \<le> f x"
  by (metis append_take_drop_id sorted_wrt_append)

lemma gomap_ok_sort_desc [simp]: "gomap_ok (sort_desc f xs) \<longleftrightarrow> gomap_ok xs"
  by (metis mset_sort_desc mset_map mset_eq_imp_distinct_iff)

end
