(* ===== verification/Cms.thy ===== *)
theory Cms
  imports Krate_Prelude
begin

unbundle bit_operations_syntax

text \<open>
  The count-min sketch (\<^verbatim>\<open>sketch/cms.go\<close>, \<^verbatim>\<open>sketch/merge.go\<close>): a table of 64-bit counters, one row
  per hash function, its merge strategies and its binary encoding. Shown here: a sketch is
  determined by the counts added to it, so a query never falls below a key's count, sums of
  sketches are sketches of the joined history, and the encoding round-trips.
\<close>

subsection \<open>Big-endian integers (encoding/binary)\<close>

definition PutUint32 :: "u32 \<Rightarrow> byte list" where
  "PutUint32 v = [ucast (drop_bit 24 v), ucast (drop_bit 16 v), ucast (drop_bit 8 v), ucast v]"

definition Uint32 :: "byte list \<Rightarrow> u32" where
  "Uint32 b = ucast (b ! 3) OR push_bit 8 (ucast (b ! 2)) OR push_bit 16 (ucast (b ! 1)) OR
     push_bit 24 (ucast (b ! 0))"

definition PutUint64 :: "u64 \<Rightarrow> byte list" where
  "PutUint64 v = [ucast (drop_bit 56 v), ucast (drop_bit 48 v), ucast (drop_bit 40 v),
     ucast (drop_bit 32 v), ucast (drop_bit 24 v), ucast (drop_bit 16 v), ucast (drop_bit 8 v), ucast v]"

definition Uint64 :: "byte list \<Rightarrow> u64" where
  "Uint64 b = ucast (b ! 7) OR push_bit 8 (ucast (b ! 6)) OR push_bit 16 (ucast (b ! 5)) OR
     push_bit 24 (ucast (b ! 4)) OR push_bit 32 (ucast (b ! 3)) OR push_bit 40 (ucast (b ! 2)) OR
     push_bit 48 (ucast (b ! 1)) OR push_bit 56 (ucast (b ! 0))"

lemma bit_byte_piece:
  "bit (push_bit k (ucast (ucast (drop_bit k v) :: byte)) :: 'a::len word) n
     \<longleftrightarrow> k \<le> n \<and> n < k + 8 \<and> bit (v :: 'a word) n"
  "bit (ucast (ucast v :: byte) :: 'a::len word) n \<longleftrightarrow> n < 8 \<and> bit (v :: 'a word) n"
  by (auto simp: bit_simps dest: bit_imp_le_length)

lemma bit_pushed_byte:
  assumes "n < 8"
  shows "bit (push_bit j (ucast (b :: byte)) :: 'a::len word) (k + n)
     \<longleftrightarrow> j \<le> k + n \<and> k + n < LENGTH('a) \<and> k + n - j < 8 \<and> bit b (k + n - j)"
  "bit (ucast (b :: byte) :: 'a::len word) (k + n) \<longleftrightarrow> k + n < LENGTH('a) \<and> k + n < 8 \<and> bit b (k + n)"
  by (auto simp: bit_simps dest: bit_imp_le_length)

lemma Uint32_Put [simp]: "Uint32 (PutUint32 v) = v"
proof (rule bit_word_eqI)
  fix n :: nat assume "n < LENGTH(32)"
  then show "bit (Uint32 (PutUint32 v)) n = bit v n"
    by (simp add: Uint32_def PutUint32_def bit_or_iff bit_byte_piece) linarith
qed

lemma Uint64_Put [simp]: "Uint64 (PutUint64 v) = v"
proof (rule bit_word_eqI)
  fix n :: nat assume "n < LENGTH(64)"
  then show "bit (Uint64 (PutUint64 v)) n = bit v n"
    by (simp add: Uint64_def PutUint64_def bit_or_iff bit_byte_piece) linarith
qed

lemma byte_of_pieces:
  assumes "k \<in> {0, 8, 16, 24, 32, 40, 48, 56}" "n < 8"
  shows "bit (ucast (drop_bit k (Uint64 [b0, b1, b2, b3, b4, b5, b6, b7])) :: byte) n
    \<longleftrightarrow> bit ([b7, b6, b5, b4, b3, b2, b1, b0] ! (k div 8)) n"
proof -
  have "bit (ucast (drop_bit k (Uint64 [b0, b1, b2, b3, b4, b5, b6, b7])) :: byte) n
     \<longleftrightarrow> bit (Uint64 [b0, b1, b2, b3, b4, b5, b6, b7]) (k + n)"
    using assms(2) by (simp add: bit_simps)
  also have "\<dots> \<longleftrightarrow> bit ([b7, b6, b5, b4, b3, b2, b1, b0] ! (k div 8)) n"
    using assms by (elim insertE; simp add: Uint64_def bit_or_iff bit_pushed_byte bit_pushed_byte [where k = 0, simplified])
  finally show ?thesis .
qed

lemma Put_Uint64:
  assumes "length b = 8"
  shows "PutUint64 (Uint64 b) = b"
proof -
  obtain b0 b1 b2 b3 b4 b5 b6 b7 where b: "b = [b0, b1, b2, b3, b4, b5, b6, b7]"
    using assms by (auto simp: length_Suc_conv eval_nat_numeral)
  show ?thesis unfolding b PutUint64_def list.inject
    using byte_of_pieces [of 0] byte_of_pieces [of 8] byte_of_pieces [of 16] byte_of_pieces [of 24] byte_of_pieces [of 32]
    byte_of_pieces [of 40] byte_of_pieces [of 48] byte_of_pieces [of 56]
    by (intro conjI bit_word_eqI) simp_all
qed
lemma length_Put [simp]: "length (PutUint32 v) = 4" "length (PutUint64 w) = 8"
  by (simp_all add: PutUint32_def PutUint64_def)

subsection \<open>The sketch\<close>

definition magicBytes :: "byte list" where
  "magicBytes = map byte_of_char ''CM''"

definition versionByte :: byte where
  "versionByte = 1"

definition headerSize :: nat where
  "headerSize = 19"

definition goldenRatioMix :: u64 where
  "goldenRatioMix = 0x9e3779b97f4a7c15"

record CountMinSketch =
  c_width :: u32
  c_depth :: u32
  c_table :: "u64 list list"
  c_seeds :: "u64 list"
  c_baseSeed :: u64

definition NewCMS :: "u32 \<Rightarrow> u32 \<Rightarrow> u64 \<Rightarrow> CountMinSketch" where
  "NewCMS w d seed =
     \<lparr>c_width = w, c_depth = d,
      c_table = map (\<lambda>i. replicate (unat w) 0) [0..<unat d],
      c_seeds = map (\<lambda>i. seed + of_nat i * goldenRatioMix) [0..<unat d],
      c_baseSeed = seed\<rparr>"

fun fnv64a :: "u64 \<Rightarrow> byte list \<Rightarrow> u64" where
  "fnv64a h [] = h"
| "fnv64a h (b # bs) = fnv64a ((h XOR ucast b) * 1099511628211) bs"

text \<open>The remainder by a zero width panics; the callers below test for it.\<close>

definition cms_hash :: "CountMinSketch \<Rightarrow> string \<Rightarrow> u64 \<Rightarrow> u32" where
  "cms_hash c key seed =
     ucast (fnv64a 14695981039346656037 (PutUint64 seed @ map byte_of_char key) mod ucast (c_width c))"

definition hash_panics :: "CountMinSketch \<Rightarrow> bool" where
  "hash_panics c \<longleftrightarrow> c_width c = 0 \<and> 0 < c_depth c"

definition cms_index :: "CountMinSketch \<Rightarrow> string \<Rightarrow> nat \<Rightarrow> nat" where
  "cms_index c key i = unat (cms_hash c key (c_seeds c ! i))"

definition cms_Add :: "string \<Rightarrow> u64 \<Rightarrow> CountMinSketch \<Rightarrow> CountMinSketch go" where
  "cms_Add key n c =
     (if hash_panics c then Panic ''integer divide by zero''
      else Return (c\<lparr>c_table :=
        fold (\<lambda>i t. t[i := (t ! i)[cms_index c key i := t ! i ! cms_index c key i + n]])
          [0..<unat (c_depth c)] (c_table c)\<rparr>))"

definition cms_Query :: "string \<Rightarrow> CountMinSketch \<Rightarrow> u64 go" where
  "cms_Query key c =
     (if hash_panics c then Panic ''integer divide by zero''
      else Return (fold (\<lambda>i m. let v = c_table c ! i ! cms_index c key i in if v < m then v else m)
        [0..<unat (c_depth c)] (NOT 0)))"

definition cms_Reset :: "CountMinSketch \<Rightarrow> CountMinSketch" where
  "cms_Reset c = c\<lparr>c_table := map (\<lambda>i. map (\<lambda>j. 0) [0..<unat (c_width c)]) [0..<unat (c_depth c)]\<rparr>"

definition cms_Clone :: "CountMinSketch \<Rightarrow> CountMinSketch" where
  "cms_Clone c =
     \<lparr>c_width = c_width c, c_depth = c_depth c,
      c_table = map (\<lambda>i. map (\<lambda>j. c_table c ! i ! j) [0..<unat (c_width c)]) [0..<unat (c_depth c)],
      c_seeds = map (\<lambda>i. c_seeds c ! i) [0..<unat (c_depth c)],
      c_baseSeed = c_baseSeed c\<rparr>"

datatype MergeStrategy = MergeMax | MergeMin | MergeSum | MergeReplace

fun merge_cell :: "MergeStrategy \<Rightarrow> u64 \<Rightarrow> u64 \<Rightarrow> u64" where
  "merge_cell MergeMax d s = (if s > d then s else d)"
| "merge_cell MergeMin d s = (if s < d then s else d)"
| "merge_cell MergeSum d s = d + s"
| "merge_cell MergeReplace d s = s"

definition mergeTables :: "CountMinSketch \<Rightarrow> CountMinSketch \<Rightarrow> MergeStrategy \<Rightarrow> CountMinSketch go" where
  "mergeTables dst src strategy =
     (if c_width dst \<noteq> c_width src \<or> c_depth dst \<noteq> c_depth src
      then Panic ''sketch: dimension mismatch''
      else Return (dst\<lparr>c_table :=
        map (\<lambda>i. map (\<lambda>j. merge_cell strategy (c_table dst ! i ! j) (c_table src ! i ! j))
            [0..<unat (c_width dst)]) [0..<unat (c_depth dst)]\<rparr>))"

definition cms_Merge :: "CountMinSketch \<Rightarrow> MergeStrategy \<Rightarrow> CountMinSketch \<Rightarrow> CountMinSketch go" where
  "cms_Merge other strategy c = mergeTables c other strategy"

subsection \<open>Encoding\<close>

text \<open>
  The size computation \<^verbatim>\<open>headerSize + int(width)*int(depth)*8\<close> on 64-bit \<^verbatim>\<open>int\<close>, which can wrap;
  a write or read beyond the buffer it gives panics. Allocation is taken to succeed.
\<close>

definition encoded_size :: "u32 \<Rightarrow> u32 \<Rightarrow> i64" where
  "encoded_size w d = of_nat headerSize + ucast w * ucast d * 8"

definition full_size :: "u32 \<Rightarrow> u32 \<Rightarrow> nat" where
  \<comment> \<open>the bytes the loops over the table touch\<close>
  "full_size w d = headerSize + unat w * unat d * 8"

definition cms_header :: "CountMinSketch \<Rightarrow> byte list" where
  "cms_header c = magicBytes @ [versionByte] @ PutUint32 (c_width c) @ PutUint32 (c_depth c) @
     PutUint64 (c_baseSeed c)"

definition Marshal :: "CountMinSketch \<Rightarrow> byte list go" where
  "Marshal c =
     (let size = sint (encoded_size (c_width c) (c_depth c)) in
      if size < 0 then Panic ''makeslice: len out of range''
      else if size < int (full_size (c_width c) (c_depth c)) then Panic ''slice bounds out of range''
      else Return (cms_header c @
        concat (map (\<lambda>i. concat (map (\<lambda>j. PutUint64 (c_table c ! i ! j)) [0..<unat (c_width c)]))
          [0..<unat (c_depth c)])))"

datatype sketch_err =
    TooShortForHeader nat
  | InvalidMagic "byte list"
  | UnsupportedVersion byte
  | TooShortForTable nat int

definition slice :: "nat \<Rightarrow> nat \<Rightarrow> 'a list \<Rightarrow> 'a list" where
  "slice a b xs = take (b - a) (drop a xs)"

definition read_cell :: "byte list \<Rightarrow> nat \<Rightarrow> nat \<Rightarrow> nat \<Rightarrow> u64" where
  \<comment> \<open>the cell of row \<^verbatim>\<open>i\<close>, column \<^verbatim>\<open>j\<close>: \<^verbatim>\<open>off\<close> has advanced by 8 per cell before it\<close>
  "read_cell data w i j =
     (let off = headerSize + (i * w + j) * 8 in Uint64 (slice off (off + 8) data))"

definition Unmarshal :: "byte list \<Rightarrow> (sketch_err + CountMinSketch) go" where
  "Unmarshal data =
     (if length data < headerSize then Return (Inl (TooShortForHeader (length data)))
      else if slice 0 2 data \<noteq> magicBytes then Return (Inl (InvalidMagic (slice 0 2 data)))
      else if data ! 2 \<noteq> versionByte then Return (Inl (UnsupportedVersion (data ! 2)))
      else
        let w = Uint32 (slice 3 7 data); d = Uint32 (slice 7 11 data); seed = Uint64 (slice 11 19 data);
            expected = sint (encoded_size w d)
        in if int (length data) < expected then Return (Inl (TooShortForTable (length data) expected))
           else if length data < full_size w d then Panic ''slice bounds out of range''
           else Return (Inr ((NewCMS w d seed)\<lparr>c_table :=
             map (\<lambda>i. map (\<lambda>j. read_cell data (unat w) i j) [0..<unat w]) [0..<unat d]\<rparr>)))"


subsection \<open>What a sketch holds\<close>

text \<open>A well-formed sketch: a full table, and the seeds of its base seed.\<close>

definition cms_ok :: "CountMinSketch \<Rightarrow> bool" where
  "cms_ok c \<longleftrightarrow> length (c_table c) = unat (c_depth c) \<and>
     (\<forall>r \<in> set (c_table c). length r = unat (c_width c)) \<and>
     c_seeds c = map (\<lambda>i. c_baseSeed c + of_nat i * goldenRatioMix) [0..<unat (c_depth c)]"

lemma cms_okD:
  assumes "cms_ok c"
  shows "length (c_table c) = unat (c_depth c)"
    "i < unat (c_depth c) \<Longrightarrow> length (c_table c ! i) = unat (c_width c)"
    "length (c_seeds c) = unat (c_depth c)"
  using assms by (auto simp: cms_ok_def)

lemma NewCMS_ok [simp]: "cms_ok (NewCMS w d seed)"
  by (simp add: cms_ok_def NewCMS_def)

lemma cms_index_less:
  assumes "c_width c \<noteq> 0"
  shows "cms_index c key i < unat (c_width c)"
proof -
  let ?h = "fnv64a 14695981039346656037 (PutUint64 (c_seeds c ! i) @ map byte_of_char key)"
  have "unat (?h mod ucast (c_width c)) < unat (c_width c)"
    using assms by (simp add: unat_mod_distrib unat_u64_of_u32 unat_gt_0)
  moreover have "unat (ucast x :: u32) \<le> unat x" for x :: u64
    by (simp only: unsigned_ucast_eq unsigned_take_bit_eq) simp
  ultimately show ?thesis
    unfolding cms_index_def cms_hash_def by (meson le_less_trans)
qed

definition cms_adds :: "(string \<times> u64) list \<Rightarrow> CountMinSketch \<Rightarrow> CountMinSketch go" where
  \<comment> \<open>a sequence of calls of \<^verbatim>\<open>Add\<close>\<close>
  "cms_adds h c = fold (\<lambda>(k, n) r. go_bind r (cms_Add k n)) h (Return c)"

definition cell_sum :: "CountMinSketch \<Rightarrow> (string \<times> u64) list \<Rightarrow> nat \<Rightarrow> nat \<Rightarrow> u64" where
  "cell_sum c h i j = sum_list (map snd (filter (\<lambda>(k, n). cms_index c k i = j) h))"

definition sketch_of :: "u32 \<Rightarrow> u32 \<Rightarrow> u64 \<Rightarrow> (string \<times> u64) list \<Rightarrow> CountMinSketch" where
  \<comment> \<open>the reference: every cell holds the counts of the keys hashed to it\<close>
  "sketch_of w d seed h = (NewCMS w d seed)\<lparr>c_table :=
     map (\<lambda>i. map (\<lambda>j. cell_sum (NewCMS w d seed) h i j) [0..<unat w]) [0..<unat d]\<rparr>"

lemma fold_rows:
  "fold (\<lambda>i t. t[i := f i (t ! i)]) [0..<m] (map g [0..<n])
     = map (\<lambda>i. if i < m then f i (g i) else g i) [0..<n]" if "m \<le> n"
  using that
proof (induction m)
  case (Suc m)
  then show ?case
    by (auto simp: list_eq_iff_nth_eq nth_list_update less_Suc_eq)
qed simp

lemma NewCMS_fields [simp]:
  "c_width (NewCMS w d s) = w" "c_depth (NewCMS w d s) = d" "c_baseSeed (NewCMS w d s) = s"
  by (simp_all add: NewCMS_def)

lemma sketch_of_fields [simp]:
  "c_width (sketch_of w d s h) = w" "c_depth (sketch_of w d s h) = d"
  "cms_index (sketch_of w d s h) = cms_index (NewCMS w d s)"
  "hash_panics (sketch_of w d s h) \<longleftrightarrow> w = 0 \<and> 0 < d"
  by (simp_all add: sketch_of_def cms_index_def cms_hash_def hash_panics_def fun_eq_iff)

lemma sketch_of_ok [simp]: "cms_ok (sketch_of w d s h)"
  by (simp add: cms_ok_def sketch_of_def NewCMS_def)

lemma sketch_of_cell:
  "i < unat d \<Longrightarrow> j < unat w \<Longrightarrow> c_table (sketch_of w d s h) ! i ! j = cell_sum (NewCMS w d s) h i j"
  by (simp add: sketch_of_def)

lemma cms_Add_sketch_of:
  assumes "w \<noteq> 0"
  shows "cms_Add k n (sketch_of w d s h) = Return (sketch_of w d s (h @ [(k, n)]))"
proof -
  let ?N = "NewCMS w d s"
  let ?f = "\<lambda>i r. r[cms_index ?N k i := r ! cms_index ?N k i + n]"
  have "?f i (map (\<lambda>j. cell_sum ?N h i j) [0..<unat w]) = map (\<lambda>j. cell_sum ?N (h @ [(k, n)]) i j) [0..<unat w]"
    for i
    using assms cms_index_less [of ?N k i]
    by (auto simp: list_eq_iff_nth_eq nth_list_update cell_sum_def)
  then have "fold (\<lambda>i t. t[i := ?f i (t ! i)]) [0..<unat d] (c_table (sketch_of w d s h))
      = c_table (sketch_of w d s (h @ [(k, n)]))"
    by (simp add: sketch_of_def fold_rows [where f = ?f])
  moreover have "sketch_of w d s h\<lparr>c_table := c_table (sketch_of w d s h')\<rparr> = sketch_of w d s h'" for h'
    by (simp add: sketch_of_def)
  ultimately show ?thesis
    using assms unfolding cms_Add_def by simp
qed

lemma cms_adds_sketch_of:
  assumes "w \<noteq> 0"
  shows "cms_adds h (NewCMS w d s) = Return (sketch_of w d s h)"
proof -
  have "sketch_of w d s [] = NewCMS w d s"
    by (simp add: sketch_of_def NewCMS_def cell_sum_def map_replicate_const)
  moreover have "cms_adds h' (sketch_of w d s h0) = Return (sketch_of w d s (h0 @ h'))" for h' h0
    by (induction h' arbitrary: h0) (auto simp: cms_adds_def cms_Add_sketch_of [OF assms])
  ultimately show ?thesis by (metis append_Nil)
qed

lemma fold_min:
  fixes f :: "nat \<Rightarrow> u64"
  shows "fold (\<lambda>i m. let v = f i in if v < m then v else m) is m0 = Min (insert m0 (f ` set is))"
  unfolding Let_def
proof (induction "is" arbitrary: m0)
  case (Cons i "is")
  have "Min (insert (if f i < m0 then f i else m0) (f ` set is)) = Min (insert m0 (insert (f i) (f ` set is)))"
    by (cases "is = []") (auto simp: min_def)
  with Cons.IH [of "if f i < m0 then f i else m0"] show ?case by simp
qed simp

lemma cms_Query_Min:
  assumes "\<not> hash_panics c"
  shows "cms_Query key c = Return (Min (insert (- 1) ((\<lambda>i. c_table c ! i ! cms_index c key i) ` {0..<unat (c_depth c)})))"
  using assms by (simp add: cms_Query_def fold_min)

lemma unat_sum_list_small:
  fixes ns :: "u64 list"
  assumes "sum_list (map unat ns) < 2 ^ 64"
  shows "unat (sum_list ns) = sum_list (map unat ns)"
  using assms
proof (induction ns)
  case (Cons n ns)
  then have "unat n + unat (sum_list ns) < 2 ^ LENGTH(64)" by simp
  with Cons show ?case by (simp add: unat_add_lem [THEN iffD1])
qed simp

lemma sum_list_filter_mono:
  fixes f :: "'a \<Rightarrow> nat"
  assumes "\<And>x. x \<in> set xs \<Longrightarrow> P x \<Longrightarrow> Q x"
  shows "sum_list (map f (filter P xs)) \<le> sum_list (map f (filter Q xs))"
  using assms by (induction xs) auto

definition count_of :: "(string \<Rightarrow> bool) \<Rightarrow> (string \<times> u64) list \<Rightarrow> nat" where
  \<comment> \<open>the exact count of the keys of a class\<close>
  "count_of P h = sum_list (map (unat \<circ> snd) (filter (P \<circ> fst) h))"

lemma count_of_mono:
  "(\<And>k. k \<in> fst ` set h \<Longrightarrow> P k \<Longrightarrow> Q k) \<Longrightarrow> count_of P h \<le> count_of Q h"
  unfolding count_of_def by (rule sum_list_filter_mono) auto

lemma unat_cell_sum:
  assumes "count_of (\<lambda>k. True) h < 2 ^ 64"
  shows "unat (cell_sum c h i j) = count_of (\<lambda>k. cms_index c k i = j) h"
proof -
  have "count_of (\<lambda>k. cms_index c k i = j) h < 2 ^ 64"
    using count_of_mono [of h _ "\<lambda>k. True"] assms by (meson le_less_trans)
  then show ?thesis
    unfolding cell_sum_def by (subst unat_sum_list_small) (simp_all add: count_of_def comp_def case_prod_unfold)
qed

text \<open>
  C26. A count-min sketch of positive width that received any sequence of \<^verbatim>\<open>Add\<close> calls whose
  counts sum to less than \<open>2^64\<close> answers a query with at least the exact count of the key, at most
  the total of all counts (when it has a row), and with the exact count if in some row no other
  added key shares its cell.
\<close>
theorem Query_overestimates:
  assumes "w \<noteq> 0" "count_of (\<lambda>k. True) h < 2 ^ 64"
  shows "\<exists>c v. cms_adds h (NewCMS w d seed) = Return c \<and> cms_Query key c = Return v \<and>
    count_of (\<lambda>k. k = key) h \<le> unat v \<and>
    (d \<noteq> 0 \<longrightarrow> unat v \<le> count_of (\<lambda>k. True) h) \<and>
    (\<forall>i < unat d. (\<forall>k \<in> fst ` set h. cms_index c k i = cms_index c key i \<longrightarrow> k = key) \<longrightarrow>
       unat v = count_of (\<lambda>k. k = key) h)"
proof -
  let ?c = "sketch_of w d seed h" and ?N = "NewCMS w d seed"
  let ?cell = "\<lambda>i. c_table ?c ! i ! cms_index ?N key i"
  define v where "v = Min (insert (- 1) (?cell ` {0..<unat d}))"
  have q: "cms_Query key ?c = Return v"
    using assms(1) by (simp add: cms_Query_Min v_def)
  have cell: "unat (?cell i) = count_of (\<lambda>k. cms_index ?N k i = cms_index ?N key i) h" if "i < unat d" for i
    using that assms cms_index_less [of ?N key i] by (simp add: sketch_of_cell unat_cell_sum)
  have lower: "count_of (\<lambda>k. k = key) h \<le> unat x" if "x \<in> insert (- 1) (?cell ` {0..<unat d})" for x
  proof (cases "x = - 1")
    case True
    have "count_of (\<lambda>k. k = key) h < 2 ^ 64"
      using count_of_mono [of h _ "\<lambda>k. True"] assms(2) by (meson le_less_trans)
    then show ?thesis using True by (simp add: unsigned_minus_1_eq_mask mask_eq_exp_minus_1)
  next
    case False
    then show ?thesis using that by (auto simp: cell intro!: count_of_mono)
  qed
  have v_in: "v \<in> insert (- 1) (?cell ` {0..<unat d})"
    unfolding v_def by (rule Min_in) auto
  have v_le: "unat v \<le> unat (?cell i)" if "i < unat d" for i
    using that by (auto simp: v_def word_le_nat_alt [symmetric] intro: Min_le)
  have "unat v \<le> count_of (\<lambda>k. True) h" if "d \<noteq> 0"
    using v_le [of 0] that cell [of 0] count_of_mono [of h _ "\<lambda>k. True"]
    by (force intro: order_trans simp: unat_gt_0)
  moreover have "unat v = count_of (\<lambda>k. k = key) h"
    if i: "i < unat d" and u: "\<forall>k \<in> fst ` set h. cms_index ?N k i = cms_index ?N key i \<longrightarrow> k = key" for i
    using v_le [OF i] lower [OF v_in] count_of_mono [of h "\<lambda>k. cms_index ?N k i = cms_index ?N key i" "\<lambda>k. k = key"] u
    by (simp add: cell [OF i])
  ultimately show ?thesis
    using q lower [OF v_in] by (intro exI [of _ ?c] exI [of _ v] conjI) (simp_all add: cms_adds_sketch_of assms(1))
qed

theorem Query_overestimates_witness:
  "\<exists>c v. cms_adds [(''a'', 3), (''b'', 4), (''a'', 1)] (NewCMS 2 1 0) = Return c \<and>
    cms_Query ''a'' c = Return v \<and> 4 \<le> unat v \<and> unat v \<le> 8"
  using Query_overestimates [of 2 "[(''a'', 3), (''b'', 4), (''a'', 1)]" 1 0 "''a''"]
  by (auto simp: count_of_def)

subsection \<open>Merging\<close>

text \<open>
  C31. Merging with \<^verbatim>\<open>MergeSum\<close> a sketch into another one of the same width, depth and seed gives
  exactly the sketch of both histories, counter by counter, also where counters wrap; sketches of
  different dimensions panic.
\<close>
theorem MergeSum_joins:
  assumes "w \<noteq> 0"
  shows "\<exists>a b. cms_adds h1 (NewCMS w d seed) = Return a \<and> cms_adds h2 (NewCMS w d seed) = Return b \<and>
    cms_Merge b MergeSum a = cms_adds (h1 @ h2) (NewCMS w d seed) \<and>
    (\<forall>o'. c_width o' \<noteq> w \<or> c_depth o' \<noteq> d \<longrightarrow>
       cms_Merge o' MergeSum a = Panic ''sketch: dimension mismatch'')"
proof -
  have "cell_sum c h1 i j + cell_sum c h2 i j = cell_sum c (h1 @ h2) i j" for c i j
    by (simp add: cell_sum_def)
  then have "cms_Merge (sketch_of w d seed h2) MergeSum (sketch_of w d seed h1)
      = Return (sketch_of w d seed (h1 @ h2))"
    by (simp add: cms_Merge_def mergeTables_def sketch_of_def cong: map_cong)
  then show ?thesis
    by (auto simp: cms_adds_sketch_of [OF assms] cms_Merge_def mergeTables_def)
qed

theorem MergeSum_joins_witness:
  "\<exists>a b. cms_adds [(''a'', 3)] (NewCMS 2 1 0) = Return a \<and> cms_adds [(''b'', 4)] (NewCMS 2 1 0) = Return b \<and>
    cms_Merge b MergeSum a = cms_adds [(''a'', 3), (''b'', 4)] (NewCMS 2 1 0)"
  using MergeSum_joins [of 2 "[(''a'', 3)]" 1 0 "[(''b'', 4)]"] by auto


subsection \<open>The encoding\<close>

lemma take_drop_concat:
  assumes "\<forall>x \<in> set xs. length x = m" "k < length xs" "r + l \<le> m"
  shows "take l (drop (k * m + r) (concat xs)) = take l (drop r (xs ! k))"
  using assms
proof (induction xs arbitrary: k)
  case (Cons x xs)
  show ?case
  proof (cases k)
    case 0
    then show ?thesis using Cons.prems by simp
  next
    case (Suc k')
    then show ?thesis using Cons.prems Cons.IH [of k'] by (simp add: add.assoc)
  qed
qed simp

lemma concat_chunks: "concat (map (\<lambda>k. take m (drop (k * m) xs)) [0..<n]) = take (n * m) xs"
proof (induction n)
  case (Suc n)
  then show ?case using take_add [of "n * m" m xs] by (simp add: add.commute)
qed simp

lemma length_concat_rows [simp]:
  "length (concat (map (\<lambda>i. concat (map (\<lambda>j. PutUint64 (f i j)) [0..<w])) [0..<d])) = d * (w * 8)"
  by (simp add: length_concat comp_def sum_list_triv)

lemma read_cell_rows:
  assumes "length hdr = headerSize" "i < d" "j < w"
  shows "read_cell (hdr @ concat (map (\<lambda>i. concat (map (\<lambda>j. PutUint64 (f i j)) [0..<w])) [0..<d])) w i j = f i j"
proof -
  let ?rows = "map (\<lambda>i. concat (map (\<lambda>j. PutUint64 (f i j)) [0..<w])) [0..<d]"
  let ?row = "map (\<lambda>j. PutUint64 (f i j)) [0..<w]"
  have "(i * w + j) * 8 = i * (w * 8) + j * 8" by (simp add: algebra_simps)
  then have "take 8 (drop ((i * w + j) * 8) (concat ?rows)) = take 8 (drop (i * (w * 8) + j * 8) (concat ?rows))"
    by (simp only:)
  also have "\<dots> = take 8 (drop (j * 8) (concat ?row))"
    using assms by (subst take_drop_concat) (auto simp: length_concat comp_def sum_list_triv)
  also have "\<dots> = PutUint64 (f i j)"
    using take_drop_concat [of ?row 8 j 0 8] assms by simp
  finally show ?thesis
    using assms(1) by (simp add: read_cell_def slice_def Let_def)
qed

lemma length_header [simp]: "length (cms_header c) = headerSize"
  by (simp add: cms_header_def magicBytes_def headerSize_def)

lemma header_fields:
  "slice 0 2 (cms_header c @ xs) = magicBytes" "(cms_header c @ xs) ! 2 = versionByte"
  "Uint32 (slice 3 7 (cms_header c @ xs)) = c_width c"
  "Uint32 (slice 7 11 (cms_header c @ xs)) = c_depth c"
  "Uint64 (slice 11 19 (cms_header c @ xs)) = c_baseSeed c"
proof -
  let ?m = "magicBytes @ [versionByte]"
  have m: "length ?m = 3" by (simp add: magicBytes_def)
  have c: "cms_header c @ xs = ?m @ PutUint32 (c_width c) @ PutUint32 (c_depth c) @ PutUint64 (c_baseSeed c) @ xs"
    by (simp add: cms_header_def)
  show "slice 0 2 (cms_header c @ xs) = magicBytes" "(cms_header c @ xs) ! 2 = versionByte"
    by (simp_all add: slice_def cms_header_def magicBytes_def)
  show "Uint32 (slice 3 7 (cms_header c @ xs)) = c_width c"
    using m unfolding c by (simp add: slice_def)
  show "Uint32 (slice 7 11 (cms_header c @ xs)) = c_depth c"
    using m unfolding c by (simp add: slice_def)
  show "Uint64 (slice 11 19 (cms_header c @ xs)) = c_baseSeed c"
    using m unfolding c by (simp add: slice_def)
qed

lemma encoded_size_exact:
  assumes "full_size w d < 2 ^ 63"
  shows "sint (encoded_size w d) = int (full_size w d)"
proof -
  have "encoded_size w d = of_nat (full_size w d)"
    by (simp add: encoded_size_def full_size_def)
  then show ?thesis using assms by (simp only: sint_of_nat_exact)
qed

lemma cms_ok_eta:
  assumes "cms_ok c"
  shows "(NewCMS (c_width c) (c_depth c) (c_baseSeed c))\<lparr>c_table :=
    map (\<lambda>i. map (\<lambda>j. c_table c ! i ! j) [0..<unat (c_width c)]) [0..<unat (c_depth c)]\<rparr> = c"
proof -
  have "map (\<lambda>i. map (\<lambda>j. c_table c ! i ! j) [0..<unat (c_width c)]) [0..<unat (c_depth c)] = c_table c"
    using cms_okD [OF assms] by (auto simp: list_eq_iff_nth_eq)
  then show ?thesis using assms by (simp add: NewCMS_def cms_ok_def)
qed

lemma Marshal_ok:
  assumes "full_size (c_width c) (c_depth c) < 2 ^ 63"
  shows "Marshal c = Return (cms_header c @
    concat (map (\<lambda>i. concat (map (\<lambda>j. PutUint64 (c_table c ! i ! j)) [0..<unat (c_width c)]))
      [0..<unat (c_depth c)]))"
  using assms by (simp add: Marshal_def encoded_size_exact)

lemma Unmarshal_Marshal:
  assumes "cms_ok c" "full_size (c_width c) (c_depth c) < 2 ^ 63" "Marshal c = Return data"
  shows "Unmarshal data = Return (Inr c)" "length data = full_size (c_width c) (c_depth c)"
    "slice 0 2 data = magicBytes" "data ! 2 = versionByte"
    "Uint32 (slice 3 7 data) = c_width c" "Uint32 (slice 7 11 data) = c_depth c"
proof -
  let ?rows = "concat (map (\<lambda>i. concat (map (\<lambda>j. PutUint64 (c_table c ! i ! j)) [0..<unat (c_width c)]))
      [0..<unat (c_depth c)])"
  have data: "data = cms_header c @ ?rows"
    using assms(2,3) by (simp add: Marshal_ok)
  show len: "length data = full_size (c_width c) (c_depth c)"
    unfolding data length_append length_concat_rows by (simp add: full_size_def)
  show "slice 0 2 data = magicBytes" "data ! 2 = versionByte"
    "Uint32 (slice 3 7 data) = c_width c" "Uint32 (slice 7 11 data) = c_depth c"
    unfolding data by (rule header_fields)+
  moreover have "Uint64 (slice 11 19 data) = c_baseSeed c"
    unfolding data by (rule header_fields)
  moreover have "map (\<lambda>i. map (\<lambda>j. read_cell data (unat (c_width c)) i j) [0..<unat (c_width c)]) [0..<unat (c_depth c)]
     = map (\<lambda>i. map (\<lambda>j. c_table c ! i ! j) [0..<unat (c_width c)]) [0..<unat (c_depth c)]"
    unfolding data by (intro map_cong refl) (simp add: read_cell_rows)
  then have "(NewCMS (c_width c) (c_depth c) (c_baseSeed c))\<lparr>c_table := map (\<lambda>i. map (\<lambda>j.
      read_cell data (unat (c_width c)) i j) [0..<unat (c_width c)]) [0..<unat (c_depth c)]\<rparr> = c"
    using cms_ok_eta [OF assms(1)] by (simp only:)
  moreover have "headerSize \<le> length data" by (simp add: data)
  ultimately show "Unmarshal data = Return (Inr c)"
    using assms(2) len
    by (simp add: Unmarshal_def Let_def encoded_size_exact)
qed


end
