(* ===== verification/Compress.thy ===== *)
theory Compress
  imports Cms
begin

unbundle bit_operations_syntax

text \<open>
  The sketch compression (\<^verbatim>\<open>sketch/compress.go\<close>): every row is written as zig-zag varints of the
  differences of neighbouring cells. Shown here: decompression inverts compression on every
  well-formed encoding, and accepts only inputs that give a well-formed encoding back.
\<close>

subsection \<open>Zig-zag and varints\<close>

definition zigzagEncode :: "i64 \<Rightarrow> u64" where
  "zigzagEncode n = signed_drop_bit 63 n XOR push_bit 1 n"

definition zigzagDecode :: "u64 \<Rightarrow> i64" where
  "zigzagDecode u = drop_bit 1 u XOR - (u AND 1)"

lemma zigzagDecode_Encode [simp]: "zigzagDecode (zigzagEncode n) = n"
proof (rule bit_word_eqI)
  have odd: "odd (zigzagEncode n) \<longleftrightarrow> bit n 63"
    by (simp add: zigzagEncode_def even_xor_iff) (simp add: bit_simps flip: bit_0)
  then have m: "- (zigzagEncode n AND 1) = (if bit n 63 then - 1 else 0)"
    by (auto simp: and_one_eq odd_iff_mod_2_eq_one)
  fix k assume k: "k < LENGTH(64)"
  have e: "bit (zigzagEncode n) (Suc k) \<longleftrightarrow> bit n 63 \<noteq> bit n k" if "k < 63"
    using that unfolding zigzagEncode_def bit_xor_iff bit_push_bit_iff bit_signed_drop_bit_iff by simp
  show "bit (zigzagDecode (zigzagEncode n)) k = bit n k"
  proof (cases "k < 63")
    case True
    then show ?thesis using e by (simp add: zigzagDecode_def m bit_simps)
  next
    case False
    then have "k = 63" using k by simp
    then show ?thesis by (auto simp: zigzagDecode_def m bit_simps dest: bit_imp_le_length)
  qed
qed
lemma unat_byte: "unat (ucast (x :: u64) :: byte) = unat x mod 256"
  unfolding unsigned_ucast_eq unsigned_take_bit_eq by (simp add: take_bit_eq_mod)

lemma ucast_ucast_byte: "ucast (ucast (x :: u64) :: byte) = take_bit 8 x"
  by (rule bit_word_eqI) (auto simp: bit_simps)

lemma drop_bit_7_less: "128 \<le> x \<Longrightarrow> unat (drop_bit 7 (x::u64)) < unat x"
  by (simp add: unat_drop_bit_eq drop_bit_nat_def word_le_nat_alt)

function PutUvarint :: "u64 \<Rightarrow> byte list" where
  "PutUvarint x = (if x \<ge> 128 then (ucast x OR 128) # PutUvarint (drop_bit 7 x) else [ucast x])"
  by pat_completeness auto
termination by (relation "measure unat") (simp_all add: drop_bit_7_less)
declare PutUvarint.simps [simp del]

datatype varint_err = EOF | ErrUnexpectedEOF | ErrOverflow

text \<open>\<^verbatim>\<open>binary.ReadUvarint\<close>: at most ten bytes, the tenth at most 1; \<open>i\<close> counts the bytes read.\<close>

fun readUvarint :: "nat \<Rightarrow> u64 \<Rightarrow> byte list \<Rightarrow> varint_err + u64 \<times> byte list" where
  "readUvarint i x bs =
     (if 10 \<le> i then Inl ErrOverflow
      else case bs of
        [] \<Rightarrow> Inl (if 0 < i then ErrUnexpectedEOF else EOF)
      | b # rest \<Rightarrow>
          if b < 128
          then (if i = 9 \<and> 1 < b then Inl ErrOverflow else Inr (x OR push_bit (7 * i) (ucast b), rest))
          else readUvarint (Suc i) (x OR push_bit (7 * i) (ucast (b AND 127))) rest)"
declare readUvarint.simps [simp del]

lemma readUvarint_Put:
  assumes "i < 10" "unat x < 2 ^ (64 - 7 * i)"
  shows "readUvarint i acc (PutUvarint x @ rest) = Inr (acc OR push_bit (7 * i) x, rest)"
  using assms
proof (induction x arbitrary: i acc rule: PutUvarint.induct)
  case (1 x)
  show ?case
  proof (cases "128 \<le> x")
    case False
    have lt: "unat x < 128" using False by (simp add: word_le_nat_alt)
    then have u: "ucast (ucast x :: byte) = x"
      unfolding ucast_ucast_byte by (intro word_unat_eq_iff [THEN iffD2], subst unsigned_take_bit_eq) (simp_all add: take_bit_eq_mod)
    have b: "(ucast x :: byte) < 128" using lt by (simp add: word_less_nat_alt unat_byte)
    have "unat (ucast x :: byte) < 2" if "i = 9" 
      using "1.prems"(2) that by (simp add: unat_byte)
    then have "\<not> (i = 9 \<and> 1 < (ucast x :: byte))" by (auto simp: word_less_nat_alt)
    then show ?thesis using False "1.prems"(1) b u
      by (subst PutUvarint.simps, subst readUvarint.simps) simp
  next
    case True
    have i: "i < 9"
    proof (rule ccontr)
      assume "\<not> i < 9" then have "i = 9" using "1.prems" by simp
      then show False using "1.prems"(2) True by (simp add: word_le_nat_alt)
    qed
    have "2 ^ (64 - 7 * i) = (2::nat) ^ (64 - 7 * Suc i) * 2 ^ 7"
      unfolding power_add [symmetric] using i by (intro arg_cong [where f = "(^) 2"]) simp
    then have x': "unat (drop_bit 7 x) < 2 ^ (64 - 7 * Suc i)"
      using "1.prems"(2) by (simp add: unat_drop_bit_eq drop_bit_nat_def less_mult_imp_div_less)
    have hi: "\<not> (ucast x OR 128 :: byte) < 128"
    proof -
      have "128 \<le> (ucast x OR 128 :: byte)" by (rule le_word_or1)
      then show ?thesis by simp
    qed
    have low: "ucast ((ucast x OR 128 :: byte) AND 127) = take_bit 7 x"
    proof (rule bit_word_eqI)
      have c: "(127 :: byte) = mask 7" "(128 :: byte) = 2 ^ 7" by (simp_all add: mask_eq_exp_minus_1)
      fix n assume "n < LENGTH(64)"
      show "bit (ucast ((ucast x OR 128 :: byte) AND 127) :: u64) n = bit (take_bit 7 x) n"
        unfolding c take_bit_eq_mask [symmetric]
        by (auto simp: bit_unsigned_iff bit_take_bit_iff bit_or_iff bit_exp_iff
            dest: bit_imp_le_length simp del: power_numeral)
    qed
    have split7: "take_bit 7 x OR push_bit 7 (drop_bit 7 x) = x"
    proof (rule bit_word_eqI)
      fix n :: nat assume "n < LENGTH(64)"
      then show "bit (take_bit 7 x OR push_bit 7 (drop_bit 7 x)) n = bit x n"
        by (cases "n < 7") (auto simp: bit_simps)
    qed
    have eq: "push_bit (7 * i) (ucast ((ucast x OR 128 :: byte) AND 127)) OR
        push_bit (7 + 7 * i) (drop_bit 7 x) = push_bit (7 * i) x"
      unfolding low by (subst (3) split7 [symmetric]) (simp add: ac_simps)
    show ?thesis
      using True i hi
      by (subst PutUvarint.simps, subst readUvarint.simps)
         (simp add: "1.IH" [OF True _ x'] eq or.assoc)
  qed
qed

lemma readUvarint_Put_all [simp]: "readUvarint 0 0 (PutUvarint x @ rest) = Inr (x, rest)"
proof -
  have "unat x < 2 ^ LENGTH(64)" by (rule unsigned_less)
  then show ?thesis using readUvarint_Put [of 0 x 0 rest] by simp
qed

subsection \<open>Compression\<close>

fun compress_row :: "nat \<Rightarrow> u64 \<Rightarrow> u64 list \<Rightarrow> byte list" where
  "compress_row j prev [] = []"
| "compress_row j prev (cell # cells) =
     (let delta = (if j = 0 then cell else cell - prev)
      in PutUvarint (zigzagEncode delta) @ compress_row (Suc j) cell cells)"

definition Compress :: "byte list \<Rightarrow> byte list go" where
  "Compress data =
     (if length data < headerSize then Return data
      else
        let w = Uint32 (slice 3 7 data); d = Uint32 (slice 7 11 data)
        in if sint (of_nat headerSize + ucast w * ucast d :: i64) < 0
           then Panic ''bytes.Buffer.Grow: negative count''
           else if length data < full_size w d then Panic ''slice bounds out of range''
           else Return (take headerSize data @ concat (map (\<lambda>i.
             compress_row 0 0 (map (\<lambda>j. read_cell data (unat w) i j) [0..<unat w])) [0..<unat d])))"

datatype decompress_err =
    CompressedTooShort nat
  | CompressedMagic "byte list"
  | CompressedVersion byte
  | VarintRead nat nat varint_err
  | TrailingBytes nat

text \<open>
  The column loop: \<open>out\<close> is the written prefix of the output buffer of \<open>cap\<close> bytes, \<open>r\<close> the rest of
  the input, \<open>n\<close> the columns left.
\<close>

fun decompress_row :: "int \<Rightarrow> nat \<Rightarrow> nat \<Rightarrow> nat \<Rightarrow> i64 \<Rightarrow> byte list \<Rightarrow> byte list
    \<Rightarrow> (decompress_err + byte list \<times> byte list) go" where
  "decompress_row cap i j 0 prev out r = Return (Inr (out, r))"
| "decompress_row cap i j (Suc n) prev out r =
     (case readUvarint 0 0 r of
        Inl e \<Rightarrow> Return (Inl (VarintRead i j e))
      | Inr (zz, r') \<Rightarrow>
          let delta = zigzagDecode zz;
              prev' = (if j = 0 then delta else prev + delta)
          in if cap < int (length out) + 8 then Panic ''slice bounds out of range''
             else decompress_row cap i (Suc j) n prev' (out @ PutUint64 prev') r')"

fun decompress_rows :: "int \<Rightarrow> nat \<Rightarrow> nat \<Rightarrow> nat \<Rightarrow> byte list \<Rightarrow> byte list
    \<Rightarrow> (decompress_err + byte list \<times> byte list) go" where
  "decompress_rows cap w i 0 out r = Return (Inr (out, r))"
| "decompress_rows cap w i (Suc n) out r =
     (case decompress_row cap i 0 w 0 out r of
        Return (Inr (out', r')) \<Rightarrow> decompress_rows cap w (Suc i) n out' r'
      | stop \<Rightarrow> stop)"

definition Decompress :: "byte list \<Rightarrow> (decompress_err + byte list) go" where
  "Decompress data =
     (if length data < headerSize then Return (Inl (CompressedTooShort (length data)))
      else if slice 0 2 data \<noteq> magicBytes then Return (Inl (CompressedMagic (slice 0 2 data)))
      else if data ! 2 \<noteq> versionByte then Return (Inl (CompressedVersion (data ! 2)))
      else
        let w = Uint32 (slice 3 7 data); d = Uint32 (slice 7 11 data); outSize = sint (encoded_size w d)
        in if outSize < 0 then Panic ''makeslice: len out of range''
           else case decompress_rows outSize (unat w) 0 (unat d) (take headerSize data) (drop headerSize data) of
               Panic msg \<Rightarrow> Panic msg
             | Return (Inl e) \<Rightarrow> Return (Inl e)
             | Return (Inr (out, r)) \<Rightarrow>
                 if 0 < length r then Return (Inl (TrailingBytes (length r))) else Return (Inr out))"

subsection \<open>Round trip\<close>

lemma decompress_row_compress:
  assumes "int (length out) + 8 * int (length cells) \<le> cap"
  shows "decompress_row cap i j (length cells) prev out (compress_row j prev cells @ rest)
    = Return (Inr (out @ concat (map PutUint64 cells), rest))"
  using assms
proof (induction cells arbitrary: j prev out)
  case (Cons cell cells)
  then show ?case by (simp add: Let_def)
qed simp

lemma decompress_rows_compress:
  assumes "\<forall>r \<in> set rows. length r = w" "int (length out) + 8 * int (w * length rows) \<le> cap"
  shows "decompress_rows cap w i (length rows) out (concat (map (compress_row 0 0) rows) @ rest)
    = Return (Inr (out @ concat (map PutUint64 (concat rows)), rest))"
  using assms
proof (induction rows arbitrary: i out)
  case (Cons row rows)
  have "8 * int (w * length (row # rows)) = 8 * int w + 8 * int (w * length rows)"
    by (simp add: algebra_simps)
  then have fit: "int (length out) + 8 * int (length row) \<le> cap"
    using Cons.prems of_nat_0_le_iff [of "w * length rows"] by (simp only: list.set_intros)
  have "decompress_row cap i 0 w 0 out (compress_row 0 0 row @ concat (map (compress_row 0 0) rows) @ rest)
      = Return (Inr (out @ concat (map PutUint64 row), concat (map (compress_row 0 0) rows) @ rest))"
    using Cons.prems(1) decompress_row_compress [OF fit] by simp
  then show ?case using Cons by (simp add: length_concat comp_def sum_list_triv algebra_simps)
qed simp

definition cell_rows :: "byte list \<Rightarrow> nat \<Rightarrow> nat \<Rightarrow> u64 list list" where
  "cell_rows data w d = map (\<lambda>i. map (\<lambda>j. read_cell data w i j) [0..<w]) [0..<d]"

lemma concat_concat_eq: "concat (concat xss) = concat (map concat xss)"
  by (induction xss) auto

lemma cell_rows_bytes:
  assumes "length data = headerSize + w * d * 8"
  shows "concat (map PutUint64 (concat (cell_rows data w d))) = drop headerSize data"
proof -
  let ?D = "drop headerSize data"
  have cell: "PutUint64 (read_cell data w i j) = take 8 (drop (j * 8) (drop (i * (w * 8)) ?D))"
    if "i < d" "j < w" for i j
  proof -
    have "Suc (i * w + j) \<le> w * Suc i" using that(2) by (simp add: algebra_simps)
    also have "\<dots> \<le> w * d" using that(1) by (intro mult_le_mono2) simp
    finally have "8 + (i * w + j) * 8 \<le> w * d * 8" by (metis mult_Suc mult_le_mono1)
    then have "length (take 8 (drop ((i * w + j) * 8) ?D)) = 8" using assms by simp
    then show ?thesis
      by (simp add: read_cell_def slice_def Let_def Put_Uint64 algebra_simps)
  qed
  have row: "concat (map (\<lambda>j. PutUint64 (read_cell data w i j)) [0..<w]) = take (w * 8) (drop (i * (w * 8)) ?D)"
    if "i < d" for i
  proof -
    have "map (\<lambda>j. PutUint64 (read_cell data w i j)) [0..<w]
        = map (\<lambda>j. take 8 (drop (j * 8) (drop (i * (w * 8)) ?D))) [0..<w]"
      using that by (intro map_cong refl) (simp add: cell)
    then show ?thesis by (simp only: concat_chunks)
  qed
  have "concat (map PutUint64 (concat (cell_rows data w d))) =
      concat (map (\<lambda>i. concat (map (\<lambda>j. PutUint64 (read_cell data w i j)) [0..<w])) [0..<d])"
    by (simp add: cell_rows_def map_concat comp_def concat_concat_eq)
  also have "\<dots> = concat (map (\<lambda>i. take (w * 8) (drop (i * (w * 8)) ?D)) [0..<d])"
    by (intro arg_cong [where f = concat] map_cong refl) (simp add: row)
  also have "\<dots> = take (d * (w * 8)) ?D" by (rule concat_chunks)
  also have "\<dots> = ?D" using assms by (simp add: algebra_simps)
  finally show ?thesis .
qed

lemma slice_prefix: "b \<le> n \<Longrightarrow> n \<le> length data \<Longrightarrow> slice a b (take n data @ xs) = slice a b data"
  by (simp add: slice_def drop_take [symmetric] min_def)

lemma grow_nonneg:
  assumes "full_size w d < 2 ^ 63"
  shows "0 \<le> sint (of_nat headerSize + ucast w * ucast d :: i64)"
proof -
  have "of_nat headerSize + ucast w * ucast d = (of_nat (headerSize + unat w * unat d) :: i64)"
    by simp
  moreover have "headerSize + unat w * unat d < 2 ^ 63"
    using assms by (simp add: full_size_def)
  ultimately show ?thesis by (simp only: sint_of_nat_exact of_nat_0_le_iff)
qed

lemma Decompress_Compress:
  assumes "slice 0 2 data = magicBytes" "data ! 2 = versionByte"
    and w: "w = Uint32 (slice 3 7 data)" and d: "d = Uint32 (slice 7 11 data)"
    and len: "length data = full_size w d" and small: "full_size w d < 2 ^ 63"
  shows "\<exists>z. Compress data = Return z \<and> Decompress z = Return (Inr data)"
proof -
  let ?rows = "cell_rows data (unat w) (unat d)"
  define z where "z = take headerSize data @ concat (map (compress_row 0 0) ?rows)"
  have h: "headerSize \<le> length data" using len by (simp add: full_size_def)
  have "Compress data = Return z"
    using grow_nonneg [OF small] h len
    by (simp add: Compress_def Let_def w d z_def cell_rows_def comp_def)
  moreover have "slice 0 2 z = magicBytes" "Uint32 (slice 3 7 z) = w" "Uint32 (slice 7 11 z) = d"
    using h assms(1) unfolding z_def w d by (simp_all add: slice_prefix headerSize_def)
  moreover have "z ! 2 = versionByte" "headerSize \<le> length z"
    using h assms(2) by (simp_all add: z_def nth_append headerSize_def)
  moreover have "decompress_rows (int (full_size w d)) (unat w) 0 (unat d) (take headerSize z) (drop headerSize z)
      = Return (Inr (data, []))"
    using decompress_rows_compress [of ?rows "unat w" "take headerSize data" "int (full_size w d)" 0 "[]"]
      h cell_rows_bytes [of data "unat w" "unat d"] len
    by (simp add: z_def cell_rows_def full_size_def)
  ultimately show ?thesis
    using small by (auto simp: Decompress_def Let_def encoded_size_exact)
qed

text \<open>
  C25. The codec of a sketch round-trips: for every well-formed sketch whose encoding is shorter
  than \<open>2^63\<close> bytes, \<^verbatim>\<open>Marshal\<close> and \<^verbatim>\<open>Compress\<close> return, \<^verbatim>\<open>Decompress\<close> gives back the marshalled
  bytes and \<^verbatim>\<open>Unmarshal\<close> the sketch itself, with its table, dimensions and seeds.
\<close>
theorem codec_roundtrip:
  assumes "cms_ok c" "full_size (c_width c) (c_depth c) < 2 ^ 63"
  shows "\<exists>data z. Marshal c = Return data \<and> Compress data = Return z \<and>
    Decompress z = Return (Inr data) \<and> Unmarshal data = Return (Inr c)"
proof -
  obtain data where m: "Marshal c = Return data"
    using Marshal_ok [OF assms(2)] by blast
  note um = Unmarshal_Marshal [OF assms m]
  have "\<exists>z. Compress data = Return z \<and> Decompress z = Return (Inr data)"
    using Decompress_Compress [OF um(3,4) um(5,6) [symmetric] um(2) assms(2)] .
  with m um(1) show ?thesis by blast
qed

theorem codec_roundtrip_witness:
  "\<exists>data z. Marshal (sketch_of 2 3 7 [(''a'', 5)]) = Return data \<and> Compress data = Return z \<and>
    Decompress z = Return (Inr data) \<and> Unmarshal data = Return (Inr (sketch_of 2 3 7 [(''a'', 5)]))"
  by (rule codec_roundtrip) (simp_all add: full_size_def headerSize_def)

subsection \<open>Untrusted input\<close>

lemma decompress_row_out:
  assumes "decompress_row cap i j n prev out r = Return (Inr (out', r'))"
  shows "\<exists>ys. out' = out @ ys \<and> length ys = n * 8"
  using assms
proof (induction n arbitrary: j prev out r)
  case (Suc n)
  then obtain v r1 p where "decompress_row cap i (Suc j) n p (out @ PutUint64 v) r1 = Return (Inr (out', r'))"
    by (auto simp: Let_def split: sum.splits prod.splits if_splits)
  from Suc.IH [OF this] show ?case by (auto simp: PutUint64_def)
qed simp

lemma decompress_rows_out:
  assumes "decompress_rows cap w i n out r = Return (Inr (out', r'))"
  shows "\<exists>ys. out' = out @ ys \<and> length ys = n * (w * 8)"
  using assms
proof (induction n arbitrary: i out r)
  case (Suc n)
  then obtain out1 r1 where 1: "decompress_row cap i 0 w 0 out r = Return (Inr (out1, r1))"
    and 2: "decompress_rows cap w (Suc i) n out1 r1 = Return (Inr (out', r'))"
    by (auto split: go.splits sum.splits prod.splits)
  show ?case using decompress_row_out [OF 1] Suc.IH [OF 2] by force
qed simp

lemma encoded_size_le: "sint (encoded_size w d) \<le> int (full_size w d)"
proof -
  have "encoded_size w d = of_nat (full_size w d)"
    by (simp add: encoded_size_def full_size_def)
  moreover have "sint (of_nat n :: i64) \<le> int n" for n
  proof -
    have "sint (of_nat n :: i64) \<le> uint (of_nat n :: i64)"
      using sint_small [of "of_nat n"] sint_large [of "of_nat n"] by (cases "uint (of_nat n :: i64) < 2 ^ 63") auto
    also have "\<dots> \<le> int n" by (simp add: uint_nat unat_of_nat)
    finally show ?thesis .
  qed
  ultimately show ?thesis by (simp only:)
qed

text \<open>
  C32. Whatever bytes a peer sends: if \<^verbatim>\<open>Decompress\<close> accepts them, the output keeps their header, has
  exactly the size the header announces, and \<^verbatim>\<open>Unmarshal\<close> decodes it without a panic to a
  well-formed sketch with the announced dimensions.
\<close>
theorem Decompress_valid:
  assumes "Decompress z = Return (Inr data)"
  shows "take headerSize data = take headerSize z \<and>
    length data = full_size (Uint32 (slice 3 7 z)) (Uint32 (slice 7 11 z)) \<and>
    (\<exists>c. Unmarshal data = Return (Inr c) \<and> cms_ok c \<and>
       c_width c = Uint32 (slice 3 7 z) \<and> c_depth c = Uint32 (slice 7 11 z))"
proof -
  let ?w = "Uint32 (slice 3 7 z)" and ?d = "Uint32 (slice 7 11 z)"
  have h: "headerSize \<le> length z" and m: "slice 0 2 z = magicBytes" and v: "z ! 2 = versionByte"
    using assms by (auto simp: Decompress_def not_less split: if_splits)
  obtain r where "decompress_rows (sint (encoded_size ?w ?d)) (unat ?w) 0 (unat ?d)
      (take headerSize z) (drop headerSize z) = Return (Inr (data, r))"
    using assms h m v by (auto simp: Decompress_def Let_def split: if_splits go.splits sum.splits prod.splits)
  from decompress_rows_out [OF this] obtain ys
    where d: "data = take headerSize z @ ys" and ys: "length ys = unat ?d * (unat ?w * 8)" by blast
  have len: "length data = full_size ?w ?d"
    using h by (simp add: d ys full_size_def algebra_simps)
  have "slice 0 2 data = magicBytes" "Uint32 (slice 3 7 data) = ?w" "Uint32 (slice 7 11 data) = ?d"
    "data ! 2 = versionByte"
    using h m v unfolding d by (simp_all add: slice_prefix headerSize_def nth_append)
  moreover have "\<not> length data < headerSize" "\<not> int (length data) < sint (encoded_size ?w ?d)"
    using len encoded_size_le [of ?w ?d] by (simp_all add: full_size_def)
  ultimately have "Unmarshal data = Return (Inr ((NewCMS ?w ?d (Uint64 (slice 11 19 data)))\<lparr>c_table :=
      map (\<lambda>i. map (\<lambda>j. read_cell data (unat ?w) i j) [0..<unat ?w]) [0..<unat ?d]\<rparr>))"
    using len by (simp add: Unmarshal_def Let_def)
  moreover have "take headerSize data = take headerSize z"
    using h by (simp add: d)
  ultimately show ?thesis using len by (simp add: cms_ok_def NewCMS_def)
qed

theorem Decompress_valid_witness:
  "Decompress (cms_header (NewCMS 1 1 0) @ [5]) = Return (Inr (cms_header (NewCMS 1 1 0) @ PutUint64 (- 3))) \<and>
   (\<exists>c. Unmarshal (cms_header (NewCMS 1 1 0) @ PutUint64 (- 3)) = Return (Inr c) \<and> cms_ok c)"
proof -
  have 1: "Decompress (cms_header (NewCMS 1 1 0) @ [5]) = Return (Inr (cms_header (NewCMS 1 1 0) @ PutUint64 (- 3)))"
    by code_simp
  show ?thesis using 1 Decompress_valid [OF 1] by blast
qed

end
