(* ===== verification/Local_Bucket.thy ===== *)
theory Local_Bucket
  imports Krate_Prelude
begin

text \<open>
  The local token bucket (\<^verbatim>\<open>local.go\<close>): one atomic \<^verbatim>\<open>int64\<close>. The operations are modelled twice:
  as atomic functions, which the other components call, and as the interleaving of the atomic
  memory accesses of any number of goroutines (\<open>lb_step\<close>), where \<^verbatim>\<open>TryConsume\<close> is its
  load / compare-and-swap loop. \<open>lb_linearizable\<close> shows that the second refines the first.
\<close>

record LocalBucket =
  tokens :: i64

definition NewLocalBucket :: "string \<Rightarrow> u64 \<Rightarrow> LocalBucket" where
  "NewLocalBucket key initial = \<lparr>tokens = initial\<rparr>"

definition TryConsume :: "u64 \<Rightarrow> LocalBucket \<Rightarrow> bool \<times> LocalBucket" where
  "TryConsume n b =
     (if sint (tokens b) < sint n then (False, b)
      else (True, b\<lparr>tokens := tokens b - n\<rparr>))"

definition Refill :: "u64 \<Rightarrow> LocalBucket \<Rightarrow> LocalBucket" where
  "Refill n b = b\<lparr>tokens := tokens b + n\<rparr>"

definition Remaining :: "LocalBucket \<Rightarrow> u64" where
  "Remaining b = (if sint (tokens b) < 0 then 0 else tokens b)"

definition Drain :: "LocalBucket \<Rightarrow> u64 \<times> LocalBucket" where
  "Drain b = (let old = tokens b; b' = b\<lparr>tokens := 0\<rparr>
              in if sint old < 0 then (0, b') else (old, b'))"

subsection \<open>The atomic operations\<close>

text \<open>
  \<open>amount n\<close>: an amount whose conversion to \<^verbatim>\<open>int64\<close> is not negative. Every theorem about
  consumption needs it, and \<open>TryConsume_huge_mints\<close> shows why.
\<close>

abbreviation amount :: "u64 \<Rightarrow> bool" where
  "amount n \<equiv> uint n < 2 ^ 63"

definition lb_ok :: "LocalBucket \<Rightarrow> bool" where
  "lb_ok b \<longleftrightarrow> 0 \<le> sint (tokens b)"

lemma NewLocalBucket_ok: "amount n \<Longrightarrow> lb_ok (NewLocalBucket key n)"
  by (simp add: lb_ok_def NewLocalBucket_def sint_small)

lemma TryConsume_true_iff: "fst (TryConsume n b) \<longleftrightarrow> sint n \<le> sint (tokens b)"
  by (auto simp: TryConsume_def)

lemma TryConsume_tokens:
  assumes "lb_ok b" "amount n"
  shows "sint (tokens (snd (TryConsume n b)))
         = sint (tokens b) - (if fst (TryConsume n b) then uint n else 0)"
proof (cases "sint (tokens b) < sint n")
  case True
  then show ?thesis by (simp add: TryConsume_def)
next
  case False
  have n: "sint n = uint n" using assms(2) by (rule sint_small)
  have "sint (tokens b - n) = sint (tokens b) - sint n"
    using False n sint_i64_upper [of "tokens b"] uint_ge_0 [of n]
    by (intro sint_diff_exact) linarith+
  with False n show ?thesis by (simp add: TryConsume_def)
qed

lemma TryConsume_ok: "lb_ok b \<Longrightarrow> amount n \<Longrightarrow> lb_ok (snd (TryConsume n b))"
  unfolding lb_ok_def using TryConsume_tokens [of b n] sint_small [of n]
  by (auto simp: lb_ok_def TryConsume_true_iff)

lemma Refill_tokens:
  assumes "lb_ok b" "sint (tokens b) + uint n < 2 ^ 63"
  shows "sint (tokens (Refill n b)) = sint (tokens b) + uint n"
proof -
  have n: "sint n = uint n"
    using assms by (intro sint_small) (simp add: lb_ok_def)
  have "sint (tokens b + n) = sint (tokens b) + sint n"
    using assms n uint_ge_0 [of n] unfolding lb_ok_def by (intro sint_add_exact) linarith+
  with n show ?thesis by (simp add: Refill_def)
qed

lemma Refill_ok: "lb_ok b \<Longrightarrow> sint (tokens b) + uint n < 2 ^ 63 \<Longrightarrow> lb_ok (Refill n b)"
  using uint_ge_0 [of n] by (simp add: lb_ok_def Refill_tokens)

lemma Drain_ok: "lb_ok (snd (Drain b))"
  by (simp add: Drain_def lb_ok_def Let_def)

lemma Remaining_uint: "lb_ok b \<Longrightarrow> uint (Remaining b) = sint (tokens b)"
  by (simp add: Remaining_def lb_ok_def uint_nonneg_sint)

lemma Drain_uint: "lb_ok b \<Longrightarrow> uint (fst (Drain b)) = sint (tokens b)"
  by (simp add: Drain_def lb_ok_def uint_nonneg_sint Let_def)

lemma Drain_tokens [simp]: "tokens (snd (Drain b)) = 0"
  by (simp add: Drain_def Let_def)



subsection \<open>Goroutines sharing a bucket\<close>

text \<open>
  The calls that reach the atomic word, and the sequential history they are meant to produce:
  \<open>lb_run\<close> applies the atomic operations one after the other and returns their results.
\<close>

datatype lb_op = OpTryConsume u64 | OpRefill u64 | OpRemaining | OpDrain

datatype lb_result = RBool bool | RUint u64 | RUnit

fun lb_apply :: "lb_op \<Rightarrow> LocalBucket \<Rightarrow> lb_result \<times> LocalBucket" where
  "lb_apply (OpTryConsume n) b = (let (r, b') = TryConsume n b in (RBool r, b'))"
| "lb_apply (OpRefill n) b = (RUnit, Refill n b)"
| "lb_apply OpRemaining b = (RUint (Remaining b), b)"
| "lb_apply OpDrain b = (let (r, b') = Drain b in (RUint r, b'))"

fun lb_run :: "(lb_op \<times> lb_result) list \<Rightarrow> LocalBucket \<Rightarrow> LocalBucket option" where
  "lb_run [] b = Some b"
| "lb_run ((opn, r) # h) b =
     (let (r', b') = lb_apply opn b in if r' = r then lb_run h b' else None)"

text \<open>
  One goroutine is between calls (\<open>Idle\<close>), at the head of the \<^verbatim>\<open>for\<close> loop of \<^verbatim>\<open>TryConsume(n)\<close>
  (\<open>AtLoad n\<close>), or before the compare-and-swap with the value it loaded (\<open>AtCAS n current\<close>). The
  other three operations are a single atomic access. \<open>hist\<close> records each call with its result at
  the access that decides it.
\<close>

datatype lb_pc = Idle | AtLoad u64 | AtCAS u64 i64

record lb_sys =
  word :: LocalBucket
  pcs :: "nat \<Rightarrow> lb_pc"
  hist :: "(lb_op \<times> lb_result) list"

definition lb_init :: "LocalBucket \<Rightarrow> lb_sys" where
  "lb_init b = \<lparr>word = b, pcs = (\<lambda>_. Idle), hist = []\<rparr>"

inductive lb_step :: "lb_sys \<Rightarrow> lb_sys \<Rightarrow> bool" where
  call: "pcs s t = Idle \<Longrightarrow> lb_step s (s\<lparr>pcs := (pcs s)(t := AtLoad n)\<rparr>)"
| load_fail: "pcs s t = AtLoad n \<Longrightarrow> sint (tokens (word s)) < sint n \<Longrightarrow>
    lb_step s (s\<lparr>pcs := (pcs s)(t := Idle), hist := hist s @ [(OpTryConsume n, RBool False)]\<rparr>)"
| load: "pcs s t = AtLoad n \<Longrightarrow> \<not> sint (tokens (word s)) < sint n \<Longrightarrow>
    lb_step s (s\<lparr>pcs := (pcs s)(t := AtCAS n (tokens (word s)))\<rparr>)"
| cas_ok: "pcs s t = AtCAS n cur \<Longrightarrow> tokens (word s) = cur \<Longrightarrow>
    lb_step s (s\<lparr>word := (word s)\<lparr>tokens := cur - n\<rparr>, pcs := (pcs s)(t := Idle),
                 hist := hist s @ [(OpTryConsume n, RBool True)]\<rparr>)"
| cas_fail: "pcs s t = AtCAS n cur \<Longrightarrow> tokens (word s) \<noteq> cur \<Longrightarrow>
    lb_step s (s\<lparr>pcs := (pcs s)(t := AtLoad n)\<rparr>)"
| refill: "pcs s t = Idle \<Longrightarrow>
    lb_step s (s\<lparr>word := Refill n (word s), hist := hist s @ [(OpRefill n, RUnit)]\<rparr>)"
| remaining: "pcs s t = Idle \<Longrightarrow>
    lb_step s (s\<lparr>hist := hist s @ [(OpRemaining, RUint (Remaining (word s)))]\<rparr>)"
| drain: "pcs s t = Idle \<Longrightarrow>
    lb_step s (s\<lparr>word := snd (Drain (word s)),
                 hist := hist s @ [(OpDrain, RUint (fst (Drain (word s))))]\<rparr>)"

abbreviation lb_reach :: "LocalBucket \<Rightarrow> lb_sys \<Rightarrow> bool" where
  "lb_reach b \<equiv> lb_step\<^sup>*\<^sup>* (lb_init b)"

text \<open>
  The invariant: a goroutine that is about to swap has loaded a value that covers its amount,
  and replaying the history sequentially gives the word.
\<close>

definition lb_inv :: "LocalBucket \<Rightarrow> lb_sys \<Rightarrow> bool" where
  "lb_inv b s \<longleftrightarrow> lb_run (hist s) b = Some (word s) \<and>
     (\<forall>t n cur. pcs s t = AtCAS n cur \<longrightarrow> sint n \<le> sint cur)"

lemma lb_run_snoc:
  "lb_run h b = Some b' \<Longrightarrow> lb_apply opn b' = (r, b'') \<Longrightarrow> lb_run (h @ [(opn, r)]) b = Some b''"
proof (induction h arbitrary: b)
  case (Cons x h)
  obtain o1 r1 where x: "x = (o1, r1)" by (cases x)
  obtain r2 b2 where ap: "lb_apply o1 b = (r2, b2)" by (cases "lb_apply o1 b")
  from Cons.prems(1) have "r2 = r1" "lb_run h b2 = Some b'"
    by (simp_all add: x ap split: if_splits)
  with Cons.IH [of b2] Cons.prems(2) show ?case by (simp add: x ap)
qed simp

lemma lb_step_inv: "lb_step s s' \<Longrightarrow> lb_inv b s \<Longrightarrow> lb_inv b s'"
proof (induction rule: lb_step.induct)
  case (load_fail s t n)
  have "lb_apply (OpTryConsume n) (word s) = (RBool False, word s)"
    using load_fail by (simp add: TryConsume_def)
  with load_fail show ?case by (auto simp: lb_inv_def intro: lb_run_snoc)
next
  case (cas_ok s t n cur)
  then have "sint n \<le> sint cur" by (auto simp: lb_inv_def)
  with cas_ok have "lb_apply (OpTryConsume n) (word s) = (RBool True, (word s)\<lparr>tokens := cur - n\<rparr>)"
    by (simp add: TryConsume_def)
  with cas_ok show ?case by (auto simp: lb_inv_def intro: lb_run_snoc)
next
  case (refill s t n)
  then show ?case by (auto simp: lb_inv_def intro: lb_run_snoc)
next
  case (remaining s t)
  then show ?case by (auto simp: lb_inv_def intro: lb_run_snoc)
next
  case (drain s t)
  then show ?case by (auto simp: lb_inv_def split_beta intro: lb_run_snoc)
qed (auto simp: lb_inv_def)

lemma lb_reach_inv: "lb_reach b s \<Longrightarrow> lb_inv b s"
proof (induction rule: rtranclp_induct)
  case base
  show ?case by (simp add: lb_inv_def lb_init_def)
next
  case (step s s')
  then show ?case by (blast intro: lb_step_inv)
qed

text \<open>
  C16. The compare-and-swap loop is linearizable: whatever the interleaving of the goroutines,
  the calls completed so far returned exactly what the atomic operations return when run one
  after the other in the order of their deciding accesses, and they leave the same word.
\<close>

theorem lb_linearizable:
  assumes "lb_reach b s"
  shows "lb_run (hist s) b = Some (word s)"
  using lb_reach_inv [OF assms] by (simp add: lb_inv_def)

theorem lb_linearizable_witness:
  "lb_run [(OpTryConsume 2, RBool True)] \<lparr>tokens = 5\<rparr> = Some \<lparr>tokens = 3\<rparr>"
proof -
  let ?s1 = "(lb_init \<lparr>tokens = 5\<rparr>)\<lparr>pcs := (\<lambda>_. Idle)(0 := AtLoad 2)\<rparr>"
  let ?s2 = "?s1\<lparr>pcs := (pcs ?s1)(0 := AtCAS 2 5)\<rparr>"
  let ?s3 = "?s2\<lparr>word := \<lparr>tokens = 3\<rparr>, pcs := (pcs ?s2)(0 := Idle),
                 hist := [(OpTryConsume 2, RBool True)]\<rparr>"
  have "lb_step (lb_init \<lparr>tokens = 5\<rparr>) ?s1"
    using lb_step.call [of "lb_init \<lparr>tokens = 5\<rparr>" 0 2] by (simp add: lb_init_def)
  moreover have "lb_step ?s1 ?s2"
    using lb_step.load [of ?s1 0 2] by (simp add: lb_init_def)
  moreover have "lb_step ?s2 ?s3"
    using lb_step.cas_ok [of ?s2 0 2 5] by (simp add: lb_init_def)
  ultimately have "lb_reach \<lparr>tokens = 5\<rparr> ?s3"
    by (meson converse_rtranclp_into_rtranclp rtranclp.rtrancl_refl)
  from lb_linearizable [OF this] show ?thesis by simp
qed

subsection \<open>The token account\<close>

text \<open>Credits and debits of a history: what was refilled, consumed and drained.\<close>

fun credit1 :: "lb_op \<times> lb_result \<Rightarrow> int" where
  "credit1 (OpRefill n, r) = uint n"
| "credit1 _ = 0"

fun consume1 :: "lb_op \<times> lb_result \<Rightarrow> int" where
  "consume1 (OpTryConsume n, RBool True) = uint n"
| "consume1 _ = 0"

fun drain1 :: "lb_op \<times> lb_result \<Rightarrow> int" where
  "drain1 (OpDrain, RUint d) = uint d"
| "drain1 _ = 0"

fun amount_ok1 :: "lb_op \<times> lb_result \<Rightarrow> bool" where
  "amount_ok1 (OpTryConsume n, r) = amount n"
| "amount_ok1 _ = True"

definition credited :: "(lb_op \<times> lb_result) list \<Rightarrow> int" where
  "credited h = sum_list (map credit1 h)"

definition consumed_total :: "(lb_op \<times> lb_result) list \<Rightarrow> int" where
  "consumed_total h = sum_list (map consume1 h)"

definition drained_total :: "(lb_op \<times> lb_result) list \<Rightarrow> int" where
  "drained_total h = sum_list (map drain1 h)"

definition amounts_ok :: "(lb_op \<times> lb_result) list \<Rightarrow> bool" where
  "amounts_ok h = list_all amount_ok1 h"

lemma account1_nonneg: "0 \<le> credit1 x" "0 \<le> consume1 x" "0 \<le> drain1 x"
  by (cases x rule: credit1.cases, auto) (cases x rule: consume1.cases, auto,
      cases x rule: drain1.cases, auto)

lemma account_nonneg: "0 \<le> credited h" "0 \<le> consumed_total h" "0 \<le> drained_total h"
  by (auto simp: credited_def consumed_total_def drained_total_def account1_nonneg
      intro!: sum_list_nonneg)

lemma account_simps [simp]:
  "credited [] = 0" "credited (x # h) = credit1 x + credited h"
  "consumed_total [] = 0" "consumed_total (x # h) = consume1 x + consumed_total h"
  "drained_total [] = 0" "drained_total (x # h) = drain1 x + drained_total h"
  "amounts_ok []" "amounts_ok (x # h) \<longleftrightarrow> amount_ok1 x \<and> amounts_ok h"
  by (simp_all add: credited_def consumed_total_def drained_total_def amounts_ok_def)

text \<open>One operation and its effect on the account, the common step of the inductions below.\<close>

lemma lb_apply_account:
  assumes "lb_ok b" "lb_apply opn b = (r, b')" "amount_ok1 (opn, r)"
    "sint (tokens b) + credit1 (opn, r) < 2 ^ 63"
  shows "lb_ok b' \<and> sint (tokens b') = sint (tokens b) + credit1 (opn, r)
           - consume1 (opn, r) - drain1 (opn, r)"
proof (cases opn)
  case (OpTryConsume n)
  with assms have b': "b' = snd (TryConsume n b)" "r = RBool (fst (TryConsume n b))" "amount n"
    by (auto simp: split_beta)
  then show ?thesis
    using TryConsume_ok [OF assms(1)] TryConsume_tokens [OF assms(1)] OpTryConsume
    by (cases "fst (TryConsume n b)") auto
next
  case (OpRefill n)
  then show ?thesis using assms Refill_ok [OF assms(1)] Refill_tokens [OF assms(1)] by auto
next
  case OpRemaining
  then show ?thesis using assms by auto
next
  case OpDrain
  with assms(2) have "b' = snd (Drain b)" "r = RUint (fst (Drain b))"
    by (auto simp: split_beta)
  with OpDrain show ?thesis
    using Drain_ok [of b] Drain_uint [OF assms(1)] by simp
qed

lemma lb_run_account:
  assumes "lb_run h b = Some b'" "lb_ok b" "amounts_ok h" "sint (tokens b) + credited h < 2 ^ 63"
  shows "lb_ok b' \<and>
         sint (tokens b') = sint (tokens b) + credited h - consumed_total h - drained_total h"
  using assms
proof (induction h arbitrary: b)
  case Nil
  then show ?case by simp
next
  case (Cons x h)
  obtain opn r where x: "x = (opn, r)" by (cases x)
  obtain r1 b1 where ap: "lb_apply opn b = (r1, b1)" by (cases "lb_apply opn b")
  from Cons.prems(1) have r1: "r1 = r" and run: "lb_run h b1 = Some b'"
    by (simp_all add: x ap split: if_splits)
  have step: "lb_ok b1 \<and> sint (tokens b1) = sint (tokens b) + credit1 x - consume1 x - drain1 x"
    unfolding x using Cons.prems(2-4) ap r1 account_nonneg(1) [of h] x
    by (intro lb_apply_account) auto
  moreover have "sint (tokens b1) + credited h < 2 ^ 63"
    using step Cons.prems(4) account1_nonneg(2,3) [of x] by simp
  ultimately show ?case
    using Cons.IH [OF run] Cons.prems(3) by auto
qed

text \<open>
  C11. No token is created or lost by concurrency: in every state any number of goroutines can
  reach, the bucket holds exactly the initial tokens plus the refills minus what the successful
  calls consumed and the drains took, and never a negative number, as long as the amounts fit
  \<^verbatim>\<open>int64\<close> and the credits do not overflow it. So the calls never consume more than was put in.
\<close>

theorem lb_conservation:
  assumes "lb_reach b s" "lb_ok b" "amounts_ok (hist s)"
    "sint (tokens b) + credited (hist s) < 2 ^ 63"
  shows "sint (tokens (word s)) = sint (tokens b) + credited (hist s)
           - consumed_total (hist s) - drained_total (hist s) \<and>
         0 \<le> sint (tokens (word s)) \<and>
         consumed_total (hist s) \<le> sint (tokens b) + credited (hist s)"
proof -
  have "lb_run (hist s) b = Some (word s)"
    using lb_reach_inv [OF assms(1)] by (simp add: lb_inv_def)
  from lb_run_account [OF this assms(2-4)] show ?thesis
    using account_nonneg(3) [of "hist s"] by (auto simp: lb_ok_def)
qed

theorem lb_conservation_witness:
  "consumed_total [(OpRefill 4, RUnit)] \<le> sint (tokens \<lparr>tokens = 5\<rparr>) + credited [(OpRefill 4, RUnit)]"
proof -
  let ?b = "\<lparr>tokens = 5\<rparr>"
  let ?s = "(lb_init ?b)\<lparr>word := Refill 4 ?b, hist := [(OpRefill 4, RUnit)]\<rparr>"
  have "lb_step (lb_init ?b) ?s"
    using lb_step.refill [of "lb_init ?b" 0 4] by (simp add: lb_init_def)
  then have reach: "lb_reach ?b ?s" by blast
  have "lb_ok ?b" by (simp add: lb_ok_def)
  from lb_conservation [OF reach this] show ?thesis by simp
qed

end
