(* ===== verification/Rate_Window.thy ===== *)
theory Rate_Window
  imports Krate_Prelude
begin

text \<open>
  The rate-limit window (\<^verbatim>\<open>window.go\<close> and \<^verbatim>\<open>WindowType\<close> of \<^verbatim>\<open>types.go\<close>). \<^verbatim>\<open>windowStart\<close> is an
  atomic \<^verbatim>\<open>int64\<close> of Unix milliseconds; all arithmetic is 64-bit.
\<close>

datatype WindowType = Fixed | Sliding

record Window =
  windowType :: WindowType
  limit :: u64
  windowMs :: i64
  windowSize :: duration
  windowStart :: i64

definition NewWindow :: "WindowType \<Rightarrow> duration \<Rightarrow> u64 \<Rightarrow> Window" where
  "NewWindow wt sz lm =
     \<lparr>windowType = wt, limit = lm, windowMs = Milliseconds sz, windowSize = sz,
      windowStart = 0\<rparr>"

definition NeedsReset :: "i64 \<Rightarrow> Window \<Rightarrow> bool" where
  "NeedsReset nowUnixMs w \<longleftrightarrow> sint (windowStart w + windowMs w) \<le> sint nowUnixMs"

definition UpdateWindowStart :: "i64 \<Rightarrow> Window \<Rightarrow> Window" where
  "UpdateWindowStart startMs w = w\<lparr>windowStart := startMs\<rparr>"

definition WindowStartMs :: "Window \<Rightarrow> i64" where
  "WindowStartMs w = windowStart w"

definition Limit :: "Window \<Rightarrow> u64" where
  "Limit w = limit w"

definition WindowSize :: "Window \<Rightarrow> duration" where
  "WindowSize w = windowSize w"

definition EffectiveLimit :: "i64 \<Rightarrow> i64 \<Rightarrow> u64 \<Rightarrow> u64 \<Rightarrow> Window \<Rightarrow> u64" where
  "EffectiveLimit elapsedMs winMs prevCount currCount w =
     (case windowType w of
        Sliding \<Rightarrow>
          if sint winMs \<le> 0 then 0
          else let slidingPrev = i64_div (prevCount * elapsedMs) winMs;
                   effective = slidingPrev + currCount
               in if limit w \<le> effective then 0 else limit w - effective
      | _ \<Rightarrow> if limit w \<le> currCount then 0 else limit w - currCount)"

subsection \<open>The remaining allowance\<close>

lemma i64_div_nonneg:
  assumes "0 \<le> sint a" "0 < sint b"
  shows "sint (i64_div a b) = sint a div sint b"
proof -
  have "sint a div sint b \<le> sint a"
    using assms zdiv_mono2 [of "sint a" 1 "sint b"] by simp
  then have "sint a div sint b < 2 ^ 63" using sint_i64_upper [of a] by linarith
  moreover have "0 \<le> sint a div sint b" using assms by (simp add: pos_imp_zdiv_nonneg_iff)
  ultimately have "sint (word_of_int (sint a div sint b) :: i64) = sint a div sint b"
    by (intro sint_of_int_exact) auto
  then show ?thesis
    using assms by (cases "sint a = 0") (auto simp: i64_div_def)
qed

lemma sint_mult_exact:
  assumes "0 \<le> sint a" "0 \<le> sint b" "sint a * sint b < 2 ^ 63"
  shows "sint (a * b :: i64) = sint a * sint b"
proof -
  have "- (2 ^ 63) \<le> sint a * sint b"
    using mult_nonneg_nonneg [OF assms(1,2)] by (rule order_trans [rotated]) simp
  from signed_take_bit_int_eq_self [OF this assms(3)] show ?thesis
    by (simp add: sint_word_mult)
qed

text \<open>The guarded subtraction \<^verbatim>\<open>if count >= limit { return 0 }; return limit - count\<close>.\<close>

lemma uint_monus: "uint (if b \<le> a then (0 :: u64) else b - a) = max 0 (uint b - uint a)"
  using uint_sub_lem [of a b] by (auto simp: word_le_def)

text \<open>
  The fixed window leaves exactly what is not yet used of the limit, and nothing when the
  count has reached it.
\<close>

theorem EffectiveLimit_fixed:
  "windowType w = Fixed \<Longrightarrow>
   uint (EffectiveLimit e m prev cur w) = max 0 (uint (limit w) - uint cur)"
  using uint_monus [of "limit w" cur] by (simp add: EffectiveLimit_def)

theorem EffectiveLimit_fixed_witness:
  "uint (EffectiveLimit 0 0 0 30 (NewWindow Fixed 60000000000 100)) = 70"
  using EffectiveLimit_fixed [of "NewWindow Fixed 60000000000 100" 0 0 0 30]
  by (simp add: NewWindow_def)

text \<open>
  The sliding window weighs the previous count by the elapsed share of the window and leaves
  the limit minus that weight minus the current count, cut at 0, when the product of the
  previous count and the elapsed time fits \<^verbatim>\<open>int64\<close> and the effective count fits \<^verbatim>\<open>uint64\<close>.
\<close>

theorem EffectiveLimit_sliding:
  assumes "windowType w = Sliding" "0 < sint m" "0 \<le> sint e" "uint prev * sint e < 2 ^ 63"
    "uint prev < 2 ^ 63" "uint prev * sint e div sint m + uint cur < 2 ^ 64"
  shows "uint (EffectiveLimit e m prev cur w)
         = max 0 (uint (limit w) - (uint prev * sint e div sint m + uint cur))"
proof -
  have p: "sint prev = uint prev" using assms(5) by (rule sint_small)
  then have pe: "sint (prev * e) = uint prev * sint e"
    using assms(3,4) uint_ge_0 [of prev] by (simp add: sint_mult_exact)
  then have q: "sint (i64_div (prev * e) m) = uint prev * sint e div sint m"
    using assms(2,3) uint_ge_0 [of prev] by (simp add: i64_div_nonneg)
  have "0 \<le> uint prev * sint e div sint m"
    using assms(2,3) by (simp add: pos_imp_zdiv_nonneg_iff)
  then have u: "uint (i64_div (prev * e) m) = uint prev * sint e div sint m"
    using q uint_nonneg_sint [of "i64_div (prev * e) m"] by simp
  then have "uint (i64_div (prev * e) m + cur) = uint prev * sint e div sint m + uint cur"
    using assms(6) by (simp add: uint_add_lem [THEN iffD1])
  with uint_monus [of "limit w" "i64_div (prev * e) m + cur"] assms(1,2) show ?thesis
    by (simp add: EffectiveLimit_def Let_def)
qed

theorem EffectiveLimit_sliding_witness:
  "uint (EffectiveLimit 30000 60000 80 20 (NewWindow Sliding 60000000000 100)) = 40"
  using EffectiveLimit_sliding [of "NewWindow Sliding 60000000000 100" 60000 30000 80 20]
  by (simp add: NewWindow_def)

text \<open>
  The next reset is due exactly one window length after the recorded start, for starts and
  lengths whose sum fits \<^verbatim>\<open>int64\<close>.
\<close>

theorem NeedsReset_iff:
  assumes "- (2 ^ 63) \<le> sint s + sint (windowMs w)" "sint s + sint (windowMs w) < 2 ^ 63"
  shows "NeedsReset now (UpdateWindowStart s w) \<longleftrightarrow> sint s + sint (windowMs w) \<le> sint now"
  using sint_add_exact [OF assms] by (simp add: NeedsReset_def UpdateWindowStart_def)

theorem NeedsReset_iff_witness:
  "\<not> NeedsReset 159000 (UpdateWindowStart 100000 (NewWindow Fixed 60000000000 100)) \<and>
   NeedsReset 160000 (UpdateWindowStart 100000 (NewWindow Fixed 60000000000 100))"
  using NeedsReset_iff [of 100000 "NewWindow Fixed 60000000000 100"]
  by (simp add: NewWindow_def Milliseconds_def i64_div_def)

end
