(* ===== verification/Go_Float.thy ===== *)
theory Go_Float
  imports Krate_Prelude Complex_Main "HOL-Library.Log_Nat"
begin

text \<open>
  Go's \<^verbatim>\<open>float64\<close>: IEEE 754 binary64 with rounding to nearest, ties to even. A finite value is
  the rational it denotes; overflow gives an infinity, an invalid operation \<open>FNaN\<close>. The sign of
  a zero is not represented: no operation of the modelled code can observe it (the only
  divisions are by positive numbers). Converting a value outside the range of \<^verbatim>\<open>uint64\<close> has an
  implementation-dependent result in Go, so it is a parameter (\<open>oor\<close>) of every definition that
  converts.
\<close>

datatype f64 = FNaN | FInf bool | FFin rat

definition pow2 :: "int \<Rightarrow> rat" where
  "pow2 e = (if 0 \<le> e then 2 ^ nat e else 1 / 2 ^ nat (- e))"

text \<open>The exponent of a positive rational: the integer \<open>e\<close> with \<open>pow2 e \<le> x < pow2 (e + 1)\<close>.\<close>

definition exponent :: "rat \<Rightarrow> int" where
  "exponent x = (let (p, q) = quotient_of x; e = bitlen p - bitlen q
                 in if pow2 e \<le> x then e else e - 1)"

definition round_half_even :: "rat \<Rightarrow> int" where
  "round_half_even x = (let f = \<lfloor>x\<rfloor>; d = x - of_int f
     in if d < 1 / 2 then f else if 1 / 2 < d then f + 1 else if even f then f else f + 1)"

definition rnd :: "rat \<Rightarrow> f64" where
  "rnd x = (if x = 0 then FFin 0
     else let u = pow2 (max (exponent \<bar>x\<bar> - 52) (-1074));
              y = of_int (round_half_even (x / u)) * u
          in if 2 ^ 1024 \<le> \<bar>y\<bar> then FInf (x < 0) else FFin y)"

fun fadd :: "f64 \<Rightarrow> f64 \<Rightarrow> f64" where
  "fadd (FFin x) (FFin y) = rnd (x + y)"
| "fadd (FInf s) (FInf t) = (if s = t then FInf s else FNaN)"
| "fadd (FInf s) (FFin y) = FInf s"
| "fadd (FFin x) (FInf t) = FInf t"
| "fadd _ _ = FNaN"

fun fneg :: "f64 \<Rightarrow> f64" where
  "fneg (FFin x) = FFin (- x)"
| "fneg (FInf s) = FInf (\<not> s)"
| "fneg FNaN = FNaN"

definition fsub :: "f64 \<Rightarrow> f64 \<Rightarrow> f64" where
  "fsub a b = fadd a (fneg b)"

fun fmul :: "f64 \<Rightarrow> f64 \<Rightarrow> f64" where
  "fmul (FFin x) (FFin y) = rnd (x * y)"
| "fmul (FInf s) (FInf t) = FInf (s \<noteq> t)"
| "fmul (FInf s) (FFin y) = (if y = 0 then FNaN else FInf (s \<noteq> (y < 0)))"
| "fmul (FFin x) (FInf t) = (if x = 0 then FNaN else FInf (t \<noteq> (x < 0)))"
| "fmul _ _ = FNaN"

fun fdiv :: "f64 \<Rightarrow> f64 \<Rightarrow> f64" where
  \<comment> \<open>a zero divisor is taken as positive zero\<close>
  "fdiv (FFin x) (FFin y) = (if y = 0 then (if x = 0 then FNaN else FInf (x < 0)) else rnd (x / y))"
| "fdiv (FInf s) (FFin y) = FInf (s \<noteq> (y < 0))"
| "fdiv (FFin x) (FInf t) = FFin 0"
| "fdiv _ _ = FNaN"

fun fless :: "f64 \<Rightarrow> f64 \<Rightarrow> bool" where
  "fless (FFin x) (FFin y) = (x < y)"
| "fless (FInf s) (FInf t) = (s \<and> \<not> t)"
| "fless (FInf s) (FFin y) = s"
| "fless (FFin x) (FInf t) = (\<not> t)"
| "fless _ _ = False"

fun fleq :: "f64 \<Rightarrow> f64 \<Rightarrow> bool" where
  "fleq (FFin x) (FFin y) = (x \<le> y)"
| "fleq (FInf s) (FInf t) = (s \<or> \<not> t)"
| "fleq (FInf s) (FFin y) = s"
| "fleq (FFin x) (FInf t) = (\<not> t)"
| "fleq _ _ = False"

definition f64_of_u64 :: "u64 \<Rightarrow> f64" where
  "f64_of_u64 n = rnd (of_int (uint n))"

definition f64_of_i64 :: "i64 \<Rightarrow> f64" where
  "f64_of_i64 n = rnd (of_int (sint n))"

definition trunc_rat :: "rat \<Rightarrow> int" where
  "trunc_rat x = (if 0 \<le> x then \<lfloor>x\<rfloor> else \<lceil>x\<rceil>)"

definition u64_of_f64 :: "(f64 \<Rightarrow> u64) \<Rightarrow> f64 \<Rightarrow> u64" where
  "u64_of_f64 oor x = (case x of
     FFin q \<Rightarrow> if 0 \<le> trunc_rat q \<and> trunc_rat q < 2 ^ 64 then word_of_int (trunc_rat q) else oor x
   | _ \<Rightarrow> oor x)"

fun math_Round :: "f64 \<Rightarrow> f64" where
  \<comment> \<open>half away from zero; the result of a finite value is a finite integer, exactly representable\<close>
  "math_Round (FFin x) = FFin (if 0 \<le> x then of_int \<lfloor>x + 1 / 2\<rfloor> else of_int \<lceil>x - 1 / 2\<rceil>)"
| "math_Round x = x"

definition Seconds :: "duration \<Rightarrow> f64" where
  "Seconds d = (let sec = i64_div d 1000000000; nsec = d - sec * 1000000000
                in fadd (f64_of_i64 sec) (fdiv (f64_of_i64 nsec) (FFin (10 ^ 9))))"

subsection \<open>Rounding\<close>

lemma pow2_pos [simp]: "0 < pow2 e"
  by (simp add: pow2_def)

lemma pow2_add: "pow2 (a + b) = pow2 a * pow2 b"
  by (auto simp: pow2_def field_simps nat_add_distrib nat_diff_distrib power_add [symmetric]
      split: if_splits)

lemma pow2_0 [simp]: "pow2 0 = 1"
  by (simp add: pow2_def)

lemma pow2_nonneg [simp]: "0 \<le> pow2 e"
  using pow2_pos [of e] by linarith

lemma pow2_neq_0 [simp]: "pow2 e \<noteq> 0"
  using pow2_pos [of e] by linarith

lemma pow2_int: "0 \<le> k \<Longrightarrow> pow2 k = of_int (2 ^ nat k)"
  by (simp add: pow2_def)

lemma pow2_mono: "a \<le> b \<Longrightarrow> pow2 a \<le> pow2 b"
proof -
  assume "a \<le> b"
  then have "pow2 b = pow2 a * pow2 (b - a)" by (simp flip: pow2_add)
  moreover have "1 \<le> pow2 (b - a)" using \<open>a \<le> b\<close> by (simp add: pow2_def)
  ultimately show ?thesis using pow2_pos [of a] by (metis less_imp_le mult_left_mono mult.right_neutral)
qed

lemma pow2_less_iff: "pow2 a < pow2 b \<longleftrightarrow> a < b"
proof -
  have "a < b \<Longrightarrow> pow2 a < pow2 b"
  proof -
    assume "a < b"
    then have "pow2 (a + 1) \<le> pow2 b" by (intro pow2_mono) simp
    moreover have "pow2 (a + 1) = 2 * pow2 a" by (simp add: pow2_add) (simp add: pow2_def)
    ultimately show ?thesis using pow2_pos [of a] by linarith
  qed
  then show ?thesis using pow2_mono [of b a] by (meson leD not_less)
qed

lemma exponent_bounds:
  assumes "0 < x"
  shows "pow2 (exponent x) \<le> x" "x < pow2 (exponent x + 1)"
proof -
  obtain p q where pq: "quotient_of x = (p, q)" by (cases "quotient_of x")
  then have q: "0 < q" and x: "x = of_int p / of_int q"
    by (auto simp: quotient_of_denom_pos quotient_of_div)
  with assms have p: "0 < p" by (simp add: zero_less_divide_iff)
  have bits: "pow2 (bitlen k - 1) \<le> of_int k" "of_int k < pow2 (bitlen k)" if "0 < k" for k :: int
  proof -
    have b: "2 ^ nat (bitlen k - 1) \<le> k \<and> k < 2 ^ nat (bitlen k)"
      using that by (rule bitlen_bounds)
    have "1 \<le> bitlen k"
      using that by (subst compute_bitlen) (simp add: bitlen_nonneg)
    then have "pow2 (bitlen k - 1) = of_int (2 ^ nat (bitlen k - 1))"
      "pow2 (bitlen k) = of_int (2 ^ nat (bitlen k))"
      by (simp_all only: pow2_int)
    with b show "pow2 (bitlen k - 1) \<le> of_int k" "of_int k < pow2 (bitlen k)"
      by (simp_all only: of_int_le_iff of_int_less_iff)
  qed
  let ?e = "bitlen p - bitlen q"
  have "of_int p < pow2 (bitlen p)" "pow2 (bitlen q - 1) \<le> of_int q" using bits p q by auto
  then have up: "x < pow2 (?e + 1)"
  proof -
    have "pow2 (?e + 1) * pow2 (bitlen q - 1) = pow2 (bitlen p)" by (simp flip: pow2_add)
    then have "of_int p < pow2 (?e + 1) * of_int q"
      using \<open>of_int p < pow2 (bitlen p)\<close> \<open>pow2 (bitlen q - 1) \<le> of_int q\<close> pow2_pos [of "?e + 1"]
      by (smt (verit, best) mult_left_mono less_imp_le dual_order.strict_trans1)
    then show ?thesis using q by (simp add: x field_simps)
  qed
  have low: "pow2 (?e - 1) \<le> x"
  proof -
    have "pow2 (?e - 1) * pow2 (bitlen q) = pow2 (bitlen p - 1)" by (simp flip: pow2_add)
    moreover have "pow2 (?e - 1) * of_int q \<le> pow2 (?e - 1) * pow2 (bitlen q)"
      using bits(2) [OF q] pow2_pos [of "?e - 1"] by (intro mult_left_mono) auto
    ultimately have "pow2 (?e - 1) * of_int q \<le> of_int p"
      using bits(1) [OF p] by linarith
    then show ?thesis using q by (simp add: x field_simps)
  qed
  show "pow2 (exponent x) \<le> x" "x < pow2 (exponent x + 1)"
    using up low by (auto simp: exponent_def pq Let_def)
qed

lemma round_half_even_int [simp]: "round_half_even (of_int k) = k"
  by (simp add: round_half_even_def)

lemma rnd_exact:
  assumes x: "x = of_int m * pow2 e" and m: "\<bar>m\<bar> \<le> 2 ^ 53" and e: "- 1074 \<le> e" and big: "\<bar>x\<bar> < 2 ^ 1024"
  shows "rnd x = FFin x"
proof (cases "x = 0")
  case True
  then show ?thesis by (simp add: rnd_def)
next
  case False
  define u where "u = max (exponent \<bar>x\<bar> - 52) (-1074)"
  have "\<exists>k. x / pow2 u = of_int k"
  proof (cases "u \<le> e")
    case True
    then have "x / pow2 u = of_int (m * 2 ^ nat (e - u))"
      using pow2_add [of u "e - u"] pow2_int [of "e - u"] by (simp add: x field_simps)
    then show ?thesis by blast
  next
    case False
    then have eu: "exponent \<bar>x\<bar> - 52 = u" "e < u" using e by (auto simp: u_def)
    have ax: "\<bar>x\<bar> = of_int \<bar>m\<bar> * pow2 e" by (simp add: x abs_mult less_imp_le)
    have "pow2 (exponent \<bar>x\<bar>) \<le> \<bar>x\<bar>" using \<open>x \<noteq> 0\<close> by (intro exponent_bounds) simp
    also have "\<dots> \<le> of_int (2 ^ 53) * pow2 e"
      unfolding ax using m by (intro mult_right_mono) (auto simp del: of_int_power simp: less_imp_le)
    also have "\<dots> = pow2 (e + 53)" by (simp add: pow2_add) (simp add: pow2_def)
    finally have "exponent \<bar>x\<bar> \<le> e + 53" using pow2_less_iff leD not_less by meson
    with eu have ex: "exponent \<bar>x\<bar> = e + 53" "u = e + 1" by auto
    have "pow2 (e + 53) \<le> of_int \<bar>m\<bar> * pow2 e"
      using exponent_bounds(1) [of "\<bar>x\<bar>"] \<open>x \<noteq> 0\<close> ex ax by simp
    then have "of_int (2 ^ 53) * pow2 e \<le> of_int \<bar>m\<bar> * pow2 e"
      by (simp add: pow2_add pow2_def [of 53] mult.commute)
    then have "(of_int (2 ^ 53) :: rat) \<le> of_int \<bar>m\<bar>"
      using pow2_pos [of e] by (rule mult_right_le_imp_le)
    then have "2 ^ 53 \<le> \<bar>m\<bar>" by (simp only: of_int_le_iff)
    with m have "\<bar>m\<bar> = 2 ^ 53" by linarith
    then have "m = sgn m * 2 ^ 52 * 2" using sgn_mult_abs [of m] by simp
    then have "x = of_int (sgn m * 2 ^ 52) * (2 * pow2 e)"
      by (subst x) (metis (no_types) of_int_mult of_int_numeral mult.assoc)
    moreover have "pow2 u = 2 * pow2 e" by (simp add: ex pow2_add) (simp add: pow2_def)
    ultimately have "x / pow2 u = of_int (sgn m * 2 ^ 52)" by simp
    then show ?thesis by blast
  qed
  then obtain k where "x / pow2 u = of_int k" ..
  then have "round_half_even (x / pow2 u) = k" "of_int k * pow2 u = x"
    using pow2_pos [of u] by (auto simp: field_simps)
  then show ?thesis
    using False big by (simp add: rnd_def u_def [symmetric] Let_def)
qed
lemma rnd_of_int: "\<bar>k\<bar> \<le> 2 ^ 53 \<Longrightarrow> rnd (of_int k) = FFin (of_int k)"
proof -
  assume k: "\<bar>k\<bar> \<le> 2 ^ 53"
  have "(of_int \<bar>k\<bar> :: rat) \<le> of_int (2 ^ 53)" using k by (simp only: of_int_le_iff)
  also have "\<dots> < 2 ^ 1024"
    using power_strict_increasing [of 53 1024 "2 :: rat"] by (simp del: power_strict_increasing_iff)
  finally have "\<bar>of_int k :: rat\<bar> < 2 ^ 1024" by simp
  then show ?thesis using k by (intro rnd_exact [of _ k 0]) auto
qed

lemma f64_of_u64_exact: "uint n \<le> 2 ^ 53 \<Longrightarrow> f64_of_u64 n = FFin (of_int (uint n))"
  unfolding f64_of_u64_def by (rule rnd_of_int) simp

lemma round_half_even_le: "x \<le> of_int k \<Longrightarrow> round_half_even x \<le> k"
proof -
  assume le: "x \<le> of_int k"
  show ?thesis
  proof (cases "x = of_int k")
    case False
    with le have "x < of_int k" by simp
    then have "\<lfloor>x\<rfloor> < k" by (simp only: floor_less_iff)
    then have "\<lfloor>x\<rfloor> + 1 \<le> k" by simp
    then show ?thesis by (auto simp: round_half_even_def Let_def)
  qed simp
qed

lemma round_half_even_nonneg: "0 \<le> x \<Longrightarrow> 0 \<le> round_half_even x"
  by (auto simp: round_half_even_def Let_def)

text \<open>Rounding stays below an integer bound that is exactly representable.\<close>

lemma rnd_le_int:
  assumes "0 \<le> x" "x \<le> of_int m" "m \<le> 2 ^ 53"
  shows "\<exists>a. rnd x = FFin a \<and> 0 \<le> a \<and> a \<le> of_int m"
proof (cases "x = 0 \<or> x = of_int m")
  case True
  then show ?thesis
    using assms rnd_of_int [of m] by (auto simp: rnd_def)
next
  case False
  with assms have x: "0 < x" "x < of_int m" by auto
  define u where "u = max (exponent x - 52) (-1074)"
  have "pow2 (exponent x) \<le> x" using x(1) by (rule exponent_bounds)
  also have "x < of_int (2 ^ 53)" using x(2) assms(3) by (meson less_le_trans of_int_le_iff)
  also have "\<dots> = pow2 53" by (simp add: pow2_def)
  finally have "u \<le> 0" by (simp add: pow2_less_iff u_def)
  then have "of_int m / pow2 u = of_int (m * 2 ^ nat (- u))"
    using pow2_add [of u "- u"] pow2_int [of "- u"] by (simp add: field_simps)
  moreover have "x / pow2 u \<le> of_int m / pow2 u"
    using assms(2) by (intro divide_right_mono) auto
  ultimately have "round_half_even (x / pow2 u) \<le> m * 2 ^ nat (- u)"
    by (intro round_half_even_le) simp
  then have "of_int (round_half_even (x / pow2 u)) \<le> (of_int (m * 2 ^ nat (- u)) :: rat)"
    by (simp only: of_int_le_iff)
  then have le: "of_int (round_half_even (x / pow2 u)) * pow2 u \<le> of_int m"
    using \<open>of_int m / pow2 u = _\<close> pow2_pos [of u] by (metis pos_le_divide_eq)
  have ge: "0 \<le> (of_int (round_half_even (x / pow2 u)) :: rat) * pow2 u"
    using x(1) by (simp add: round_half_even_nonneg)
  have "(of_int m :: rat) \<le> of_int (2 ^ 53)" using assms(3) by (simp only: of_int_le_iff)
  also have "\<dots> < 2 ^ 1024"
    using power_strict_increasing [of 53 1024 "2 :: rat"] by (simp del: power_strict_increasing_iff)
  finally have "\<not> 2 ^ 1024 \<le> \<bar>of_int (round_half_even (x / pow2 u)) * pow2 u\<bar>"
    using le ge by simp
  then show ?thesis
    using x le ge by (auto simp: rnd_def u_def [symmetric] Let_def)
qed

lemma u64_of_f64_int [simp]:
  "0 \<le> k \<Longrightarrow> k < 2 ^ 64 \<Longrightarrow> u64_of_f64 oor (FFin (of_int k)) = word_of_int k"
  by (simp add: u64_of_f64_def trunc_rat_def)

lemma u64_of_f64_le:
  assumes "0 \<le> a" "a \<le> of_int m" "m < 2 ^ 64"
  shows "uint (u64_of_f64 oor (FFin a)) \<le> m"
proof -
  have fl: "0 \<le> \<lfloor>a\<rfloor>" "\<lfloor>a\<rfloor> \<le> m" using assms by (auto simp: floor_le_iff)
  moreover from this assms(3) have "u64_of_f64 oor (FFin a) = word_of_int \<lfloor>a\<rfloor>"
    using assms(1) by (simp add: u64_of_f64_def trunc_rat_def del: floor_less_numeral)
  ultimately show ?thesis
    using fl zmod_le_nonneg_dividend [of "\<lfloor>a\<rfloor>" "2 ^ 64"]
    by (simp add: uint_word_of_int del: zero_le_floor)
qed

text \<open>
  The pattern \<^verbatim>\<open>uint64(float64(n) * fraction)\<close>: for a fraction in \<open>[0, 1]\<close> and \<open>n\<close> up to \<open>2 ^ 53\<close>
  the result does not exceed \<open>n\<close>.
\<close>

lemma fraction_of_u64_le:
  assumes "uint n \<le> 2 ^ 53" "0 \<le> t" "t \<le> 1"
  shows "uint (u64_of_f64 oor (fmul (f64_of_u64 n) (FFin t))) \<le> uint n"
proof -
  define k where "k = uint n"
  have k: "0 \<le> k" "k \<le> 2 ^ 53" using assms(1) by (auto simp: k_def)
  then have "0 \<le> of_int k * t" "of_int k * t \<le> of_int k"
    using assms(2,3) by (auto simp: mult_left_le)
  then obtain a where a: "rnd (of_int k * t) = FFin a" "0 \<le> a" "a \<le> of_int k"
    using rnd_le_int k(2) by blast
  then have "fmul (f64_of_u64 n) (FFin t) = FFin a"
    unfolding f64_of_u64_exact [OF assms(1)] k_def by simp
  then show ?thesis
    using u64_of_f64_le [of a k oor] a(2,3) k(2) by (simp add: k_def)
qed

end
