(* ===== verification/Bucket.thy ===== *)
theory Bucket
  imports Local_Bucket Rate_Window Go_Float
begin

text \<open>
  The per-key bucket (\<^verbatim>\<open>bucket.go\<close>) and the idle eviction policy with its janitor
  (\<^verbatim>\<open>eviction.go\<close>). The atomics of the bucket are plain fields here; the mutex \<^verbatim>\<open>mu\<close> serialises
  \<^verbatim>\<open>resetWindow\<close> and has no field. \<^verbatim>\<open>newBucket\<close> reads the wall clock, which is an argument.
\<close>

record bucket =
  b_local :: LocalBucket
  b_window :: Window
  b_key :: string
  b_consumed :: u64
  b_lastAccess :: i64
  b_redisExhausted :: bool
  b_preBorrowing :: bool

definition newBucket :: "gtime \<Rightarrow> string \<Rightarrow> u64 \<Rightarrow> WindowType \<Rightarrow> duration \<Rightarrow> bucket" where
  "newBucket now key lm wt sz =
     \<lparr>b_local = NewLocalBucket key 0, b_window = NewWindow wt sz lm, b_key = key,
      b_consumed = 0, b_lastAccess = UnixMilli now,
      b_redisExhausted = False, b_preBorrowing = False\<rparr>"

definition updateAccess :: "i64 \<Rightarrow> bucket \<Rightarrow> bucket" where
  "updateAccess nowUnixMs b = b\<lparr>b_lastAccess := nowUnixMs\<rparr>"

definition getLastAccess :: "bucket \<Rightarrow> i64" where
  "getLastAccess b = b_lastAccess b"

definition tryConsume :: "u64 \<Rightarrow> bucket \<Rightarrow> bool \<times> bucket" where
  "tryConsume n b = (let (ok, lb) = TryConsume n (b_local b) in (ok, b\<lparr>b_local := lb\<rparr>))"

definition refill :: "u64 \<Rightarrow> bucket \<Rightarrow> bucket" where
  "refill n b = b\<lparr>b_local := Refill n (b_local b)\<rparr>"

definition needsReset :: "i64 \<Rightarrow> bucket \<Rightarrow> bool" where
  "needsReset nowUnixMs b = NeedsReset nowUnixMs (b_window b)"

definition remaining :: "bucket \<Rightarrow> u64" where
  "remaining b = Remaining (b_local b)"

definition drain :: "bucket \<Rightarrow> u64 \<times> bucket" where
  "drain b = (let (d, lb) = Drain (b_local b) in (d, b\<lparr>b_local := lb\<rparr>))"

definition MarkRedisExhausted :: "bucket \<Rightarrow> bucket" where
  "MarkRedisExhausted b = b\<lparr>b_redisExhausted := True\<rparr>"

definition ClearRedisExhausted :: "bucket \<Rightarrow> bucket" where
  "ClearRedisExhausted b = b\<lparr>b_redisExhausted := False\<rparr>"

definition IsRedisExhausted :: "bucket \<Rightarrow> bool" where
  "IsRedisExhausted b = b_redisExhausted b"

definition TryMarkPreBorrowing :: "bucket \<Rightarrow> bool \<times> bucket" where
  "TryMarkPreBorrowing b =
     (if \<not> b_preBorrowing b then (True, b\<lparr>b_preBorrowing := True\<rparr>) else (False, b))"

definition ClearPreBorrowing :: "bucket \<Rightarrow> bucket" where
  "ClearPreBorrowing b = b\<lparr>b_preBorrowing := False\<rparr>"

definition isPreBorrowing :: "bucket \<Rightarrow> bool" where
  "isPreBorrowing b = b_preBorrowing b"

definition preBorrowTrigger :: "(f64 \<Rightarrow> u64) \<Rightarrow> u64 \<Rightarrow> f64 \<Rightarrow> u64" where
  "preBorrowTrigger oor minB threshold =
     (let trigger = u64_of_f64 oor (fmul (f64_of_u64 minB) threshold)
      in if trigger = 0 then 1 else trigger)"

definition belowPreBorrowThreshold :: "(f64 \<Rightarrow> u64) \<Rightarrow> u64 \<Rightarrow> f64 \<Rightarrow> bucket \<Rightarrow> bool" where
  "belowPreBorrowThreshold oor minB threshold b \<longleftrightarrow> remaining b < preBorrowTrigger oor minB threshold"

definition recordConsumption :: "u64 \<Rightarrow> bucket \<Rightarrow> bucket" where
  "recordConsumption n b = b\<lparr>b_consumed := b_consumed b + n\<rparr>"

definition getConsumed :: "bucket \<Rightarrow> u64" where
  "getConsumed b = b_consumed b"

definition resetConsumed :: "bucket \<Rightarrow> bucket" where
  "resetConsumed b = b\<lparr>b_consumed := 0\<rparr>"

subsection \<open>Eviction\<close>

record IdleEvictionPolicy =
  idleTimeout :: duration

definition NewIdleEvictionPolicy :: "duration \<Rightarrow> IdleEvictionPolicy" where
  "NewIdleEvictionPolicy timeout =
     \<lparr>idleTimeout = (if sint timeout \<le> 0 then 60 * 1000000000 else timeout)\<rparr>"

definition ShouldEvict :: "IdleEvictionPolicy \<Rightarrow> bucket \<Rightarrow> i64 \<Rightarrow> bool" where
  "ShouldEvict p b nowMs =
     (let idleFor = (nowMs - getLastAccess b) * 1000000 in sint (idleTimeout p) < sint idleFor)"

text \<open>
  The janitor runs a callback on every tick until its context is cancelled. Its goroutine is a
  recursion over the events its \<^verbatim>\<open>select\<close> receives: a tick carries the time the clock then shows.
\<close>

record Janitor =
  interval :: duration

definition NewJanitor :: "duration \<Rightarrow> Janitor" where
  "NewJanitor iv = \<lparr>interval = (if sint iv \<le> 0 then 10 * 1000000000 else iv)\<rparr>"

datatype janitor_event = JDone | JTick gtime

fun janitor_Start :: "(i64 \<Rightarrow> 's \<Rightarrow> 's) \<Rightarrow> janitor_event list \<Rightarrow> 's \<Rightarrow> 's" where
  "janitor_Start evictFn [] s = s"
| "janitor_Start evictFn (JDone # es) s = s"
| "janitor_Start evictFn (JTick now # es) s =
     janitor_Start evictFn es (evictFn (UnixMilli now) s)"

subsection \<open>Lemmas\<close>

lemmas bucket_defs = updateAccess_def getLastAccess_def tryConsume_def refill_def needsReset_def
  remaining_def drain_def MarkRedisExhausted_def ClearRedisExhausted_def IsRedisExhausted_def
  ClearPreBorrowing_def isPreBorrowing_def recordConsumption_def getConsumed_def resetConsumed_def

definition bucket_ok :: "bucket \<Rightarrow> bool" where
  "bucket_ok b \<longleftrightarrow> lb_ok (b_local b)"

abbreviation held :: "bucket \<Rightarrow> int" where
  "held b \<equiv> sint (tokens (b_local b))"

lemma newBucket_ok [simp]: "bucket_ok (newBucket now key lm wt sz)"
  by (simp add: bucket_ok_def newBucket_def NewLocalBucket_def lb_ok_def)

lemma tryConsume_snd [simp]:
  "b_local (snd (tryConsume n b)) = snd (TryConsume n (b_local b))"
  "fst (tryConsume n b) = fst (TryConsume n (b_local b))"
  "b_window (snd (tryConsume n b)) = b_window b"
  "b_consumed (snd (tryConsume n b)) = b_consumed b"
  "b_lastAccess (snd (tryConsume n b)) = b_lastAccess b"
  "b_redisExhausted (snd (tryConsume n b)) = b_redisExhausted b"
  "b_preBorrowing (snd (tryConsume n b)) = b_preBorrowing b"
  "b_key (snd (tryConsume n b)) = b_key b"
  by (simp_all add: tryConsume_def split_beta)

lemma tryConsume_ok: "bucket_ok b \<Longrightarrow> amount n \<Longrightarrow> bucket_ok (snd (tryConsume n b))"
  by (simp add: bucket_ok_def TryConsume_ok)

lemma tryConsume_held:
  "bucket_ok b \<Longrightarrow> amount n \<Longrightarrow>
   held (snd (tryConsume n b)) = held b - (if fst (tryConsume n b) then uint n else 0)"
  by (simp add: bucket_ok_def TryConsume_tokens)

lemma refill_ok: "bucket_ok b \<Longrightarrow> held b + uint n < 2 ^ 63 \<Longrightarrow> bucket_ok (refill n b)"
  by (simp add: bucket_ok_def refill_def Refill_ok)

lemma refill_held: "bucket_ok b \<Longrightarrow> held b + uint n < 2 ^ 63 \<Longrightarrow> held (refill n b) = held b + uint n"
  by (simp add: bucket_ok_def refill_def Refill_tokens)

lemma remaining_uint: "bucket_ok b \<Longrightarrow> uint (remaining b) = held b"
  by (simp add: bucket_ok_def remaining_def Remaining_uint)

lemma drain_snd [simp]: "held (snd (drain b)) = 0" "bucket_ok (snd (drain b))"
  by (simp_all add: drain_def split_beta bucket_ok_def Drain_ok)

lemma janitor_Start_invariant:
  assumes "\<And>now s. I s \<Longrightarrow> I (evictFn now s)" "I s"
  shows "I (janitor_Start evictFn es s)"
  using assms(2)
proof (induction es arbitrary: s)
  case (Cons e es)
  then show ?case by (cases e) (auto intro: assms(1))
qed simp

text \<open>
  A pre-borrow is triggered only when the bucket holds fewer than the minimum borrow size (or
  is empty): the float product of the minimum and a threshold in \<open>[0, 1]\<close>, rounded and converted
  back, never exceeds the minimum, for minimum sizes up to \<open>2 ^ 53\<close>.
\<close>

theorem preBorrow_only_when_low:
  assumes "bucket_ok b" "0 \<le> t" "t \<le> 1" "uint minB \<le> 2 ^ 53"
    and below: "belowPreBorrowThreshold oor minB (FFin t) b"
  shows "held b < max 1 (uint minB)"
proof -
  have "uint (u64_of_f64 oor (fmul (f64_of_u64 minB) (FFin t))) \<le> uint minB"
    using assms(4,2,3) by (rule fraction_of_u64_le)
  then have "uint (preBorrowTrigger oor minB (FFin t)) \<le> max 1 (uint minB)"
    by (auto simp: preBorrowTrigger_def Let_def)
  moreover have "uint (remaining b) < uint (preBorrowTrigger oor minB (FFin t))"
    using below by (simp add: belowPreBorrowThreshold_def word_less_def)
  ultimately show ?thesis
    using remaining_uint [OF assms(1)] by linarith
qed

theorem preBorrow_only_when_low_witness:
  "held (newBucket 0 ''k'' 1000 Fixed 60000000000) < max 1 (uint (100 :: u64))"
proof -
  let ?b = "newBucket 0 ''k'' 1000 Fixed 60000000000"
  have half: "rnd (1 / 2 * of_int 100) = FFin 50" using rnd_of_int [of 50] by simp
  have "rnd (of_int 100) = FFin 100" using rnd_of_int [of 100] by simp
  then have "belowPreBorrowThreshold (\<lambda>_. 0) 100 (FFin (1 / 2)) ?b"
    using half u64_of_f64_int [of 50 "\<lambda>_. 0"]
    by (simp add: belowPreBorrowThreshold_def preBorrowTrigger_def f64_of_u64_def newBucket_def
        remaining_def Remaining_def NewLocalBucket_def)
  from preBorrow_only_when_low [OF _ _ _ _ this] show ?thesis by simp
qed

text \<open>
  A bucket is evicted exactly when its idle time, in milliseconds, exceeds the timeout, as
  long as the idle time is a valid \<^verbatim>\<open>time.Duration\<close> (below 292 years).
\<close>

theorem ShouldEvict_iff:
  assumes "0 \<le> sint nowMs - sint (b_lastAccess b)"
    "(sint nowMs - sint (b_lastAccess b)) * 1000000 < 2 ^ 63"
  shows "ShouldEvict p b nowMs \<longleftrightarrow>
         sint (idleTimeout p) < (sint nowMs - sint (b_lastAccess b)) * 1000000"
proof -
  have d: "sint (nowMs - b_lastAccess b) = sint nowMs - sint (b_lastAccess b)"
    using assms by (intro sint_diff_exact) auto
  then have "sint ((nowMs - b_lastAccess b) * 1000000)
             = (sint nowMs - sint (b_lastAccess b)) * 1000000"
    using assms sint_mult_exact [of "nowMs - b_lastAccess b" 1000000] by simp
  then show ?thesis by (simp add: ShouldEvict_def Let_def getLastAccess_def)
qed

theorem ShouldEvict_iff_witness:
  "ShouldEvict (NewIdleEvictionPolicy 50000000) (updateAccess 1000 (newBucket 0 ''k'' 1 Fixed 1)) 1051"
  using ShouldEvict_iff [of 1051 "updateAccess 1000 (newBucket 0 ''k'' 1 Fixed 1)"
      "NewIdleEvictionPolicy 50000000"]
  by (simp add: updateAccess_def NewIdleEvictionPolicy_def)

end
