(* ===== verification/Sharding.thy ===== *)
theory Sharding
  imports Krate_Prelude
begin

unbundle bit_operations_syntax

text \<open>
  Key sharding. Five components spread their per-key state over 64 shards by the same FNV-1a
  hash (\<^verbatim>\<open>shardIndex\<close> in \<^verbatim>\<open>limiter.go\<close>, \<^verbatim>\<open>borrow/manager.go\<close>, \<^verbatim>\<open>sketch/gossip.go\<close>,
  \<^verbatim>\<open>routing/ema_router.go\<close> and \<^verbatim>\<open>peer/acquirer.go\<close>) and evict keys by the same two loops: group
  the keys by shard, then visit the shards with work. The locales state the contract of such a
  store once; every component interprets them on its own shard state.
\<close>

definition shardCount :: nat where
  "shardCount = 64"

fun fnv32_loop :: "u32 \<Rightarrow> string \<Rightarrow> u32" where
  "fnv32_loop h [] = h"
| "fnv32_loop h (c # cs) = fnv32_loop ((h XOR of_nat (of_char c)) * 16777619) cs"

definition shardIndex :: "string \<Rightarrow> nat" where
  "shardIndex key = unat (fnv32_loop 2166136261 key AND 63)"

text \<open>The function is written out again in four more files, each with a count of its own.\<close>

definition managerShardCount :: nat where
  "managerShardCount = 64"

definition manager_shardIndex :: "string \<Rightarrow> nat" where
  "manager_shardIndex key = unat (fnv32_loop 2166136261 key AND (of_nat managerShardCount - 1))"

definition gossipShardCount :: nat where
  "gossipShardCount = 64"

definition gossip_shardIndex :: "string \<Rightarrow> nat" where
  "gossip_shardIndex key = unat (fnv32_loop 2166136261 key AND (of_nat gossipShardCount - 1))"

definition routerShardCount :: nat where
  "routerShardCount = 64"

definition router_shardIndex :: "string \<Rightarrow> nat" where
  "router_shardIndex key = unat (fnv32_loop 2166136261 key AND (of_nat routerShardCount - 1))"

definition acquirerSfShardCount :: nat where
  "acquirerSfShardCount = 64"

definition acquirer_shardIndex :: "string \<Rightarrow> nat" where
  "acquirer_shardIndex key = unat (fnv32_loop 2166136261 key AND (of_nat acquirerSfShardCount - 1))"

lemma shardIndex_copies:
  "manager_shardIndex = shardIndex" "gossip_shardIndex = shardIndex" "router_shardIndex = shardIndex" "acquirer_shardIndex = shardIndex"
  "managerShardCount = shardCount" "gossipShardCount = shardCount" "routerShardCount = shardCount" "acquirerSfShardCount = shardCount"
  by (simp_all add: fun_eq_iff manager_shardIndex_def gossip_shardIndex_def router_shardIndex_def acquirer_shardIndex_def shardIndex_def
      managerShardCount_def gossipShardCount_def routerShardCount_def acquirerSfShardCount_def shardCount_def)

lemma shardIndex_less: "shardIndex key < shardCount"
proof -
  have "unat (fnv32_loop 2166136261 key AND 63) \<le> unat (63 :: u32)"
    by (rule word_and_le1 [THEN word_le_nat_alt [THEN iffD1]])
  then show ?thesis
    by (simp add: shardIndex_def shardCount_def)
qed

text \<open>The grouping loop: \<^verbatim>\<open>shardToKeys[idx] = append(shardToKeys[idx], k)\<close>.\<close>

definition group_keys :: "('k \<Rightarrow> nat) \<Rightarrow> nat \<Rightarrow> 'k list \<Rightarrow> 'k list list" where
  "group_keys idx n ks = fold (\<lambda>k acc. acc[idx k := acc ! idx k @ [k]]) ks (replicate n [])"

text \<open>The visiting loop: a shard whose group is empty is skipped, the others fold over it.\<close>

definition visit_groups :: "('k \<Rightarrow> 's \<Rightarrow> 's) \<Rightarrow> 'k list list \<Rightarrow> 's list \<Rightarrow> 's list" where
  "visit_groups f groups shards =
     map (\<lambda>(ks, s). if ks = [] then s else fold f ks s) (zip groups shards)"

lemma group_keys_fold:
  assumes "\<And>k. idx k < n" "length acc = n" "i < n"
  shows "fold (\<lambda>k acc. acc[idx k := acc ! idx k @ [k]]) ks acc ! i
         = acc ! i @ filter (\<lambda>k. idx k = i) ks"
    and "length (fold (\<lambda>k acc. acc[idx k := acc ! idx k @ [k]]) ks acc) = n"
  using assms(2,3)
proof (induction ks arbitrary: acc)
  case Nil
  { case 1 then show ?case by simp next case 2 then show ?case by simp }
next
  case (Cons k ks)
  { case 1 with assms(1) [of k] show ?case by (auto simp: Cons.IH nth_list_update)
  next
    case 2 then show ?case by (simp add: Cons.IH) }
qed

text \<open>A sharded Go map: every key sits in the shard its hash names, once.\<close>

definition shards_ok :: "('k \<Rightarrow> nat) \<Rightarrow> nat \<Rightarrow> ('k, 'v) gomap list \<Rightarrow> bool" where
  "shards_ok idx n S \<longleftrightarrow> length S = n \<and>
     (\<forall>i < n. gomap_ok (S ! i) \<and> (\<forall>k \<in> fst ` set (S ! i). idx k = i))"

lemma shards_okD:
  assumes "shards_ok idx n S"
  shows "length S = n" "i < n \<Longrightarrow> gomap_ok (S ! i)" "i < n \<Longrightarrow> \<forall>k \<in> fst ` set (S ! i). idx k = i"
  using assms by (auto simp: shards_ok_def)

lemma distinct_concat_indexed:
  assumes "\<forall>i < length S. gomap_ok (S ! i) \<and> (\<forall>k \<in> fst ` set (S ! i). idx k = i + off)"
  shows "gomap_ok (concat S)"
  using assms
proof (induction S arbitrary: off)
  case (Cons s S)
  have "gomap_ok s" and s: "\<forall>k \<in> fst ` set s. idx k = off"
    using Cons.prems by force+
  have tail: "\<forall>i < length S. gomap_ok (S ! i) \<and> (\<forall>k \<in> fst ` set (S ! i). idx k = i + Suc off)"
    using Cons.prems by force
  then have "gomap_ok (concat S)" by (rule Cons.IH)
  moreover have "idx k \<noteq> off" if "k \<in> fst ` set (concat S)" for k
    using that tail by (force simp: in_set_conv_nth)
  then have "fst ` set s \<inter> fst ` set (concat S) = {}" using s by blast
  ultimately show ?case using \<open>gomap_ok s\<close> by (simp add: image_UN)
qed simp

text \<open>The contract of a hash that assigns every key a shard.\<close>

locale sharded =
  fixes idx :: "'k \<Rightarrow> nat" and n :: nat
  assumes idx_less: "idx k < n"
begin

lemma group_keys_nth: "i < n \<Longrightarrow> group_keys idx n ks ! i = filter (\<lambda>k. idx k = i) ks"
  unfolding group_keys_def by (subst group_keys_fold(1)) (auto simp: idx_less)

lemma length_group_keys: "length (group_keys idx n ks) = n"
  unfolding group_keys_def using group_keys_fold(2) [of idx n "replicate n []" 0] idx_less
  by (cases n) (auto simp: idx_less)

lemma visit_groups_nth:
  assumes "length shards = n" "i < n"
  shows "visit_groups f (group_keys idx n ks) shards ! i
         = fold f (filter (\<lambda>k. idx k = i) ks) (shards ! i)"
  using assms by (auto simp: visit_groups_def length_group_keys group_keys_nth)

lemma length_visit_groups:
  "length shards = n \<Longrightarrow> length (visit_groups f (group_keys idx n ks) shards) = n"
  by (simp add: visit_groups_def length_group_keys)

lemma shards_ok_new [simp]: "shards_ok idx n (replicate n [])"
  by (simp add: shards_ok_def)

lemma shards_ok_replace:
  assumes "shards_ok idx n S" "gomap_ok s" "fst ` set s \<subseteq> insert k (fst ` set (S ! idx k))"
  shows "shards_ok idx n (S[idx k := s])"
  unfolding shards_ok_def
proof (intro conjI allI impI)
  fix i assume i: "i < n"
  show "gomap_ok (S[idx k := s] ! i)"
    using i assms(2) shards_okD(1,2) [OF assms(1)] by (cases "i = idx k") simp_all
  show "\<forall>k' \<in> fst ` set (S[idx k := s] ! i). idx k' = i"
  proof (cases "i = idx k")
    case True
    have "\<forall>k' \<in> insert k (fst ` set (S ! idx k)). idx k' = idx k"
      using shards_okD(3) [OF assms(1) idx_less [of k]] by blast
    then have "\<forall>k' \<in> fst ` set s. idx k' = idx k" using assms(3) by blast
    then show ?thesis using True i shards_okD(1) [OF assms(1)] by simp
  next
    case False
    then show ?thesis using shards_okD(3) [OF assms(1) i] by auto
  qed
qed (simp add: shards_okD(1) [OF assms(1)])

lemma shards_ok_update: "shards_ok idx n S \<Longrightarrow> shards_ok idx n (S[idx k := AList.update k v (S ! idx k)])"
  by (intro shards_ok_replace gomap_ok_update) (auto intro: shards_okD(2) idx_less simp: dom_update)

lemma shards_ok_delete: "shards_ok idx n S \<Longrightarrow> shards_ok idx n (S[idx k := AList.delete k (S ! idx k)])"
  by (intro shards_ok_replace gomap_ok_delete)
     (auto intro: shards_okD(2) idx_less dest: subsetD [OF dom_delete_subset, OF imageI])

lemma shards_ok_filter:
  assumes "shards_ok idx n S"
  shows "shards_ok idx n (map (filter P) S)"
  using assms by (auto simp: shards_ok_def distinct_map_filter)

lemma shards_ok_evict:
  assumes "shards_ok idx n S"
  shows "shards_ok idx n (visit_groups AList.delete (group_keys idx n ks) S)"
  unfolding shards_ok_def
proof (intro conjI allI impI)
  fix i assume i: "i < n"
  have "visit_groups AList.delete (group_keys idx n ks) S ! i
        = fold AList.delete (filter (\<lambda>k. idx k = i) ks) (S ! i)"
    using i shards_okD(1) [OF assms] by (rule visit_groups_nth [rotated])
  then show "gomap_ok (visit_groups AList.delete (group_keys idx n ks) S ! i)"
    "\<forall>k \<in> fst ` set (visit_groups AList.delete (group_keys idx n ks) S ! i). idx k = i"
    using shards_okD(2,3) [OF assms i] 
      fold_delete_keys_subset [of "filter (\<lambda>k. idx k = i) ks" "S ! i"]
    by (simp_all only: fold_delete_ok) blast
qed (simp add: length_visit_groups shards_okD(1) [OF assms])

lemma lookup_update:
  "shards_ok idx n S \<Longrightarrow> map_of (S[idx k := AList.update k v (S ! idx k)] ! idx k') k'
     = (if k' = k then Some v else map_of (S ! idx k') k')"
  using idx_less [of k] by (auto simp: shards_ok_def nth_list_update update_conv')

lemma lookup_delete:
  "shards_ok idx n S \<Longrightarrow> map_of (S[idx k := AList.delete k (S ! idx k)] ! idx k') k'
     = (if k' = k then None else map_of (S ! idx k') k')"
  using idx_less [of k] by (auto simp: shards_ok_def nth_list_update delete_conv')

lemma lookup_filter:
  assumes "shards_ok idx n S"
  shows "map_of (map (filter (\<lambda>(k, v). P k v)) S ! idx k) k
     = (case map_of (S ! idx k) k of None \<Rightarrow> None | Some v \<Rightarrow> if P k v then Some v else None)"
  using assms idx_less [of k] by (simp add: shards_ok_def map_of_filter_val)

text \<open>Reading all shards in order is reading one flat map.\<close>

lemma concat_mem_iff:
  assumes "shards_ok idx n S"
  shows "(k, v) \<in> set (concat S) \<longleftrightarrow> map_of (S ! idx k) k = Some v"
proof -
  have "(k, v) \<in> set (concat S) \<longleftrightarrow> (\<exists>i < n. (k, v) \<in> set (S ! i))"
    using assms by (force simp: shards_ok_def in_set_conv_nth)
  also have "\<dots> \<longleftrightarrow> (k, v) \<in> set (S ! idx k)"
    using assms idx_less [of k] by (force simp: shards_ok_def)
  finally show ?thesis
    using assms idx_less [of k] by (simp add: shards_ok_def map_of_mem_iff)
qed

lemma concat_gomap_ok:
  assumes "shards_ok idx n S"
  shows "gomap_ok (concat S)"
  using assms distinct_concat_indexed [of S idx 0] by (simp add: shards_ok_def)

end

text \<open>
  A sharded store: shard states with an observation per key and a deletion that hits exactly
  its key. Batch eviction through the two loops then deletes exactly the given keys, each from
  its own shard.
\<close>

locale shard_store = sharded idx n for idx :: "'k \<Rightarrow> nat" and n :: nat +
  fixes del :: "'k \<Rightarrow> 's \<Rightarrow> 's" and obs :: "'s \<Rightarrow> 'k \<Rightarrow> 'v" and gone :: 'v
  assumes obs_del: "obs (del k s) k' = (if k = k' then gone else obs s k')"
begin

lemma obs_fold_del: "obs (fold del ks s) k = (if k \<in> set ks then gone else obs s k)"
  by (induction ks arbitrary: s) (auto simp: obs_del)

definition lookup :: "'s list \<Rightarrow> 'k \<Rightarrow> 'v" where
  "lookup shards k = obs (shards ! idx k) k"

lemma lookup_evict:
  assumes "length shards = n"
  shows "lookup (visit_groups del (group_keys idx n ks) shards) k
         = (if k \<in> set ks then gone else lookup shards k)"
  using assms by (simp add: lookup_def visit_groups_nth idx_less obs_fold_del)

lemma lookup_other_shard:
  "length shards = n \<Longrightarrow> idx k \<noteq> i \<Longrightarrow> lookup (shards[i := s]) k = lookup shards k"
  by (simp add: lookup_def)

end

interpretation fnv: sharded shardIndex shardCount
  by unfold_locales (rule shardIndex_less)

text \<open>The plain sharded map of values: each shard is one Go map.\<close>

interpretation fnv_map: shard_store shardIndex shardCount AList.delete map_of None
  by unfold_locales (auto simp: delete_conv')

end
