(* ===== verification/Gossip.thy ===== *)
theory Gossip
  imports Sharding Go_Float
begin

text \<open>
  The gossiper (\<^verbatim>\<open>sketch/gossip.go\<close>): what this instance knows of its peers, per peer and key: the
  consumed and borrowed amounts, when they arrived, and a smoothed consumption velocity, in 64
  shards of six nested maps. \<^verbatim>\<open>TopK\<close> ranks the peers with a predicted surplus of a key. Shown here:
  every operation acts on each (peer, key) cell as a small cell function says, and the bounded
  insertion of \<^verbatim>\<open>TopK\<close> computes what its sorting path computes.
\<close>

record PeerEntry =
  pe_ID :: string
  pe_Surplus :: u64
  pe_Consumed :: u64
  pe_LastUpdated :: gtime

record gossipShard =
  peerConsumed :: "(string, (string, u64) gomap) gomap"
  peerBorrowed :: "(string, (string, u64) gomap) gomap"
  peerUpdated :: "(string, (string, gtime) gomap) gomap"
  lastConsumed :: "(string, (string, u64) gomap) gomap"
  velocityEMA :: "(string, (string, f64) gomap) gomap"
  lastUpdated :: "(string, (string, gtime) gomap) gomap"

record Gossiper =
  g_alpha :: f64
  g_shards :: "gossipShard list"
  g_peers :: "string list"

definition empty_gossipShard :: gossipShard where
  "empty_gossipShard = \<lparr>peerConsumed = [], peerBorrowed = [], peerUpdated = [], lastConsumed = [],
     velocityEMA = [], lastUpdated = []\<rparr>"

definition NewGossiper :: Gossiper where
  "NewGossiper = \<lparr>g_alpha = FFin (1 / 2), g_shards = replicate shardCount empty_gossipShard, g_peers = []\<rparr>"

definition SetAlpha :: "f64 \<Rightarrow> Gossiper \<Rightarrow> Gossiper" where
  "SetAlpha a g = (if fless (FFin 0) a \<and> fleq a (FFin 1) then g\<lparr>g_alpha := a\<rparr> else g)"

subsection \<open>Updates from a peer\<close>

record shardKeys =
  su_consumed :: "(string, u64) gomap"
  su_borrowed :: "(string, u64) gomap"

definition with_update ::
    "nat \<Rightarrow> (shardKeys \<Rightarrow> shardKeys) \<Rightarrow> (nat, shardKeys) gomap \<Rightarrow> (nat, shardKeys) gomap" where
  "with_update idx f updates =
     AList.update idx (f (case map_of updates idx of
       None \<Rightarrow> \<lparr>su_consumed = [], su_borrowed = []\<rparr> | Some su \<Rightarrow> su)) updates"

definition group_updates ::
    "(string, u64) gomap \<Rightarrow> (string, u64) gomap \<Rightarrow> (nat, shardKeys) gomap" where
  "group_updates consumed borrowed =
     fold (\<lambda>(k, v). with_update (shardIndex k) (su_borrowed_update (AList.update k v))) borrowed
       (fold (\<lambda>(k, v). with_update (shardIndex k) (su_consumed_update (AList.update k v))) consumed [])"

text \<open>The body of the loop over the consumed amounts.\<close>

definition consume_step :: "string \<Rightarrow> f64 \<Rightarrow> gtime \<Rightarrow> string \<times> u64 \<Rightarrow> gossipShard \<Rightarrow> gossipShard" where
  "consume_step i a now = (\<lambda>(k, v) s.
     if v = 0
     then s\<lparr>peerConsumed := ndel i k (peerConsumed s), lastConsumed := ndel i k (lastConsumed s),
            velocityEMA := ndel i k (velocityEMA s), lastUpdated := ndel i k (lastUpdated s)\<rparr>
     else
       let s1 = s\<lparr>peerConsumed := nset i k v (peerConsumed s)\<rparr>;
           s2 = (case (nget (lastUpdated s1) i k, nget (lastConsumed s1) i k) of
              (Some lastTime, Some lastCon) \<Rightarrow>
                let dt = Seconds (time_sub now lastTime);
                    s' = (if fless (FFin 0) dt
                      then let diff = (if lastCon \<le> v then f64_of_u64 (v - lastCon) else f64_of_u64 v);
                               currentVelocity = fdiv diff dt;
                               prevEMA = (case nget (velocityEMA s1) i k of None \<Rightarrow> FFin 0 | Some e \<Rightarrow> e);
                               newEMA = fadd (fmul a currentVelocity) (fmul (fsub (FFin 1) a) prevEMA)
                           in s1\<lparr>velocityEMA := nset i k newEMA (velocityEMA s1)\<rparr>
                      else s1)
                in s'\<lparr>lastUpdated := nset i k now (lastUpdated s')\<rparr>
            | _ \<Rightarrow> s1\<lparr>lastUpdated := nset i k now (lastUpdated s1)\<rparr>)
       in s2\<lparr>lastConsumed := nset i k v (lastConsumed s2)\<rparr>)"

definition borrow_step :: "string \<Rightarrow> string \<times> u64 \<Rightarrow> gossipShard \<Rightarrow> gossipShard" where
  "borrow_step i = (\<lambda>(k, v) s. s\<lparr>peerBorrowed :=
     (if v = 0 then ndel i k (peerBorrowed s) else nset i k v (peerBorrowed s))\<rparr>)"

definition touch_step :: "string \<Rightarrow> gtime \<Rightarrow> string \<times> u64 \<Rightarrow> gossipShard \<Rightarrow> gossipShard" where
  "touch_step i now = (\<lambda>(k, v) s. s\<lparr>peerUpdated := nset i k now (peerUpdated s)\<rparr>)"

definition ensure_consumed :: "string \<Rightarrow> gossipShard \<Rightarrow> gossipShard" where
  "ensure_consumed i s =
     (let s1 = s\<lparr>peerConsumed := nensure i (peerConsumed s)\<rparr>
      in case map_of (lastConsumed s1) i of
           None \<Rightarrow> s1\<lparr>lastConsumed := AList.update i [] (lastConsumed s1),
                      velocityEMA := AList.update i [] (velocityEMA s1),
                      lastUpdated := AList.update i [] (lastUpdated s1)\<rparr>
         | Some _ \<Rightarrow> s1)"

definition updateShardPeerLocked ::
    "string \<Rightarrow> (string, u64) gomap \<Rightarrow> (string, u64) gomap \<Rightarrow> f64 \<Rightarrow> gtime \<Rightarrow> gossipShard \<Rightarrow> gossipShard" where
  "updateShardPeerLocked i consumed borrowed a now s =
     (let s1 = fold (consume_step i a now) consumed (ensure_consumed i s);
          s2 = fold (borrow_step i) borrowed (s1\<lparr>peerBorrowed := nensure i (peerBorrowed s1)\<rparr>)
      in fold (touch_step i now) borrowed
           (fold (touch_step i now) consumed (s2\<lparr>peerUpdated := nensure i (peerUpdated s2)\<rparr>)))"

definition UpdatePeer ::
    "string \<Rightarrow> (string, u64) gomap \<Rightarrow> (string, u64) gomap \<Rightarrow> gtime \<Rightarrow> Gossiper \<Rightarrow> Gossiper" where
  "UpdatePeer i consumed borrowed now g =
     g\<lparr>g_peers := List.insert i (g_peers g),
       g_shards := fold (\<lambda>(idx, su) S. S[idx :=
           updateShardPeerLocked i (su_consumed su) (su_borrowed su) (g_alpha g) now (S ! idx)])
         (group_updates consumed borrowed) (g_shards g)\<rparr>"

definition remove_peer_shard :: "string \<Rightarrow> gossipShard \<Rightarrow> gossipShard" where
  "remove_peer_shard i s =
     s\<lparr>peerConsumed := AList.delete i (peerConsumed s), peerBorrowed := AList.delete i (peerBorrowed s),
       peerUpdated := AList.delete i (peerUpdated s), lastConsumed := AList.delete i (lastConsumed s),
       velocityEMA := AList.delete i (velocityEMA s), lastUpdated := AList.delete i (lastUpdated s)\<rparr>"

definition gossip_RemovePeer :: "string \<Rightarrow> Gossiper \<Rightarrow> Gossiper" where
  "gossip_RemovePeer i g =
     g\<lparr>g_peers := remove1 i (g_peers g), g_shards := map (remove_peer_shard i) (g_shards g)\<rparr>"

subsection \<open>Ranking\<close>

text \<open>The part of the two loops of \<^verbatim>\<open>TopK\<close> that computes a peer's entry; \<open>None\<close> is \<^verbatim>\<open>continue\<close>.\<close>

definition peer_entry :: "(f64 \<Rightarrow> u64) \<Rightarrow> string \<Rightarrow> gtime \<Rightarrow> gossipShard \<Rightarrow>
    string \<times> (string, u64) gomap \<Rightarrow> PeerEntry option" where
  "peer_entry oor key now shard = (\<lambda>(i, bm).
     let borrowed = get0 bm key in
     if borrowed = 0 then None
     else
       let consumed = (case map_of (peerConsumed shard) i of None \<Rightarrow> 0 | Some cm \<Rightarrow> get0 cm key);
           rawSurplus = (if consumed < borrowed then borrowed - consumed else 0)
       in if rawSurplus = 0 then None
          else
            let lastTime = (case map_of (peerUpdated shard) i of None \<Rightarrow> zero_time
                  | Some um \<Rightarrow> (case map_of um key of None \<Rightarrow> zero_time | Some t \<Rightarrow> t));
                velocity = (case nget (velocityEMA shard) i key of None \<Rightarrow> FFin 0 | Some e \<Rightarrow> e);
                dt0 = Seconds (time_sub now lastTime);
                dt = (if fless dt0 (FFin 0) then FFin 0 else dt0);
                expectedDecay = fmul velocity dt;
                predicted = (if fless (FFin 0) expectedDecay
                  then (if fless expectedDecay (f64_of_u64 rawSurplus)
                        then fsub (f64_of_u64 rawSurplus) expectedDecay else FFin 0)
                  else f64_of_u64 rawSurplus)
            in if fless (FFin 0) predicted
               then Some \<lparr>pe_ID = i, pe_Surplus = u64_of_f64 oor predicted, pe_Consumed = consumed,
                          pe_LastUpdated = lastTime\<rparr>
               else None)"

fun first_smaller :: "nat \<Rightarrow> PeerEntry \<Rightarrow> PeerEntry list \<Rightarrow> nat option" where
  "first_smaller i entry [] = None"
| "first_smaller i entry (t # ts) =
     (if pe_Surplus t < pe_Surplus entry then Some i else first_smaller (Suc i) entry ts)"

definition insert_top :: "nat \<Rightarrow> PeerEntry \<Rightarrow> PeerEntry list \<Rightarrow> PeerEntry list" where
  "insert_top k entry best =
     (let best' = (case first_smaller 0 entry best of
          Some insertIdx \<Rightarrow> take insertIdx best @ entry # drop insertIdx best
        | None \<Rightarrow> if length best < k then best @ [entry] else best)
      in if k < length best' then take k best' else best')"

definition candidates :: "(f64 \<Rightarrow> u64) \<Rightarrow> string \<Rightarrow> gtime \<Rightarrow> gossipShard \<Rightarrow> PeerEntry list" where
  "candidates oor key now shard = List.map_filter (peer_entry oor key now shard) (peerBorrowed shard)"

definition TopK :: "(f64 \<Rightarrow> u64) \<Rightarrow> int \<Rightarrow> string \<Rightarrow> gtime \<Rightarrow> Gossiper \<Rightarrow> PeerEntry list go" where
  "TopK oor k key now g =
     (let shard = g_shards g ! shardIndex key in
      if k \<le> 15 \<and> 0 < k
      then Return (fold (\<lambda>p best. case peer_entry oor key now shard p of
             None \<Rightarrow> best | Some entry \<Rightarrow> insert_top (nat k) entry best) (peerBorrowed shard) [])
      else
        let entries = sort_desc pe_Surplus (candidates oor key now shard)
        in if k < int (length entries)
           then (if k < 0 then Panic ''slice bounds out of range'' else Return (take (nat k) entries))
           else Return entries)"

definition PeerIDs :: "Gossiper \<Rightarrow> string list" where
  "PeerIDs g = g_peers g"

definition evict_key_shard :: "string \<Rightarrow> gossipShard \<Rightarrow> gossipShard" where
  "evict_key_shard key s =
     s\<lparr>peerConsumed := ndel_all key (peerConsumed s), peerBorrowed := ndel_all key (peerBorrowed s),
       peerUpdated := ndel_all key (peerUpdated s), lastConsumed := ndel_all key (lastConsumed s),
       velocityEMA := ndel_all key (velocityEMA s), lastUpdated := ndel_all key (lastUpdated s)\<rparr>"

definition gossip_EvictKeys :: "string list \<Rightarrow> Gossiper \<Rightarrow> Gossiper" where
  "gossip_EvictKeys ks g =
     g\<lparr>g_shards := visit_groups evict_key_shard (group_keys shardIndex shardCount ks) (g_shards g)\<rparr>"

subsection \<open>Cells\<close>

text \<open>
  What the gossiper knows of one key of one peer, and the effect of one update on it: an amount of
  0 withdraws the key, an absent key keeps its state.
\<close>

record peer_cell =
  pc_consumed :: "u64 option"
  pc_borrowed :: "u64 option"
  pc_updated :: "gtime option"
  pc_lastConsumed :: "u64 option"
  pc_velocity :: "f64 option"
  pc_lastUpdated :: "gtime option"

definition no_cell :: peer_cell where
  "no_cell = \<lparr>pc_consumed = None, pc_borrowed = None, pc_updated = None, pc_lastConsumed = None,
     pc_velocity = None, pc_lastUpdated = None\<rparr>"

definition shard_cell :: "gossipShard \<Rightarrow> string \<Rightarrow> string \<Rightarrow> peer_cell" where
  "shard_cell s i k = \<lparr>pc_consumed = nget (peerConsumed s) i k, pc_borrowed = nget (peerBorrowed s) i k,
     pc_updated = nget (peerUpdated s) i k, pc_lastConsumed = nget (lastConsumed s) i k,
     pc_velocity = nget (velocityEMA s) i k, pc_lastUpdated = nget (lastUpdated s) i k\<rparr>"

definition gossip_cell :: "Gossiper \<Rightarrow> string \<Rightarrow> string \<Rightarrow> peer_cell" where
  "gossip_cell g i k = shard_cell (g_shards g ! shardIndex k) i k"

definition cell_velocity :: "f64 \<Rightarrow> gtime \<Rightarrow> u64 \<Rightarrow> peer_cell \<Rightarrow> f64 option" where
  "cell_velocity a now v c = (case (pc_lastUpdated c, pc_lastConsumed c) of
     (Some t, Some l) \<Rightarrow>
       let dt = Seconds (time_sub now t) in
       if fless (FFin 0) dt
       then Some (fadd (fmul a (fdiv (f64_of_u64 (if l \<le> v then v - l else v)) dt))
             (fmul (fsub (FFin 1) a) (case pc_velocity c of None \<Rightarrow> FFin 0 | Some e \<Rightarrow> e)))
       else pc_velocity c
   | _ \<Rightarrow> pc_velocity c)"

definition cell_consume :: "f64 \<Rightarrow> gtime \<Rightarrow> u64 \<Rightarrow> peer_cell \<Rightarrow> peer_cell" where
  "cell_consume a now v c =
     (if v = 0
      then c\<lparr>pc_consumed := None, pc_lastConsumed := None, pc_velocity := None, pc_lastUpdated := None\<rparr>
      else c\<lparr>pc_consumed := Some v, pc_lastConsumed := Some v, pc_velocity := cell_velocity a now v c,
             pc_lastUpdated := Some now\<rparr>)"

definition cell_borrow :: "u64 \<Rightarrow> peer_cell \<Rightarrow> peer_cell" where
  "cell_borrow v c = c\<lparr>pc_borrowed := (if v = 0 then None else Some v)\<rparr>"

definition cell_update :: "f64 \<Rightarrow> gtime \<Rightarrow> u64 option \<Rightarrow> u64 option \<Rightarrow> peer_cell \<Rightarrow> peer_cell" where
  "cell_update a now con bor c =
     (let c1 = (case con of None \<Rightarrow> c | Some v \<Rightarrow> cell_consume a now v c);
          c2 = (case bor of None \<Rightarrow> c1 | Some v \<Rightarrow> cell_borrow v c1)
      in if con = None \<and> bor = None then c2 else c2\<lparr>pc_updated := Some now\<rparr>)"

lemma consume_step_fields:
  fixes i k :: string and s :: gossipShard
  defines "s' a now v \<equiv> consume_step i a now (k, v) s"
  shows "v \<noteq> 0 \<Longrightarrow> peerConsumed (s' a now v) = nset i k v (peerConsumed s)"
    "v \<noteq> 0 \<Longrightarrow> lastConsumed (s' a now v) = nset i k v (lastConsumed s)"
    "v \<noteq> 0 \<Longrightarrow> lastUpdated (s' a now v) = nset i k now (lastUpdated s)"
    "v \<noteq> 0 \<Longrightarrow> nget (velocityEMA (s' a now v)) i' k' = (if i = i' \<and> k = k'
        then cell_velocity a now v (shard_cell s i k) else nget (velocityEMA s) i' k')"
    "peerBorrowed (s' a now v) = peerBorrowed s" "peerUpdated (s' a now v) = peerUpdated s"
  unfolding s'_def consume_step_def cell_velocity_def shard_cell_def
  by (simp_all add: Let_def split: option.split)

lemma shard_cell_consume_step:
  "shard_cell (consume_step i a now (k, v) s) i' k'
   = (if k = k' then (if i = i' then cell_consume a now v (shard_cell s i' k') else shard_cell s i' k')
      else shard_cell s i' k')"
proof (cases "v = 0")
  case True
  then show ?thesis by (simp add: consume_step_def shard_cell_def cell_consume_def)
next
  case False
  then show ?thesis
    by (subst (1) shard_cell_def) (simp add: consume_step_fields, simp add: shard_cell_def cell_consume_def)
qed

lemma shard_cell_borrow_step:
  "shard_cell (borrow_step i (k, v) s) i' k'
   = (if k = k' then (if i = i' then cell_borrow v (shard_cell s i' k') else shard_cell s i' k')
      else shard_cell s i' k')"
  by (auto simp: borrow_step_def shard_cell_def cell_borrow_def)

lemma shard_cell_touch_step:
  "shard_cell (touch_step i now (k, v) s) i' k'
   = (if k = k' then (if i = i' then (shard_cell s i' k')\<lparr>pc_updated := Some now\<rparr> else shard_cell s i' k')
      else shard_cell s i' k')"
  by (auto simp: touch_step_def shard_cell_def)

lemma nget_fresh [simp]: "map_of m i = None \<Longrightarrow> nget (AList.update i [] m) i' k = nget m i' k"
  by (auto simp: nget_def inner_def update_conv')

text \<open>
  The invariant of a shard: the outer maps are maps and the three velocity maps know the same
  peers, so no assignment through them meets a nil map.
\<close>

definition gshard_ok :: "gossipShard \<Rightarrow> bool" where
  "gshard_ok s \<longleftrightarrow> gomap_ok (peerConsumed s) \<and> gomap_ok (peerBorrowed s) \<and> gomap_ok (peerUpdated s) \<and>
     gomap_ok (lastConsumed s) \<and> gomap_ok (velocityEMA s) \<and> gomap_ok (lastUpdated s) \<and>
     fst ` set (velocityEMA s) = fst ` set (lastConsumed s) \<and>
     fst ` set (lastUpdated s) = fst ` set (lastConsumed s)"

definition gshard_at :: "string \<Rightarrow> gossipShard \<Rightarrow> bool" where
  "gshard_at i s \<longleftrightarrow> gshard_ok s \<and> i \<in> fst ` set (lastConsumed s)"

lemma gshard_at_ensure: "gshard_ok s \<Longrightarrow> gshard_at i (ensure_consumed i s)"
proof (cases "map_of (lastConsumed s) i")
  case (Some m)
  moreover assume "gshard_ok s"
  ultimately show ?thesis
    by (force simp: gshard_ok_def gshard_at_def ensure_consumed_def Let_def dest: map_of_SomeD)
qed (simp add: gshard_ok_def gshard_at_def ensure_consumed_def Let_def dom_update)

lemma gshard_at_consume_step: "gshard_at i s \<Longrightarrow> gshard_at i (consume_step i a now x s)"
  unfolding consume_step_def gshard_at_def gshard_ok_def
  by (cases x) (simp add: Let_def insert_absorb split: option.split)

lemma gshard_at_steps:
  "gshard_at i s \<Longrightarrow> gshard_at i (borrow_step i x s)" "gshard_at i s \<Longrightarrow> gshard_at i (touch_step i now x s)"
  "gshard_at i s \<Longrightarrow> gshard_at i (s\<lparr>peerBorrowed := nensure i (peerBorrowed s)\<rparr>)"
  "gshard_at i s \<Longrightarrow> gshard_at i (s\<lparr>peerUpdated := nensure i (peerUpdated s)\<rparr>)"
  by (cases x; simp add: gshard_at_def gshard_ok_def borrow_step_def touch_step_def)+

lemma fold_inv: "P s \<Longrightarrow> (\<And>x s. P s \<Longrightarrow> P (f x s)) \<Longrightarrow> P (fold f xs s)"
  by (induction xs arbitrary: s) auto

lemma gshard_at_update: "gshard_ok s \<Longrightarrow> gshard_at i (updateShardPeerLocked i C B a now s)"
  unfolding updateShardPeerLocked_def Let_def
  by (intro fold_inv [where P = "gshard_at i"] gshard_at_steps gshard_at_consume_step gshard_at_ensure)

lemma shard_cell_ensure_consumed:
  assumes "gshard_ok s"
  shows "shard_cell (ensure_consumed i s) i' k = shard_cell s i' k"
proof (cases "map_of (lastConsumed s) i")
  case None
  then have "map_of (velocityEMA s) i = None" "map_of (lastUpdated s) i = None"
    using assms by (simp_all add: gshard_ok_def map_of_eq_None_iff)
  with None show ?thesis by (simp add: shard_cell_def ensure_consumed_def Let_def)
qed (simp add: shard_cell_def ensure_consumed_def Let_def)

lemma shard_cell_ensure [simp]:
  "shard_cell (s\<lparr>peerBorrowed := nensure i (peerBorrowed s)\<rparr>) i' k = shard_cell s i' k"
  "shard_cell (s\<lparr>peerUpdated := nensure i (peerUpdated s)\<rparr>) i' k = shard_cell s i' k"
  by (simp_all add: shard_cell_def)

lemma shard_cell_update:
  assumes "gomap_ok C" "gomap_ok B" "gshard_ok s"
  shows "shard_cell (updateShardPeerLocked i C B a now s) i' k
   = (if i = i' then cell_update a now (map_of C k) (map_of B k) (shard_cell s i' k) else shard_cell s i' k)"
proof -
  note kw = fold_keywise [where obs = "\<lambda>s k. shard_cell s i' k", OF assms(1)]
    fold_keywise [where obs = "\<lambda>s k. shard_cell s i' k", OF assms(2)]
  note steps = kw(1) [of "consume_step i a now", OF shard_cell_consume_step]
    kw(2) [of "borrow_step i", OF shard_cell_borrow_step]
    kw(1) [of "touch_step i now", OF shard_cell_touch_step]
    kw(2) [of "touch_step i now", OF shard_cell_touch_step]
  show ?thesis
    unfolding updateShardPeerLocked_def Let_def steps shard_cell_ensure shard_cell_ensure_consumed [OF assms(3)]
    by (auto simp: cell_update_def Let_def split: option.split)
qed

text \<open>Grouping by shard loses and adds no amount.\<close>

definition su_at :: "(nat, shardKeys) gomap \<Rightarrow> nat \<Rightarrow> shardKeys" where
  "su_at updates idx = (case map_of updates idx of None \<Rightarrow> \<lparr>su_consumed = [], su_borrowed = []\<rparr> | Some su \<Rightarrow> su)"

lemma su_at_with_update: "su_at (with_update j f u) idx = (if j = idx then f (su_at u idx) else su_at u idx)"
  by (auto simp: su_at_def with_update_def update_conv')

definition updates_ok :: "(nat, shardKeys) gomap \<Rightarrow> bool" where
  "updates_ok u \<longleftrightarrow> gomap_ok u \<and> (\<forall>(idx, su) \<in> set u. idx < shardCount \<and> gomap_ok (su_consumed su) \<and> gomap_ok (su_borrowed su))"

lemma updates_ok_with_update:
  assumes "updates_ok u" "j < shardCount"
    and "\<And>su. gomap_ok (su_consumed su) \<Longrightarrow> gomap_ok (su_consumed (f su))"
    and "\<And>su. gomap_ok (su_borrowed su) \<Longrightarrow> gomap_ok (su_borrowed (f su))"
  shows "updates_ok (with_update j f u)"
proof -
  have "gomap_ok (su_consumed (su_at u j)) \<and> gomap_ok (su_borrowed (su_at u j))"
    using assms(1) by (auto simp: su_at_def updates_ok_def split: option.splits dest!: map_of_SomeD)
  moreover have "with_update j f u = AList.update j (f (su_at u j)) u"
    by (simp add: with_update_def su_at_def)
  ultimately show ?thesis
    using assms set_update_subset [of j "f (su_at u j)" u] unfolding updates_ok_def by auto
qed

lemma updates_ok_group: "updates_ok (group_updates C B)"
  unfolding group_updates_def
  by (intro fold_inv [where P = updates_ok]) (auto simp: updates_ok_def [of "[]"] intro!: updates_ok_with_update shardIndex_less)

lemma group_updates_lookup:
  assumes "gomap_ok C" "gomap_ok B"
  shows "map_of (su_consumed (su_at (group_updates C B) (shardIndex k))) k = map_of C k"
    "map_of (su_borrowed (su_at (group_updates C B) (shardIndex k))) k = map_of B k"
proof -
  let ?oc = "\<lambda>u k. map_of (su_consumed (su_at u (shardIndex k))) k"
  let ?ob = "\<lambda>u k. map_of (su_borrowed (su_at u (shardIndex k))) k"
  let ?fc = "\<lambda>(k, v). with_update (shardIndex k) (su_consumed_update (AList.update k v))"
  let ?fb = "\<lambda>(k, v). with_update (shardIndex k) (su_borrowed_update (AList.update k v))"
  have c: "?oc (?fc (k, v) u) k' = (if k = k' then Some v else ?oc u k')"
    "?ob (?fb (k, v) u) k' = (if k = k' then Some v else ?ob u k')"
    "?oc (?fb (k, v) u) k' = ?oc u k'" "?ob (?fc (k, v) u) k' = ?ob u k'" for k v u k'
    by (auto simp: su_at_with_update update_conv')
  have keep: "?oc (fold ?fb B u) k = ?oc u k" "?ob (fold ?fc C u) k = ?ob u k" for u
  proof -
    show "?oc (fold ?fb B u) k = ?oc u k" using c(3) by (induction B arbitrary: u) auto
    show "?ob (fold ?fc C u) k = ?ob u k" using c(4) by (induction C arbitrary: u) auto
  qed
  have none: "?oc [] k = None" "?ob [] k = None" by (simp_all add: su_at_def)
  show "?oc (group_updates C B) k = map_of C k"
    unfolding group_updates_def keep
    by (subst fold_keywise [where obs = ?oc and f = "\<lambda>v _. Some v", OF assms(1) c(1)])
       (simp add: none split: option.split)
  show "?ob (group_updates C B) k = map_of B k"
    unfolding group_updates_def
    by (subst fold_keywise [where obs = ?ob and f = "\<lambda>v _. Some v", OF assms(2) c(2)])
       (simp add: keep none split: option.split)
qed

lemma fold_list_update_nth:
  assumes "gomap_ok xs" "\<forall>(i, v) \<in> set xs. i < length S"
  shows "fold (\<lambda>(i, v) S. S[i := f v (S ! i)]) xs S ! j
     = (case map_of xs j of None \<Rightarrow> S ! j | Some v \<Rightarrow> f v (S ! j))"
    and "length (fold (\<lambda>(i, v) S. S[i := f v (S ! i)]) xs S) = length S"
proof -
  show "length (fold (\<lambda>(i, v) S. S[i := f v (S ! i)]) xs S) = length S"
    by (induction xs arbitrary: S) auto
  show "fold (\<lambda>(i, v) S. S[i := f v (S ! i)]) xs S ! j
     = (case map_of xs j of None \<Rightarrow> S ! j | Some v \<Rightarrow> f v (S ! j))"
    using assms
  proof (induction xs arbitrary: S)
    case (Cons x xs)
    obtain i v where x: "x = (i, v)" by (cases x)
    have "map_of xs i = None" using Cons.prems(1) x by (auto simp: map_of_eq_None_iff)
    with Cons x show ?case by (auto simp: nth_list_update split: option.split)
  qed simp
qed

definition gossip_ok :: "Gossiper \<Rightarrow> bool" where
  "gossip_ok g \<longleftrightarrow> length (g_shards g) = shardCount \<and> (\<forall>s \<in> set (g_shards g). gshard_ok s) \<and> distinct (g_peers g)"

lemma gossip_okD:
  assumes "gossip_ok g"
  shows "length (g_shards g) = shardCount" "gshard_ok (g_shards g ! shardIndex k)" "distinct (g_peers g)"
  using assms shardIndex_less [of k] by (auto simp: gossip_ok_def)

lemma UpdatePeer_shard:
  assumes "gossip_ok g" "j < shardCount"
  shows "g_shards (UpdatePeer i C B now g) ! j = (case map_of (group_updates C B) j of
      None \<Rightarrow> g_shards g ! j
    | Some su \<Rightarrow> updateShardPeerLocked i (su_consumed su) (su_borrowed su) (g_alpha g) now (g_shards g ! j))"
    "length (g_shards (UpdatePeer i C B now g)) = shardCount"
  using fold_list_update_nth [of "group_updates C B" "g_shards g"
      "\<lambda>su. updateShardPeerLocked i (su_consumed su) (su_borrowed su) (g_alpha g) now"]
    updates_ok_group [of C B] gossip_okD(1) [OF assms(1)] assms(2)
  by (auto simp: UpdatePeer_def updates_ok_def)

lemma gossip_cell_UpdatePeer:
  assumes "gossip_ok g" "gomap_ok C" "gomap_ok B"
  shows "gossip_cell (UpdatePeer i C B now g) i' k
   = (if i = i' then cell_update (g_alpha g) now (map_of C k) (map_of B k) (gossip_cell g i' k) else gossip_cell g i' k)"
proof (cases "map_of (group_updates C B) (shardIndex k)")
  case None
  then have "map_of C k = None" "map_of B k = None"
    using group_updates_lookup [OF assms(2,3), of k] by (simp_all add: su_at_def)
  then show ?thesis
    using UpdatePeer_shard(1) [OF assms(1) shardIndex_less, of i C B now k] None
    by (simp add: gossip_cell_def cell_update_def)
next
  case (Some su)
  have "gomap_ok (su_consumed su)" "gomap_ok (su_borrowed su)"
    using updates_ok_group [of C B] map_of_SomeD [OF Some] by (auto simp: updates_ok_def)
  then show ?thesis
    using UpdatePeer_shard(1) [OF assms(1) shardIndex_less, of i C B now k] Some
      group_updates_lookup [OF assms(2,3), of k] gossip_okD(2) [OF assms(1)]
    by (simp add: gossip_cell_def shard_cell_update su_at_def)
qed

lemma gossip_ok_NewGossiper [simp]: "gossip_ok NewGossiper"
  by (simp add: gossip_ok_def NewGossiper_def gshard_ok_def empty_gossipShard_def)

lemma gossip_ok_UpdatePeer:
  assumes "gossip_ok g"
  shows "gossip_ok (UpdatePeer i C B now g)"
proof -
  have "gshard_ok (g_shards (UpdatePeer i C B now g) ! j)" if "j < shardCount" for j
    using UpdatePeer_shard(1) [OF assms that, of i C B now] gshard_at_update assms that
    by (auto simp: gossip_ok_def gshard_at_def split: option.split)
  then show ?thesis
    using UpdatePeer_shard(2) [OF assms shardIndex_less [of "[]"], of i C B now] gossip_okD(3) [OF assms]
    by (auto simp: gossip_ok_def all_set_conv_all_nth UpdatePeer_def)
qed

lemma gshard_ok_evict: "gshard_ok s \<Longrightarrow> gshard_ok (evict_key_shard k s)"
  by (simp add: gshard_ok_def evict_key_shard_def)

lemma gshard_ok_remove: "gshard_ok s \<Longrightarrow> gshard_ok (remove_peer_shard i s)"
  by (simp add: gshard_ok_def remove_peer_shard_def)

lemma gossip_ok_EvictKeys:
  assumes "gossip_ok g"
  shows "gossip_ok (gossip_EvictKeys ks g)"
proof -
  have len: "length (g_shards (gossip_EvictKeys ks g)) = shardCount"
    using gossip_okD(1) [OF assms] by (simp add: gossip_EvictKeys_def fnv.length_visit_groups)
  have "gshard_ok (g_shards (gossip_EvictKeys ks g) ! j)" if "j < shardCount" for j
    using fnv.visit_groups_nth [of "g_shards g" j evict_key_shard ks] that assms
    by (auto simp: gossip_ok_def gossip_EvictKeys_def intro!: fold_inv [where P = gshard_ok] gshard_ok_evict)
  with len show ?thesis
    using gossip_okD(3) [OF assms] by (auto simp: gossip_ok_def all_set_conv_all_nth gossip_EvictKeys_def)
qed

lemma gossip_ok_RemovePeer: "gossip_ok g \<Longrightarrow> gossip_ok (gossip_RemovePeer i g)"
  by (auto simp: gossip_ok_def gossip_RemovePeer_def intro: gshard_ok_remove)

interpretation gossip_store: shard_store shardIndex shardCount evict_key_shard "\<lambda>s k i. shard_cell s i k" "\<lambda>i. no_cell"
  by unfold_locales (auto simp: shard_cell_def evict_key_shard_def no_cell_def)

lemma gossip_cell_EvictKeys:
  assumes "gossip_ok g"
  shows "gossip_cell (gossip_EvictKeys ks g) i k = (if k \<in> set ks then no_cell else gossip_cell g i k)"
  using fun_cong [OF gossip_store.lookup_evict [OF gossip_okD(1) [OF assms], of ks k]]
  by (simp add: gossip_store.lookup_def gossip_cell_def gossip_EvictKeys_def)

lemma gossip_cell_RemovePeer:
  assumes "gossip_ok g"
  shows "gossip_cell (gossip_RemovePeer i g) i' k = (if i = i' then no_cell else gossip_cell g i' k)"
  using shardIndex_less [of k] gossip_okD(1) [OF assms]
  by (auto simp: gossip_cell_def gossip_RemovePeer_def shard_cell_def remove_peer_shard_def no_cell_def)

text \<open>
  C21. The gossiper refines a table of (peer, key) cells. An update from a peer changes exactly the
  cells of that peer whose keys it names, each by the cell function (amount 0 withdraws, another
  amount replaces and feeds the velocity), whatever the shards and the iteration orders; removing
  a peer clears exactly its cells; evicting keys clears exactly those keys of every peer. All
  three keep the invariant.
\<close>
theorem gossip_refines_cells:
  assumes "gossip_ok g" "gomap_ok C" "gomap_ok B"
  shows "gossip_ok (UpdatePeer i C B now g) \<and> gossip_ok (gossip_RemovePeer i g) \<and> gossip_ok (gossip_EvictKeys ks g) \<and>
    gossip_cell (UpdatePeer i C B now g) i' k =
      (if i = i' then cell_update (g_alpha g) now (map_of C k) (map_of B k) (gossip_cell g i' k)
       else gossip_cell g i' k) \<and>
    gossip_cell (gossip_RemovePeer i g) i' k = (if i = i' then no_cell else gossip_cell g i' k) \<and>
    gossip_cell (gossip_EvictKeys ks g) i' k = (if k \<in> set ks then no_cell else gossip_cell g i' k) \<and>
    set (PeerIDs (UpdatePeer i C B now g)) = insert i (set (PeerIDs g)) \<and>
    set (PeerIDs (gossip_RemovePeer i g)) = set (PeerIDs g) - {i}"
  using assms gossip_okD(3) [OF assms(1)]
  by (simp add: gossip_ok_UpdatePeer gossip_ok_RemovePeer gossip_ok_EvictKeys gossip_cell_UpdatePeer
      gossip_cell_RemovePeer gossip_cell_EvictKeys)
     (auto simp: PeerIDs_def UpdatePeer_def gossip_RemovePeer_def)

theorem gossip_refines_cells_witness:
  "pc_borrowed (gossip_cell (UpdatePeer ''p'' [(''k'', 2)] [(''k'', 9)] 0 NewGossiper) ''p'' ''k'') = Some 9"
  using gossip_refines_cells [of NewGossiper "[(''k'', 2)]" "[(''k'', 9)]" "''p''" 0 "[]" "''p''" "''k''"]
  by (simp add: cell_update_def cell_borrow_def)

subsection \<open>TopK\<close>

definition insert_desc :: "PeerEntry \<Rightarrow> PeerEntry list \<Rightarrow> PeerEntry list" where
  "insert_desc e ts = takeWhile (\<lambda>t. pe_Surplus e \<le> pe_Surplus t) ts @ e #
     dropWhile (\<lambda>t. pe_Surplus e \<le> pe_Surplus t) ts"

lemma first_smaller_split:
  "first_smaller i e ts = (let n = length (takeWhile (\<lambda>t. pe_Surplus e \<le> pe_Surplus t) ts)
     in if n < length ts then Some (i + n) else None)"
  by (induction ts arbitrary: i) (auto simp: Let_def not_less)

lemma insert_top_desc:
  assumes "0 < k" "length ts \<le> k"
  shows "insert_top k e ts = take k (insert_desc e ts)"
proof -
  let ?P = "\<lambda>t. pe_Surplus e \<le> pe_Surplus t"
  define n where "n = length (takeWhile ?P ts)"
  have "insert_desc e ts = take n ts @ e # drop n ts"
    unfolding insert_desc_def n_def by (metis takeWhile_eq_take dropWhile_eq_drop)
  moreover have "first_smaller 0 e ts = (if n < length ts then Some n else None)"
    by (simp add: first_smaller_split n_def)
  ultimately show ?thesis using assms by (auto simp: insert_top_def)
qed

lemma take_insert_desc: "take k (insert_desc e (take k ts)) = take k (insert_desc e ts)"
proof (induction ts arbitrary: k)
  case (Cons t ts)
  show ?case
  proof (cases k)
    case (Suc n)
    have "take n (t # take n ts) = take n (t # ts)" by (cases n) (auto simp: min_def)
    moreover have "take k (insert_desc e (take k (t # ts))) = take k (insert_desc e (t # ts))"
      if "pe_Surplus e \<le> pe_Surplus t"
      using Cons.IH [of n] that by (simp add: insert_desc_def Suc)
    ultimately show ?thesis by (cases "pe_Surplus e \<le> pe_Surplus t") (auto simp: insert_desc_def Suc)
  qed simp
qed simp

lemma insert_desc_below:
  "desc pe_Surplus ts \<Longrightarrow> x \<in> set (dropWhile (\<lambda>t. pe_Surplus e \<le> pe_Surplus t) ts) \<Longrightarrow> pe_Surplus x < pe_Surplus e"
  by (induction ts) (auto split: if_splits simp: not_le intro: le_less_trans)

lemma desc_insert_desc: "desc pe_Surplus ts \<Longrightarrow> desc pe_Surplus (insert_desc e ts)"
proof (induction ts)
  case (Cons t ts)
  then show ?case
    by (cases "pe_Surplus e \<le> pe_Surplus t")
       (auto simp: insert_desc_def not_le dest: set_takeWhileD set_dropWhileD)
qed (simp add: insert_desc_def)

lemma set_insert_desc [simp]: "set (insert_desc e ts) = insert e (set ts)"
  unfolding insert_desc_def
  by (metis Un_insert_right list.simps(15) set_append takeWhile_dropWhile_id)

lemma sort_desc_snoc: "sort_desc pe_Surplus (xs @ [e]) = insert_desc e (sort_desc pe_Surplus xs)"
proof -
  let ?s = "sort_desc pe_Surplus xs" and ?f = "\<lambda>x. - uint (pe_Surplus x)"
  let ?P = "\<lambda>t. pe_Surplus e \<le> pe_Surplus t"
  have s: "takeWhile ?P ?s @ dropWhile ?P ?s = ?s" by (rule takeWhile_dropWhile_id)
  have stable: "filter (\<lambda>x. ?f y = ?f x) ?s = filter (\<lambda>x. ?f y = ?f x) xs" for y :: PeerEntry
    unfolding sort_desc_def using sort_key_stable [of ?f "?f y" xs] by (simp add: eq_commute)
  have flt: "filter (\<lambda>x. ?f y = ?f x) (insert_desc e ?s) = filter (\<lambda>x. ?f y = ?f x) (xs @ [e])" for y :: PeerEntry
  proof (cases "?f y = ?f e")
    case True
    have "pe_Surplus x < pe_Surplus y" if "x \<in> set (dropWhile ?P ?s)" for x
      using insert_desc_below [OF desc_sort_desc that] True by (simp add: word_less_def)
    then have no: "filter (\<lambda>x. ?f y = ?f x) (dropWhile ?P ?s) = []"
      by (force simp: filter_empty_conv word_less_def)
    have "filter (\<lambda>x. ?f y = ?f x) ?s = filter (\<lambda>x. ?f y = ?f x) (takeWhile ?P ?s)"
      by (subst s [symmetric], subst filter_append) (simp only: no append_Nil2)
    then show ?thesis using True no stable by (simp add: insert_desc_def)
  next
    case False
    have "filter (\<lambda>x. ?f y = ?f x) (insert_desc e ?s) = filter (\<lambda>x. ?f y = ?f x) (takeWhile ?P ?s @ dropWhile ?P ?s)"
      using False by (simp add: insert_desc_def del: takeWhile_dropWhile_id)
    then show ?thesis using False stable by (simp only: s) simp
  qed
  have "mset (insert_desc e ?s) = mset (takeWhile ?P ?s @ dropWhile ?P ?s) + {#e#}"
    by (simp add: insert_desc_def del: takeWhile_dropWhile_id)
  then have "mset (insert_desc e ?s) = mset (xs @ [e])" by (simp only: s mset_sort_desc) simp
  moreover have "sorted (map ?f (insert_desc e ?s))"
    using desc_insert_desc [OF desc_sort_desc] by (simp add: sorted_map word_le_def)
  ultimately have "sort_key ?f (xs @ [e]) = insert_desc e ?s"
    using flt by (intro properties_for_sort_key)
  then show ?thesis by (simp only: sort_desc_def)
qed

lemma fold_insert_top:
  assumes "0 < k"
  shows "fold (\<lambda>p best. case f p of None \<Rightarrow> best | Some entry \<Rightarrow> insert_top k entry best) ps []
    = take k (sort_desc pe_Surplus (List.map_filter f ps))"
proof (induction ps rule: rev_induct)
  case Nil
  then show ?case by (simp add: sort_desc_def)
next
  case (snoc p ps)
  then show ?case
    using assms
    by (cases "f p") (simp_all add: map_filter_def insert_top_desc take_insert_desc sort_desc_snoc)
qed

lemma TopK_eq_sort:
  "TopK oor k key now g =
     (if 0 \<le> k then Return (take (nat k) (sort_desc pe_Surplus (candidates oor key now (g_shards g ! shardIndex key))))
      else Panic ''slice bounds out of range'')"
  by (auto simp: TopK_def Let_def fold_insert_top candidates_def)

text \<open>
  C22. \<^verbatim>\<open>TopK\<close>: the bounded insertion used for \<open>k\<close> from 1 to 15 computes exactly what the sorting path
  computes, entry by entry, so for every \<open>k \<ge> 0\<close> the result is the first \<open>k\<close> candidates in
  descending order of predicted surplus (equal surpluses in iteration order). A negative \<open>k\<close> panics.
\<close>
theorem TopK_equals_sort:
  "TopK oor k key now g =
     (if 0 \<le> k then Return (take (nat k) (sort_desc pe_Surplus (candidates oor key now (g_shards g ! shardIndex key))))
      else Panic ''slice bounds out of range'')"
  by (rule TopK_eq_sort)

text \<open>Predicting never raises the surplus, whatever the velocity and the clock.\<close>

lemma predicted_fin:
  assumes "uint r \<le> 2 ^ 53"
  shows "\<exists>a. (if fless (FFin 0) decay
      then (if fless decay (f64_of_u64 r) then fsub (f64_of_u64 r) decay else FFin 0) else f64_of_u64 r) = FFin a \<and>
    0 \<le> a \<and> a \<le> of_int (uint r)"
proof -
  define m where "m = uint r"
  have m: "0 \<le> m" "m \<le> 2 ^ 53" using assms by (auto simp: m_def)
  have r: "f64_of_u64 r = FFin (of_int m)" unfolding m_def using assms by (rule f64_of_u64_exact)
  show ?thesis
    unfolding m_def [symmetric] r
  proof (cases decay)
    case (FFin d)
    have "\<exists>a. rnd (of_int m - d) = FFin a \<and> 0 \<le> a \<and> a \<le> of_int m" if "0 < d" "d < of_int m"
      using that m by (intro rnd_le_int) auto
    then show "\<exists>a. (if fless (FFin 0) decay then (if fless decay (FFin (of_int m))
        then fsub (FFin (of_int m)) decay else FFin 0) else FFin (of_int m)) = FFin a \<and> 0 \<le> a \<and> a \<le> of_int m"
      using FFin m(1) by (auto simp: fsub_def)
  qed (use m(1) in auto)
qed

lemma predicted_le:
  assumes "uint r \<le> 2 ^ 53"
  shows "uint (u64_of_f64 oor (if fless (FFin 0) decay
      then (if fless decay (f64_of_u64 r) then fsub (f64_of_u64 r) decay else FFin 0) else f64_of_u64 r)) \<le> uint r"
proof -
  obtain a where a: "(if fless (FFin 0) decay
      then (if fless decay (f64_of_u64 r) then fsub (f64_of_u64 r) decay else FFin 0) else f64_of_u64 r) = FFin a"
    "0 \<le> a" "a \<le> of_int (uint r)"
    using predicted_fin [OF assms] by blast
  have "uint r < 2 ^ 64" using assms by simp
  then show ?thesis unfolding a(1) using a(2,3) by (intro u64_of_f64_le)
qed

lemma peer_entry_SomeD:
  assumes "peer_entry oor key now shard (i, bm) = Some e" "gomap_ok (peerBorrowed shard)"
    "(i, bm) \<in> set (peerBorrowed shard)"
  shows "pe_ID e = i" "pc_borrowed (shard_cell shard i key) = Some b \<Longrightarrow> uint b \<le> 2 ^ 53 \<Longrightarrow>
      uint (pe_Surplus e) \<le> uint b - uint (pe_Consumed e)"
    "\<exists>b. pc_borrowed (shard_cell shard i key) = Some b \<and> pe_Consumed e < b"
    "pe_Consumed e = (case pc_consumed (shard_cell shard i key) of None \<Rightarrow> 0 | Some c \<Rightarrow> c)"
proof -
  define con where "con = (case pc_consumed (shard_cell shard i key) of None \<Rightarrow> 0 | Some c \<Rightarrow> c)"
  have con: "(case map_of (peerConsumed shard) i of None \<Rightarrow> 0 | Some cm \<Rightarrow> get0 cm key) = con"
    by (auto simp: con_def shard_cell_def nget_def inner_def get0_def split: option.split)
  have bm: "map_of bm key = pc_borrowed (shard_cell shard i key)"
    using assms(2,3) by (simp add: shard_cell_def nget_def inner_def)
  define bor where "bor = get0 bm key"
  have nz: "con < bor" "bor \<noteq> 0"
    using assms(1) by (auto simp: peer_entry_def con bor_def Let_def split: if_splits)
  have e: "pe_ID e = i" "pe_Consumed e = con"
    "\<exists>decay. pe_Surplus e = u64_of_f64 oor (if fless (FFin 0) decay
      then (if fless decay (f64_of_u64 (bor - con)) then fsub (f64_of_u64 (bor - con)) decay else FFin 0)
      else f64_of_u64 (bor - con))"
    using assms(1) nz by (auto simp: peer_entry_def con bor_def [symmetric] Let_def split: if_splits)
  have b: "pc_borrowed (shard_cell shard i key) = Some bor"
    using nz(2) bm by (auto simp: bor_def get0_def split: option.splits)
  show "pe_ID e = i" "\<exists>b. pc_borrowed (shard_cell shard i key) = Some b \<and> pe_Consumed e < b"
    using e b nz by auto
  show "pe_Consumed e = (case pc_consumed (shard_cell shard i key) of None \<Rightarrow> 0 | Some c \<Rightarrow> c)"
    using e by (simp add: con_def)
  have sub: "uint (bor - con) = uint bor - uint con"
    using nz(1) by (intro uint_minus_simple_alt [THEN iffD1]) simp
  show "uint (pe_Surplus e) \<le> uint b - uint (pe_Consumed e)"
    if "pc_borrowed (shard_cell shard i key) = Some b" "uint b \<le> 2 ^ 53"
  proof -
    have "b = bor" using that(1) b by simp
    then have small: "uint (bor - con) \<le> 2 ^ 53"
      using that(2) sub uint_ge_0 [of con] unfolding \<open>b = bor\<close> by linarith
    obtain decay where "pe_Surplus e = u64_of_f64 oor (if fless (FFin 0) decay
      then (if fless decay (f64_of_u64 (bor - con)) then fsub (f64_of_u64 (bor - con)) decay else FFin 0)
      else f64_of_u64 (bor - con))"
      using e(3) by blast
    then have "uint (pe_Surplus e) \<le> uint (bor - con)"
      using predicted_le [OF small, of oor decay] by (simp only:)
    then show ?thesis using sub \<open>b = bor\<close> e(2) by simp
  qed
qed

lemma TopK_entries:
  assumes "gossip_ok g" "TopK oor k key now g = Return es"
  shows "int (length es) \<le> k \<and> distinct (map pe_ID es) \<and> desc pe_Surplus es \<and>
    (\<forall>e \<in> set es. \<exists>b. pc_borrowed (gossip_cell g (pe_ID e) key) = Some b \<and>
       pe_Consumed e = (case pc_consumed (gossip_cell g (pe_ID e) key) of None \<Rightarrow> 0 | Some c \<Rightarrow> c) \<and>
       pe_Consumed e < b \<and>
       (uint b \<le> 2 ^ 53 \<longrightarrow> uint (pe_Surplus e) \<le> uint b - uint (pe_Consumed e)))"
proof -
  let ?sh = "g_shards g ! shardIndex key"
  let ?cs = "candidates oor key now ?sh"
  have k: "0 \<le> k" and es: "es = take (nat k) (sort_desc pe_Surplus ?cs)"
    using assms(2) by (auto simp: TopK_eq_sort split: if_splits)
  have ok: "gomap_ok (peerBorrowed ?sh)"
    using gossip_okD(2) [OF assms(1)] by (simp add: gshard_ok_def)
  have ids: "map pe_ID ?cs = map fst (filter (\<lambda>p. peer_entry oor key now ?sh p \<noteq> None) (peerBorrowed ?sh))"
    using peer_entry_SomeD(1) [OF _ ok]
    by (auto simp: candidates_def map_filter_def comp_def intro!: map_cong)
  have "distinct (map pe_ID ?cs)"
    unfolding ids using ok by (rule distinct_map_filter)
  then have "distinct (map pe_ID (sort_desc pe_Surplus ?cs))"
    by (metis mset_sort_desc mset_map mset_eq_imp_distinct_iff)
  then have "distinct (map pe_ID es)"
    unfolding es by (simp add: take_map [symmetric])
  moreover have "desc pe_Surplus es" unfolding es by (intro sorted_wrt_take desc_sort_desc)
  moreover have "int (length es) \<le> k" using k by (simp add: es)
  moreover have "\<exists>b. pc_borrowed (gossip_cell g (pe_ID e) key) = Some b \<and>
       pe_Consumed e = (case pc_consumed (gossip_cell g (pe_ID e) key) of None \<Rightarrow> 0 | Some c \<Rightarrow> c) \<and>
       pe_Consumed e < b \<and> (uint b \<le> 2 ^ 53 \<longrightarrow> uint (pe_Surplus e) \<le> uint b - uint (pe_Consumed e))"
    if "e \<in> set es" for e
  proof -
    have "e \<in> set ?cs" using that set_take_subset unfolding es by fastforce
    then obtain i bm where p: "(i, bm) \<in> set (peerBorrowed ?sh)" "peer_entry oor key now ?sh (i, bm) = Some e"
      by (force simp: candidates_def map_filter_def)
    show ?thesis
      using peer_entry_SomeD [OF p(2) ok p(1)] by (auto simp: gossip_cell_def)
  qed
  ultimately show ?thesis by blast
qed

text \<open>
  The peers \<^verbatim>\<open>TopK\<close> returns: at most \<open>k\<close>, no peer twice, in descending order of surplus; each has
  borrowed more of the key than it has consumed as far as this instance knows, carries its known
  consumption, and (for amounts up to \<open>2^53\<close>, exact in \<^verbatim>\<open>float64\<close>) a predicted surplus no larger
  than borrowed minus consumed, whatever the smoothed velocity and the clock.
\<close>
theorem TopK_sound:
  assumes "gossip_ok g" "TopK oor k key now g = Return es"
  shows "int (length es) \<le> k \<and> distinct (map pe_ID es) \<and> desc pe_Surplus es \<and>
    (\<forall>e \<in> set es. \<exists>b. pc_borrowed (gossip_cell g (pe_ID e) key) = Some b \<and>
       pe_Consumed e = (case pc_consumed (gossip_cell g (pe_ID e) key) of None \<Rightarrow> 0 | Some c \<Rightarrow> c) \<and>
       pe_Consumed e < b \<and>
       (uint b \<le> 2 ^ 53 \<longrightarrow> uint (pe_Surplus e) \<le> uint b - uint (pe_Consumed e)))"
  using assms by (rule TopK_entries)

theorem TopK_sound_witness:
  "\<exists>es. TopK (\<lambda>_. 0) 3 ''k'' 0 (UpdatePeer ''p'' [] [(''k'', 9)] 0 NewGossiper) = Return es \<and> length es \<le> 3"
proof -
  let ?g = "UpdatePeer ''p'' [] [(''k'', 9)] 0 NewGossiper"
  have ok: "gossip_ok ?g" by (simp add: gossip_ok_UpdatePeer)
  obtain es where es: "TopK (\<lambda>_. 0) 3 ''k'' 0 ?g = Return es" by (simp add: TopK_eq_sort)
  show ?thesis using TopK_sound [OF ok es] es by auto
qed

end
