(* ===== verification/Redis_Pool.thy ===== *)
theory Redis_Pool
  imports Krate_Prelude "HOL-Library.Sublist"
begin

text \<open>
  The global token pool in Redis (\<^verbatim>\<open>internal/borrow/pool.go\<close>): key names, the two Lua scripts, the
  script runner with its \<^verbatim>\<open>NOSCRIPT\<close> fallback, and the Go wrappers around them.

  Redis and the go-redis client are not part of the repository. The commands the scripts call
  are a record of functions over an abstract keyspace (\<open>redis_cmds\<close>), the client's \<^verbatim>\<open>EvalSha\<close> and
  \<^verbatim>\<open>Eval\<close> a record over an abstract world (\<open>redis_client\<close>). The locales \<open>redis_store\<close> and
  \<open>redis_server\<close> state what the code relies on: the documented laws of the commands, and that a
  script runs atomically, with an error reply either before or after it ran. A Lua number is a
  double: the law about running a script covers only runs whose numbers are exact
  (\<open>script_safe\<close>, magnitudes up to \<open>2 ^ 53\<close>).
\<close>

subsection \<open>Key names\<close>

definition PoolKey :: "string \<Rightarrow> string" where
  "PoolKey key = ''krate:'' @ key @ '':pool''"

definition BorrowedKey :: "string \<Rightarrow> string \<Rightarrow> string" where
  "BorrowedKey key ident = ''krate:'' @ key @ '':borrowed:'' @ ident"

definition WindowStartKey :: "string \<Rightarrow> string" where
  "WindowStartKey key = ''krate:'' @ key @ '':window_start''"

definition ConfigKey :: "string \<Rightarrow> string" where
  "ConfigKey key = ''krate:'' @ key @ '':config''"

definition ClusterKey :: "string \<Rightarrow> string" where
  "ClusterKey ident = ''krate:cluster:'' @ ident"

subsection \<open>Redis\<close>

record 's redis_cmds =
  GET :: "string \<Rightarrow> 's \<Rightarrow> int option"
  SET :: "string \<Rightarrow> int \<Rightarrow> 's \<Rightarrow> 's"
  INCRBY :: "string \<Rightarrow> int \<Rightarrow> 's \<Rightarrow> 's"
  DECRBY :: "string \<Rightarrow> int \<Rightarrow> 's \<Rightarrow> 's"
  PEXPIRE :: "string \<Rightarrow> int \<Rightarrow> 's \<Rightarrow> 's"

definition borrowLua ::
    "'s redis_cmds \<Rightarrow> string \<Rightarrow> string \<Rightarrow> int \<Rightarrow> int \<Rightarrow> int \<Rightarrow> 's \<Rightarrow> int \<times> 's" where
  "borrowLua R pool_key borrowed_key requested lease_ttl now s =
     (let available = (case GET R pool_key s of None \<Rightarrow> 0 | Some v \<Rightarrow> v)
      in if available \<le> 0 then (0, s)
         else let granted = min requested available;
                  s1 = DECRBY R pool_key granted s;
                  s2 = INCRBY R borrowed_key granted s1;
                  s3 = PEXPIRE R borrowed_key lease_ttl s2
              in (granted, s3))"

definition windowResetLua :: "'s redis_cmds \<Rightarrow> string \<Rightarrow> string \<Rightarrow> int \<Rightarrow> int \<Rightarrow> 's \<Rightarrow> int \<times> 's" where
  "windowResetLua R pool_key window_start_key lm new_start s =
     (let current_start = (case GET R window_start_key s of None \<Rightarrow> 0 | Some v \<Rightarrow> v)
      in if current_start < new_start
         then (1, SET R window_start_key new_start (SET R pool_key lm s))
         else (0, s))"

subsection \<open>Running scripts\<close>

type_synonym err = string

datatype script = BorrowScript | ResetScript

datatype reply = RInt i64 | RStr string | ROther

fun exec_script ::
    "'s redis_cmds \<Rightarrow> script \<Rightarrow> string list \<Rightarrow> int list \<Rightarrow> 's \<Rightarrow> reply \<times> 's" where
  "exec_script R BorrowScript [pk, bk] [requested, ttl, now] s =
     (let (g, s') = borrowLua R pk bk requested ttl now s in (RInt (word_of_int g), s'))"
| "exec_script R ResetScript [pk, wk, ck] [lm, start] s =
     (let (g, s') = windowResetLua R pk wk lm start s in (RInt (word_of_int g), s'))"
| "exec_script R _ _ _ s = (ROther, s)"

record 'w redis_client =
  EvalSha :: "script \<Rightarrow> string list \<Rightarrow> int list \<Rightarrow> 'w \<Rightarrow> (err + reply) \<times> 'w"
  Eval :: "script \<Rightarrow> string list \<Rightarrow> int list \<Rightarrow> 'w \<Rightarrow> (err + reply) \<times> 'w"

definition isNoScriptErr :: "err \<Rightarrow> bool" where
  "isNoScriptErr e \<longleftrightarrow> sublist ''NOSCRIPT'' e"

definition runScript ::
    "'w redis_client \<Rightarrow> script \<Rightarrow> string list \<Rightarrow> int list \<Rightarrow> 'w \<Rightarrow> (err + reply) \<times> 'w" where
  "runScript C nm ks args w =
     (let (r, w1) = EvalSha C nm ks args w
      in case r of
           Inl e \<Rightarrow> if isNoScriptErr e then Eval C nm ks args w1 else (Inl e, w1)
         | Inr v \<Rightarrow> (Inr v, w1))"

subsection \<open>Decimal strings (strconv)\<close>

fun digit_val :: "char \<Rightarrow> nat option" where
  "digit_val c = (let v = of_char c :: nat in if 48 \<le> v \<and> v \<le> 57 then Some (v - 48) else None)"

fun parse_digits :: "nat \<Rightarrow> string \<Rightarrow> nat option" where
  "parse_digits acc [] = Some acc"
| "parse_digits acc (c # cs) =
     (case digit_val c of None \<Rightarrow> None | Some d \<Rightarrow> parse_digits (acc * 10 + d) cs)"

datatype num_error = ErrSyntax | ErrRange

definition ParseUint :: "string \<Rightarrow> u64 \<times> num_error option" where
  "ParseUint str =
     (if str = [] then (0, Some ErrSyntax)
      else case parse_digits 0 str of
             None \<Rightarrow> (0, Some ErrSyntax)
           | Some v \<Rightarrow> if v < 2 ^ 64 then (of_nat v, None) else (- 1, Some ErrRange))"

definition ParseInt :: "string \<Rightarrow> i64 \<times> num_error option" where
  "ParseInt str =
     (let neg = (str \<noteq> [] \<and> hd str = CHR ''-'');
          body = (if str \<noteq> [] \<and> (hd str = CHR ''-'' \<or> hd str = CHR ''+'') then tl str else str)
      in if body = [] then (0, Some ErrSyntax)
         else case parse_digits 0 body of
                None \<Rightarrow> (0, Some ErrSyntax)
              | Some v \<Rightarrow>
                  if \<not> neg \<and> 2 ^ 63 \<le> v then (2 ^ 63 - 1, Some ErrRange)
                  else if neg \<and> 2 ^ 63 < v then (2 ^ 63, Some ErrRange)
                  else ((if neg then - of_nat v else of_nat v), None))"

fun nat_digits :: "nat \<Rightarrow> string" where
  "nat_digits n = (if n < 10 then [char_of (48 + n)] else nat_digits (n div 10) @ [char_of (48 + n mod 10)])"

declare nat_digits.simps [simp del]

definition FormatUint :: "u64 \<Rightarrow> string" where
  "FormatUint n = nat_digits (unat n)"

definition FormatInt :: "i64 \<Rightarrow> string" where
  "FormatInt n = (if sint n < 0 then CHR ''-'' # nat_digits (nat (- sint n)) else nat_digits (nat (sint n)))"

subsection \<open>The pool client\<close>

definition toUint64 :: "reply \<Rightarrow> err + u64" where
  "toUint64 v = (case v of
     RInt n \<Rightarrow> Inr n
   | RStr str \<Rightarrow> (case ParseUint str of (n, None) \<Rightarrow> Inr n | (n, Some e) \<Rightarrow> Inl ''strconv.ParseUint'')
   | ROther \<Rightarrow> Inl ''unexpected redis result type'')"

definition pool_Borrow ::
    "'w redis_client \<Rightarrow> string \<Rightarrow> string \<Rightarrow> u64 \<Rightarrow> i64 \<Rightarrow> gtime \<Rightarrow> 'w \<Rightarrow> (err + u64) \<times> 'w" where
  "pool_Borrow C key instanceID requested leaseTTLms now w =
     (let ks = [PoolKey key, BorrowedKey key instanceID];
          (r, w') = runScript C BorrowScript ks [sint requested, sint leaseTTLms, sint (UnixMilli now)] w
      in case r of
           Inl e \<Rightarrow> (Inl (''borrow script: '' @ e), w')
         | Inr v \<Rightarrow> (toUint64 v, w'))"

definition pool_ResetWindow ::
    "'w redis_client \<Rightarrow> string \<Rightarrow> u64 \<Rightarrow> i64 \<Rightarrow> 'w \<Rightarrow> err option \<times> 'w" where
  "pool_ResetWindow C key newLimit windowStartMs w =
     (let ks = [PoolKey key, WindowStartKey key, ConfigKey key];
          (r, w') = runScript C ResetScript ks [sint newLimit, sint windowStartMs] w
      in case r of Inl e \<Rightarrow> (Some e, w') | Inr v \<Rightarrow> (None, w'))"

definition DeleteBorrowedKeys :: "string \<Rightarrow> err option" where
  "DeleteBorrowedKeys keyPattern = None"

record PoolState =
  ps_Remaining :: u64
  ps_WindowStart :: i64
  ps_Limit :: u64
  ps_WindowMs :: i64

text \<open>\<^verbatim>\<open>GetState\<close> reads the replies of its three pipelined commands and ignores every error.\<close>

definition GetState ::
    "(err + string) \<Rightarrow> (err + string) \<Rightarrow> (err + (string, string) gomap) \<Rightarrow> PoolState" where
  "GetState poolCmd windowCmd configCmd =
     \<lparr>ps_Remaining = (case poolCmd of Inr v \<Rightarrow> fst (ParseUint v) | _ \<Rightarrow> 0),
      ps_WindowStart = (case windowCmd of Inr v \<Rightarrow> fst (ParseInt v) | _ \<Rightarrow> 0),
      ps_Limit = (case configCmd of
          Inr c \<Rightarrow> (case map_of c ''limit'' of Some v \<Rightarrow> fst (ParseUint v) | None \<Rightarrow> 0) | _ \<Rightarrow> 0),
      ps_WindowMs = (case configCmd of
          Inr c \<Rightarrow> (case map_of c ''window_ms'' of Some v \<Rightarrow> fst (ParseInt v) | None \<Rightarrow> 0) | _ \<Rightarrow> 0)\<rparr>"

text \<open>\<^verbatim>\<open>EnsureConfig\<close>: the hash key and the fields it writes with \<^verbatim>\<open>HSET\<close>.\<close>

definition EnsureConfig :: "string \<Rightarrow> u64 \<Rightarrow> i64 \<Rightarrow> string \<times> (string, string) gomap" where
  "EnsureConfig key lm winMs =
     (ConfigKey key, [(''limit'', FormatUint lm), (''window_ms'', FormatInt winMs)])"


subsection \<open>Key names do not collide\<close>

lemma PoolKey_inject [simp]: "PoolKey k = PoolKey k' \<longleftrightarrow> k = k'"
  by (simp add: PoolKey_def)

lemma WindowStartKey_inject [simp]: "WindowStartKey k = WindowStartKey k' \<longleftrightarrow> k = k'"
  by (simp add: WindowStartKey_def)

lemma PoolKey_neq_WindowStartKey [simp]:
  "PoolKey k \<noteq> WindowStartKey k'" "WindowStartKey k' \<noteq> PoolKey k"
proof -
  have "last (PoolKey k) \<noteq> last (WindowStartKey k')"
    by (simp add: PoolKey_def WindowStartKey_def)
  then show "PoolKey k \<noteq> WindowStartKey k'" "WindowStartKey k' \<noteq> PoolKey k" by metis+
qed

text \<open>An instance identifier that does not end in the suffix of another kind of key.\<close>

definition id_safe :: "string \<Rightarrow> bool" where
  "id_safe ident \<longleftrightarrow> \<not> suffix '':pool'' (CHR '':'' # ident) \<and>
     \<not> suffix '':window_start'' (CHR '':'' # ident)"

lemma colon_suffix:
  "suffix (CHR '':'' # xs) (ys @ CHR '':'' # ident) \<Longrightarrow> CHR '':'' \<notin> set xs \<Longrightarrow>
   suffix (CHR '':'' # xs) (CHR '':'' # ident)"
  by (rule ccontr)
     (auto simp: suffix_def append_eq_append_conv2 Cons_eq_append_conv append_eq_Cons_conv)

lemma BorrowedKey_colon: "BorrowedKey k ident = (''krate:'' @ k @ '':borrowed'') @ CHR '':'' # ident"
  by (simp add: BorrowedKey_def)

lemma BorrowedKey_neq:
  assumes "id_safe ident"
  shows "PoolKey k \<noteq> BorrowedKey k' ident" "WindowStartKey k \<noteq> BorrowedKey k' ident"
proof -
  have "suffix '':pool'' (PoolKey k)" "suffix '':window_start'' (WindowStartKey k)"
    by (auto simp: PoolKey_def WindowStartKey_def suffix_def)
  moreover have "\<not> suffix '':pool'' (BorrowedKey k' ident)" "\<not> suffix '':window_start'' (BorrowedKey k' ident)"
    using assms colon_suffix unfolding BorrowedKey_colon id_safe_def by fastforce+
  ultimately show "PoolKey k \<noteq> BorrowedKey k' ident" "WindowStartKey k \<noteq> BorrowedKey k' ident"
    by metis+
qed



subsection \<open>What the code relies on\<close>

abbreviation avail :: "'s redis_cmds \<Rightarrow> string \<Rightarrow> 's \<Rightarrow> int" where
  \<comment> \<open>\<^verbatim>\<open>tonumber(redis.call('GET', key) or '0')\<close>\<close>
  "avail R k s \<equiv> (case GET R k s of None \<Rightarrow> 0 | Some v \<Rightarrow> v)"

definition lua_exact :: "int \<Rightarrow> bool" where
  "lua_exact v \<longleftrightarrow> \<bar>v\<bar> \<le> 2 ^ 53"

text \<open>The documented laws of the commands, for integer values in the signed 64-bit range.\<close>

locale redis_store =
  fixes R :: "'s redis_cmds"
  assumes get_range: "GET R k s = Some v \<Longrightarrow> v < 2 ^ 63"
    and get_set: "- (2 ^ 63) \<le> v \<Longrightarrow> v < 2 ^ 63 \<Longrightarrow> GET R k (SET R k v s) = Some v"
    and get_set_other: "k \<noteq> k' \<Longrightarrow> GET R k (SET R k' v s) = GET R k s"
    and get_incrby: "- (2 ^ 63) \<le> avail R k' s + d \<Longrightarrow> avail R k' s + d < 2 ^ 63 \<Longrightarrow>
           GET R k (INCRBY R k' d s) = (if k = k' then Some (avail R k' s + d) else GET R k s)"
    and get_incrby_other: "k \<noteq> k' \<Longrightarrow> GET R k (INCRBY R k' d s) = GET R k s"
    and get_decrby: "- (2 ^ 63) \<le> avail R k' s - d \<Longrightarrow> avail R k' s - d < 2 ^ 63 \<Longrightarrow>
           GET R k (DECRBY R k' d s) = (if k = k' then Some (avail R k' s - d) else GET R k s)"
    and get_pexpire: "k \<noteq> k' \<Longrightarrow> GET R k (PEXPIRE R k' t s) = GET R k s"
begin

lemma borrowLua_granted:
  "fst (borrowLua R pk bk req ttl now s) = (if avail R pk s \<le> 0 then 0 else min req (avail R pk s))"
  by (simp add: borrowLua_def Let_def)

lemma borrowLua_pool:
  assumes "0 \<le> req" "pk \<noteq> bk"
  shows "avail R pk (snd (borrowLua R pk bk req ttl now s))
         = avail R pk s - fst (borrowLua R pk bk req ttl now s)"
proof (cases "avail R pk s \<le> 0")
  case True
  then show ?thesis by (simp add: borrowLua_def Let_def)
next
  case False
  let ?g = "min req (avail R pk s)"
  have "avail R pk s < 2 ^ 63" by (auto split: option.splits dest: get_range)
  with False assms have "GET R pk (DECRBY R pk ?g s) = Some (avail R pk s - ?g)"
    by (subst get_decrby) auto
  with False assms show ?thesis
    by (simp add: borrowLua_def Let_def get_pexpire get_incrby_other)
qed

lemma borrowLua_other:
  assumes "0 \<le> req" "k \<noteq> pk" "k \<noteq> bk"
  shows "GET R k (snd (borrowLua R pk bk req ttl now s)) = GET R k s"
proof (cases "avail R pk s \<le> 0")
  case True
  then show ?thesis by (simp add: borrowLua_def Let_def)
next
  case False
  let ?g = "min req (avail R pk s)"
  have "avail R pk s < 2 ^ 63" by (auto split: option.splits dest: get_range)
  with False assms have "GET R k (DECRBY R pk ?g s) = GET R k s"
    by (subst get_decrby) auto
  with False assms show ?thesis
    by (simp add: borrowLua_def Let_def get_pexpire get_incrby_other)
qed

lemma windowResetLua_spec:
  assumes "pk \<noteq> wk" "lua_exact lm" "lua_exact st"
  shows "avail R pk (snd (windowResetLua R pk wk lm st s))
           = (if avail R wk s < st then lm else avail R pk s)"
    and "avail R wk (snd (windowResetLua R pk wk lm st s)) = max (avail R wk s) st"
    and "k \<noteq> pk \<Longrightarrow> k \<noteq> wk \<Longrightarrow> GET R k (snd (windowResetLua R pk wk lm st s)) = GET R k s"
  using assms by (auto simp: windowResetLua_def Let_def get_set get_set_other lua_exact_def)

end

text \<open>
  Running a script: Lua numbers are exact up to \<open>2 ^ 53\<close>. A reply means the script ran once; an
  error means it ran once or not at all, and a \<^verbatim>\<open>NOSCRIPT\<close> error that it did not run.
\<close>

fun script_safe :: "'s redis_cmds \<Rightarrow> script \<Rightarrow> string list \<Rightarrow> int list \<Rightarrow> 's \<Rightarrow> bool" where
  "script_safe R BorrowScript ks args s \<longleftrightarrow> list_all lua_exact args \<and> lua_exact (avail R (ks ! 0) s)"
| "script_safe R ResetScript ks args s \<longleftrightarrow> list_all lua_exact args \<and> lua_exact (avail R (ks ! 1) s)"

locale redis_server = redis_store R for R :: "'s redis_cmds" +
  fixes C :: "'w redis_client" and view :: "'w \<Rightarrow> 's"
  assumes evalsha_reply: "script_safe R sc ks args (view w) \<Longrightarrow> EvalSha C sc ks args w = (Inr v, w') \<Longrightarrow>
           (v, view w') = exec_script R sc ks args (view w)"
    and evalsha_error: "script_safe R sc ks args (view w) \<Longrightarrow> EvalSha C sc ks args w = (Inl e, w') \<Longrightarrow>
           view w' = view w \<or> \<not> isNoScriptErr e \<and> view w' = snd (exec_script R sc ks args (view w))"
    and eval_reply: "script_safe R sc ks args (view w) \<Longrightarrow> Eval C sc ks args w = (Inr v, w') \<Longrightarrow>
           (v, view w') = exec_script R sc ks args (view w)"
    and eval_error: "script_safe R sc ks args (view w) \<Longrightarrow> Eval C sc ks args w = (Inl e, w') \<Longrightarrow>
           view w' = view w \<or> view w' = snd (exec_script R sc ks args (view w))"
begin

text \<open>At most one execution per \<^verbatim>\<open>runScript\<close>, exactly one when it returns a reply.\<close>

lemma runScript_reply:
  assumes "script_safe R sc ks args (view w)" "runScript C sc ks args w = (Inr v, w')"
  shows "(v, view w') = exec_script R sc ks args (view w)"
proof -
  obtain r w1 where e: "EvalSha C sc ks args w = (r, w1)" by (cases "EvalSha C sc ks args w")
  show ?thesis
  proof (cases r)
    case (Inr v1)
    with assms(2) e have "v1 = v" "w1 = w'" by (auto simp: runScript_def)
    with evalsha_reply [OF assms(1)] e Inr show ?thesis by blast
  next
    case (Inl er)
    with assms(2) e have ns: "isNoScriptErr er" and ev: "Eval C sc ks args w1 = (Inr v, w')"
      by (auto simp: runScript_def split: if_splits)
    then have "view w1 = view w" using evalsha_error [OF assms(1)] e Inl by blast
    with eval_reply [OF _ ev] assms(1) show ?thesis by simp
  qed
qed

lemma runScript_error:
  assumes "script_safe R sc ks args (view w)" "runScript C sc ks args w = (Inl er, w')"
  shows "view w' = view w \<or> view w' = snd (exec_script R sc ks args (view w))"
proof -
  obtain r w1 where e: "EvalSha C sc ks args w = (r, w1)" by (cases "EvalSha C sc ks args w")
  with assms(2) obtain e1 where r: "r = Inl e1" by (cases r) (auto simp: runScript_def)
  show ?thesis
  proof (cases "isNoScriptErr e1")
    case True
    with assms(2) e r have ev: "Eval C sc ks args w1 = (Inl er, w')" by (simp add: runScript_def)
    from True e r have "view w1 = view w" using evalsha_error [OF assms(1)] by blast
    with eval_error [OF _ ev] assms(1) show ?thesis by simp
  next
    case False
    with assms(2) e r have "w' = w1" by (simp add: runScript_def)
    with evalsha_error [OF assms(1)] e r show ?thesis by blast
  qed
qed

abbreviation pool :: "string \<Rightarrow> 'w \<Rightarrow> int" where
  "pool key w \<equiv> avail R (PoolKey key) (view w)"

abbreviation started :: "string \<Rightarrow> 'w \<Rightarrow> int" where
  "started key w \<equiv> avail R (WindowStartKey key) (view w)"

lemma borrow_effect:
  assumes "id_safe ident" "0 \<le> req" "req \<le> 2 ^ 53"
    and ex: "(v, s') = exec_script R BorrowScript [PoolKey key, BorrowedKey key ident] [req, ttl, now] s"
  defines "g \<equiv> (if avail R (PoolKey key) s \<le> 0 then 0 else min req (avail R (PoolKey key) s))"
  shows "v = RInt (word_of_int g)" "avail R (PoolKey key) s' = avail R (PoolKey key) s - g"
    "key' \<noteq> key \<Longrightarrow> avail R (PoolKey key') s' = avail R (PoolKey key') s"
    "avail R (WindowStartKey key') s' = avail R (WindowStartKey key') s"
proof -
  let ?b = "borrowLua R (PoolKey key) (BorrowedKey key ident) req ttl now s"
  have g: "fst ?b = g" by (simp add: g_def borrowLua_granted)
  have v: "v = RInt (word_of_int (fst ?b))" and s': "s' = snd ?b"
    using ex by (auto simp: split_beta)
  show "v = RInt (word_of_int g)" using v g by simp
  show "avail R (PoolKey key) s' = avail R (PoolKey key) s - g"
    using borrowLua_pool [of req "PoolKey key" "BorrowedKey key ident" ttl now s] assms(1,2) g s'
    by (simp add: BorrowedKey_neq)
  show "key' \<noteq> key \<Longrightarrow> avail R (PoolKey key') s' = avail R (PoolKey key') s"
    "avail R (WindowStartKey key') s' = avail R (WindowStartKey key') s"
    using assms(1,2) s' by (auto simp: borrowLua_other BorrowedKey_neq)
qed

lemma pool_Borrow_spec:
  assumes res: "pool_Borrow C key ident req ttl now w = (r, w')"
    and pre: "id_safe ident" "uint req \<le> 2 ^ 53" "lua_exact (sint ttl)"
      "lua_exact (sint (UnixMilli now))" "lua_exact (pool key w)"
  defines "g \<equiv> (if pool key w \<le> 0 then 0 else min (uint req) (pool key w))"
  shows "(case r of Inr n \<Rightarrow> uint n = g \<and> pool key w' = pool key w - g
          | Inl e \<Rightarrow> pool key w' = pool key w \<or> pool key w' = pool key w - g) \<and>
         (\<forall>key'. key' \<noteq> key \<longrightarrow> pool key' w' = pool key' w) \<and>
         (\<forall>key'. started key' w' = started key' w)"
proof -
  let ?ks = "[PoolKey key, BorrowedKey key ident]"
  let ?args = "[sint req, sint ttl, sint (UnixMilli now)]"
  have req: "sint req = uint req" using pre(2) by (intro sint_small) simp
  have safe: "script_safe R BorrowScript ?ks ?args (view w)"
    using pre req uint_ge_0 [of req] by (simp add: lua_exact_def)
  have g: "0 \<le> g" "g < 2 ^ 64" using pre(2) uint_ge_0 [of req] by (auto simp: g_def)
  have gs: "(if pool key w \<le> 0 then 0 else min (sint req) (pool key w)) = g"
    by (simp add: g_def req)
  note eff = borrow_effect [OF pre(1) uint_ge_0 pre(2), folded req, where s = "view w" and key = key, unfolded gs]
  obtain q w1 where run: "runScript C BorrowScript ?ks ?args w = (q, w1)"
    by (cases "runScript C BorrowScript ?ks ?args w")
  with res have w1: "w1 = w'" by (auto simp: pool_Borrow_def Let_def split: sum.splits)
  show ?thesis
  proof (cases q)
    case (Inr v)
    with run w1 have ex: "(v, view w') = exec_script R BorrowScript ?ks ?args (view w)"
      using runScript_reply [OF safe] by simp
    from eff(1) [OF ex] run res Inr have "r = Inr (word_of_int g)"
      by (simp add: pool_Borrow_def Let_def toUint64_def)
    with eff(2,3,4) [OF ex] g show ?thesis by (auto simp: uint_word_of_int)
  next
    case (Inl e)
    with run w1 res have "r = Inl (''borrow script: '' @ e)" by (simp add: pool_Borrow_def Let_def)
    moreover have "view w' = view w \<or> view w' = snd (exec_script R BorrowScript ?ks ?args (view w))"
      using runScript_error [OF safe] run w1 Inl by simp
    ultimately show ?thesis
      using eff(2,3,4) [OF surjective_pairing [of "exec_script R BorrowScript ?ks ?args (view w)", symmetric]]
      by auto
  qed
qed

lemma reset_effect:
  assumes "lua_exact lm" "lua_exact st"
    and ex: "(v, s') = exec_script R ResetScript [PoolKey key, WindowStartKey key, ck] [lm, st] s"
  shows "avail R (PoolKey key) s'
           = (if avail R (WindowStartKey key) s < st then lm else avail R (PoolKey key) s)"
    "avail R (WindowStartKey key) s' = max (avail R (WindowStartKey key) s) st"
    "key' \<noteq> key \<Longrightarrow> avail R (PoolKey key') s' = avail R (PoolKey key') s"
    "key' \<noteq> key \<Longrightarrow> avail R (WindowStartKey key') s' = avail R (WindowStartKey key') s"
proof -
  have s': "s' = snd (windowResetLua R (PoolKey key) (WindowStartKey key) lm st s)"
    using ex by (simp add: split_beta)
  note spec = windowResetLua_spec [OF PoolKey_neq_WindowStartKey(1) assms(1,2)]
  show "avail R (PoolKey key) s'
          = (if avail R (WindowStartKey key) s < st then lm else avail R (PoolKey key) s)"
    unfolding s' by (rule spec(1))
  show "avail R (WindowStartKey key) s' = max (avail R (WindowStartKey key) s) st"
    unfolding s' by (rule spec(2))
  show "key' \<noteq> key \<Longrightarrow> avail R (PoolKey key') s' = avail R (PoolKey key') s"
    "key' \<noteq> key \<Longrightarrow> avail R (WindowStartKey key') s' = avail R (WindowStartKey key') s"
    unfolding s' by (subst spec(3), simp_all)+
qed

lemma pool_ResetWindow_spec:
  assumes res: "pool_ResetWindow C key lm st w = (r, w')"
    and pre: "uint lm \<le> 2 ^ 53" "lua_exact (sint st)" "lua_exact (started key w)"
  defines "fin \<equiv> pool key w' = (if started key w < sint st then uint lm else pool key w) \<and>
                  started key w' = max (started key w) (sint st)"
  shows "(case r of None \<Rightarrow> fin
          | Some e \<Rightarrow> pool key w' = pool key w \<and> started key w' = started key w \<or> fin) \<and>
         (\<forall>key'. key' \<noteq> key \<longrightarrow> pool key' w' = pool key' w \<and> started key' w' = started key' w)"
proof -
  let ?ks = "[PoolKey key, WindowStartKey key, ConfigKey key]"
  let ?args = "[sint lm, sint st]"
  have lm: "sint lm = uint lm" using pre(1) by (intro sint_small) simp
  have ex: "lua_exact (sint lm)" using pre(1) uint_ge_0 [of lm] by (simp add: lua_exact_def lm)
  then have safe: "script_safe R ResetScript ?ks ?args (view w)"
    using pre by simp
  note eff = reset_effect [OF ex pre(2), where s = "view w" and key = key, unfolded lm]
  obtain q w1 where run: "runScript C ResetScript ?ks ?args w = (q, w1)"
    by (cases "runScript C ResetScript ?ks ?args w")
  with res have w1: "w1 = w'" by (auto simp: pool_ResetWindow_def Let_def split: sum.splits)
  show ?thesis
  proof (cases q)
    case (Inr v)
    with run w1 have ex: "(v, view w') = exec_script R ResetScript ?ks ?args (view w)"
      using runScript_reply [OF safe] by simp
    from run res Inr have "r = None" by (simp add: pool_ResetWindow_def Let_def)
    with eff [OF ex [unfolded lm]] show ?thesis by (auto simp: fin_def)
  next
    case (Inl e)
    with run w1 res have "r = Some e" by (simp add: pool_ResetWindow_def Let_def)
    moreover have "view w' = view w \<or> view w' = snd (exec_script R ResetScript ?ks ?args (view w))"
      using runScript_error [OF safe] run w1 Inl by simp
    ultimately show ?thesis
      using eff [OF surjective_pairing [of "exec_script R ResetScript ?ks ?args (view w)", symmetric, unfolded lm]]
      unfolding fin_def lm by auto
  qed
qed

end

subsection \<open>A reference store\<close>

text \<open>
  The laws are met by a keyspace of signed 64-bit values and a client that always reaches the
  server: the interpretation shows that the hypotheses can hold together, and the witnesses
  evaluate on it.
\<close>

type_synonym mem_store = "string \<Rightarrow> i64 option"

definition mem_get :: "string \<Rightarrow> mem_store \<Rightarrow> int option" where
  "mem_get k s = map_option sint (s k)"

definition mem_put :: "string \<Rightarrow> int \<Rightarrow> mem_store \<Rightarrow> mem_store" where
  "mem_put k v s = (if - (2 ^ 63) \<le> v \<and> v < 2 ^ 63 then s(k \<mapsto> word_of_int v) else s)"

definition mem_cmds :: "mem_store redis_cmds" where
  "mem_cmds = \<lparr>GET = mem_get, SET = mem_put,
     INCRBY = (\<lambda>k d s. mem_put k ((case mem_get k s of None \<Rightarrow> 0 | Some v \<Rightarrow> v) + d) s),
     DECRBY = (\<lambda>k d s. mem_put k ((case mem_get k s of None \<Rightarrow> 0 | Some v \<Rightarrow> v) - d) s),
     PEXPIRE = (\<lambda>k t s. if t \<le> 0 then s(k := None) else s)\<rparr>"

definition mem_exec :: "script \<Rightarrow> string list \<Rightarrow> int list \<Rightarrow> mem_store \<Rightarrow> (err + reply) \<times> mem_store" where
  "mem_exec sc ks args s = (let (v, s') = exec_script mem_cmds sc ks args s in (Inr v, s'))"

definition mem_client :: "mem_store redis_client" where
  "mem_client = \<lparr>EvalSha = mem_exec, Eval = mem_exec\<rparr>"

lemma mem_get_put:
  "mem_get k (mem_put k' v s) =
     (if k = k' \<and> - (2 ^ 63) \<le> v \<and> v < 2 ^ 63 then Some v else mem_get k s)"
  by (auto simp: mem_get_def mem_put_def sint_of_int_exact)

interpretation mem: redis_store mem_cmds
proof unfold_locales
  show "GET mem_cmds k s = Some v \<Longrightarrow> v < 2 ^ 63" for k s v
    using sint_i64_upper by (auto simp: mem_cmds_def mem_get_def)
qed (auto simp: mem_cmds_def mem_get_put, auto simp: mem_get_def)

interpretation mem_srv: redis_server mem_cmds mem_client "\<lambda>w. w"
  by unfold_locales (auto simp: mem_client_def mem_exec_def split_beta)

subsection \<open>Properties of the pool\<close>



text \<open>
  C10. A window is opened at most once: after a successful reset to some start, the pool is the
  limit if that start was new and unchanged otherwise, and any further reset to the same or an
  earlier start, successful or not, leaves the pool alone. So two instances entering the same
  window cannot fill its pool twice.
\<close>

theorem ResetWindow_once:
  assumes srv: "redis_server R C view"
    and "pool_ResetWindow C key lm st w = (None, w1)" "pool_ResetWindow C key lm' st' w1 = (r, w2)"
    and pre: "uint lm \<le> 2 ^ 53" "uint lm' \<le> 2 ^ 53" "lua_exact (sint st)" "lua_exact (sint st')"
      "lua_exact (avail R (WindowStartKey key) (view w))"
    and le: "sint st' \<le> sint st"
  shows "avail R (PoolKey key) (view w1)
           = (if avail R (WindowStartKey key) (view w) < sint st then uint lm
              else avail R (PoolKey key) (view w)) \<and>
         avail R (PoolKey key) (view w2) = avail R (PoolKey key) (view w1) \<and>
         avail R (WindowStartKey key) (view w2) = avail R (WindowStartKey key) (view w1)"
proof -
  note s1 = redis_server.pool_ResetWindow_spec [OF srv assms(2) pre(1,3,5)]
  have st1: "avail R (WindowStartKey key) (view w1) = max (avail R (WindowStartKey key) (view w)) (sint st)"
    using s1 by simp
  then have "lua_exact (avail R (WindowStartKey key) (view w1))"
    using pre(3,5) by (auto simp: max_def)
  note s2 = redis_server.pool_ResetWindow_spec [OF srv assms(3) pre(2,4) this]
  from s2 st1 le have "avail R (PoolKey key) (view w2) = avail R (PoolKey key) (view w1) \<and>
      avail R (WindowStartKey key) (view w2) = avail R (WindowStartKey key) (view w1)"
    by (cases r) (auto simp: max_def split: if_splits)
  with s1 show ?thesis by simp
qed

theorem ResetWindow_once_witness:
  "\<exists>w1 r w2. pool_ResetWindow mem_client ''k'' 100 60000 Map.empty = (None, w1) \<and>
     pool_ResetWindow mem_client ''k'' 100 60000 w1 = (r, w2) \<and>
     avail mem_cmds (PoolKey ''k'') w1 = 100 \<and> avail mem_cmds (PoolKey ''k'') w2 = 100"
proof -
  obtain q w1 where r1: "pool_ResetWindow mem_client ''k'' 100 60000 Map.empty = (q, w1)"
    by (cases "pool_ResetWindow mem_client ''k'' 100 60000 Map.empty")
  have q: "q = None"
    using r1 by (auto simp: pool_ResetWindow_def mem_client_def runScript_def mem_exec_def split_beta Let_def)
  obtain r w2 where r2: "pool_ResetWindow mem_client ''k'' 100 60000 w1 = (r, w2)"
    by (cases "pool_ResetWindow mem_client ''k'' 100 60000 w1")
  have a: "avail mem_cmds (WindowStartKey ''k'') Map.empty = 0" by (simp add: mem_cmds_def mem_get_def)
  from ResetWindow_once [OF mem_srv.redis_server_axioms r1 [unfolded q] r2] a r1 q r2 show ?thesis
    by (auto simp: lua_exact_def)
qed

subsection \<open>Configuration round trip\<close>

lemma parse_digits_append:
  "parse_digits acc (xs @ ys) = Option.bind (parse_digits acc xs) (\<lambda>a. parse_digits a ys)"
  by (induction xs arbitrary: acc) (auto split: option.splits simp del: digit_val.simps)

lemma digit_val_char_of: "d < 10 \<Longrightarrow> digit_val (char_of (48 + d)) = Some d"
  by (simp add: Let_def)

lemma nat_digits_nonempty: "nat_digits n \<noteq> []"
  by (subst nat_digits.simps) simp

lemma parse_nat_digits: "parse_digits 0 (nat_digits n) = Some n"
proof (induction n rule: nat_digits.induct)
  case (1 n)
  show ?case
  proof (cases "n < 10")
    case True
    then show ?thesis
      by (subst nat_digits.simps) (simp add: digit_val_char_of del: digit_val.simps)
  next
    case False
    with "1.IH" show ?thesis
      by (subst nat_digits.simps)
         (simp add: parse_digits_append digit_val_char_of del: digit_val.simps)
  qed
qed

lemma ParseUint_FormatUint: "ParseUint (FormatUint n) = (n, None)"
  using unsigned_less [of n, where ?'a = nat] by (simp add: ParseUint_def FormatUint_def nat_digits_nonempty parse_nat_digits)

lemma digit_not_sign: "digit_val c = Some d \<Longrightarrow> c \<noteq> CHR ''-'' \<and> c \<noteq> CHR ''+''"
  by auto

lemma hd_digit:
  "parse_digits acc xs = Some v \<Longrightarrow> xs \<noteq> [] \<Longrightarrow> hd xs \<noteq> CHR ''-'' \<and> hd xs \<noteq> CHR ''+''"
  by (cases xs) (auto split: option.splits dest: digit_not_sign simp del: digit_val.simps)

lemma ParseInt_FormatInt: "ParseInt (FormatInt n) = (n, None)"
proof (cases "sint n < 0")
  case True
  then have "nat (- sint n) \<le> 2 ^ 63" using sint_i64_lower [of n] by simp
  then have "\<not> 2 ^ 63 < nat (- sint n)" by simp
  moreover have "- of_nat (nat (- sint n)) = n" using True by simp
  ultimately show ?thesis using True
    by (simp add: ParseInt_def FormatInt_def nat_digits_nonempty parse_nat_digits Let_def)
next
  case False
  note h = hd_digit [OF parse_nat_digits nat_digits_nonempty, of "nat (sint n)"]
  from False have "\<not> 2 ^ 63 \<le> nat (sint n)" using sint_i64_upper [of n] by simp
  moreover have "of_nat (nat (sint n)) = n" using False by simp
  ultimately show ?thesis using False h
    by (simp add: ParseInt_def FormatInt_def nat_digits_nonempty parse_nat_digits Let_def)
qed

text \<open>
  What \<^verbatim>\<open>EnsureConfig\<close> writes, \<^verbatim>\<open>GetState\<close> reads back: the decimal rendering of the limit and
  of the window length parses to the same 64-bit values, for every value.
\<close>

theorem config_roundtrip:
  "ps_Limit (GetState p q (Inr (snd (EnsureConfig key lm ms)))) = lm \<and>
   ps_WindowMs (GetState p q (Inr (snd (EnsureConfig key lm ms)))) = ms"
  by (simp add: GetState_def EnsureConfig_def ParseUint_FormatUint ParseInt_FormatInt)

end
