(* ===== verification/Routing.thy ===== *)
theory Routing
  imports Gossip Redis_Pool
begin

text \<open>
  The routers (\<^verbatim>\<open>routing/router.go\<close>, \<^verbatim>\<open>routing/ema_router.go\<close>): where a request that the local bucket
  cannot serve goes next. The locale \<open>router\<close> is the contract of the interface \<^verbatim>\<open>Router\<close> the limiter
  relies on; both routers of the repository interpret it. The wall clock is an argument over the
  world; debug logging is left out.
\<close>

datatype Decision = DecisionRedis | DecisionPeer | DecisionDeny

record RouteContext =
  rc_Key :: string
  rc_Need :: u64
  rc_RedisExhausted :: bool
  rc_HasPeers :: bool

subsection \<open>The contract\<close>

text \<open>
  A router answers without an error, asks peers only when there are any, never sends an exhausted
  key to Redis and denies only an exhausted key.
\<close>

locale router =
  fixes decide :: "Gossiper \<Rightarrow> RouteContext \<Rightarrow> 'r \<Rightarrow> 'w \<Rightarrow> (err + Decision) \<times> 'r \<times> 'w"
  assumes no_error: "\<exists>d. fst (decide g rc r w) = Inr d"
    and peer_has_peers: "fst (decide g rc r w) = Inr DecisionPeer \<Longrightarrow> rc_HasPeers rc"
    and redis_not_exhausted: "fst (decide g rc r w) = Inr DecisionRedis \<Longrightarrow> \<not> rc_RedisExhausted rc"
    and deny_exhausted: "fst (decide g rc r w) = Inr DecisionDeny \<Longrightarrow> rc_RedisExhausted rc"
begin

lemma alone_decision:
  assumes "\<not> rc_HasPeers rc"
  shows "fst (decide g rc r w) = Inr (if rc_RedisExhausted rc then DecisionDeny else DecisionRedis)"
proof -
  obtain d where d: "fst (decide g rc r w) = Inr d" using no_error by blast
  then show ?thesis
    using assms peer_has_peers redis_not_exhausted deny_exhausted by (cases d) auto
qed

end

subsection \<open>The default router\<close>

definition default_Decide :: "Gossiper \<Rightarrow> RouteContext \<Rightarrow> unit \<Rightarrow> 'w \<Rightarrow> (err + Decision) \<times> unit \<times> 'w" where
  "default_Decide g rc r w =
     (if rc_HasPeers rc then (Inr DecisionPeer, r, w)
      else if rc_RedisExhausted rc then (Inr DecisionDeny, r, w)
      else (Inr DecisionRedis, r, w))"

interpretation default_router: router default_Decide
  by unfold_locales (auto simp: default_Decide_def split: if_splits)

subsection \<open>The predictive router\<close>

record routerShard =
  rs_lastConsumed :: "(string, (string, u64) gomap) gomap"
  rs_velocityEMA :: "(string, (string, f64) gomap) gomap"
  rs_lastUpdated :: "(string, (string, gtime) gomap) gomap"

record EMAPredictiveRouter =
  em_hasGossiper :: bool
  em_alpha :: f64
  em_shards :: "routerShard list"

definition NewEMAPredictiveRouter :: "f64 \<Rightarrow> EMAPredictiveRouter" where
  "NewEMAPredictiveRouter a =
     \<lparr>em_hasGossiper = False,
      em_alpha = (if fleq a (FFin 0) \<or> fless (FFin 1) a then FFin (1 / 2) else a),
      em_shards = replicate shardCount \<lparr>rs_lastConsumed = [], rs_velocityEMA = [], rs_lastUpdated = []\<rparr>\<rparr>"

definition ema_Init :: "bool \<Rightarrow> EMAPredictiveRouter \<Rightarrow> EMAPredictiveRouter" where
  \<comment> \<open>the argument says whether the gossiper is non-nil; its contents are shared, see \<open>ema_Decide\<close>\<close>
  "ema_Init nonnil m = m\<lparr>em_hasGossiper := nonnil\<rparr>"

definition ema_ensure :: "string \<Rightarrow> routerShard \<Rightarrow> routerShard" where
  "ema_ensure i s = (case map_of (rs_lastConsumed s) i of
     None \<Rightarrow> s\<lparr>rs_lastConsumed := AList.update i [] (rs_lastConsumed s),
               rs_velocityEMA := AList.update i [] (rs_velocityEMA s),
               rs_lastUpdated := AList.update i [] (rs_lastUpdated s)\<rparr>
   | Some _ \<Rightarrow> s)"

definition model_step :: "f64 \<Rightarrow> string \<Rightarrow> PeerEntry \<Rightarrow> routerShard \<Rightarrow> routerShard" where
  "model_step a key p shard =
     (let i = pe_ID p; s = ema_ensure i shard;
          lastTime = nget (rs_lastUpdated s) i key; lastCon = nget (rs_lastConsumed s) i key;
          s1 = (case (lastTime, lastCon) of
             (Some t, Some l) \<Rightarrow>
               if t < pe_LastUpdated p
               then let dt = Seconds (time_sub (pe_LastUpdated p) t);
                        s' = (if fless (FFin 0) dt
                          then let diff = (if l \<le> pe_Consumed p then f64_of_u64 (pe_Consumed p - l)
                                           else f64_of_u64 (pe_Consumed p));
                                   currentVelocity = fdiv diff dt;
                                   prevEMA = (case nget (rs_velocityEMA s) i key of None \<Rightarrow> FFin 0 | Some e \<Rightarrow> e);
                                   newEMA = fadd (fmul a currentVelocity) (fmul (fsub (FFin 1) a) prevEMA)
                               in s\<lparr>rs_velocityEMA := nset i key newEMA (rs_velocityEMA s)\<rparr>
                          else s)
                    in s'\<lparr>rs_lastUpdated := nset i key (pe_LastUpdated p) (rs_lastUpdated s')\<rparr>
               else s
           | (None, _) \<Rightarrow> s\<lparr>rs_lastUpdated := nset i key (pe_LastUpdated p) (rs_lastUpdated s)\<rparr>
           | (Some t, None) \<Rightarrow> s)
      in s1\<lparr>rs_lastConsumed := nset i key (pe_Consumed p) (rs_lastConsumed s1)\<rparr>)"

definition updateModelsLocked :: "f64 \<Rightarrow> string \<Rightarrow> PeerEntry list \<Rightarrow> routerShard \<Rightarrow> routerShard" where
  "updateModelsLocked a key peers shard = fold (model_step a key) peers shard"

definition router_surplus :: "gtime \<Rightarrow> string \<Rightarrow> routerShard \<Rightarrow> PeerEntry \<Rightarrow> f64" where
  "router_surplus now key shard p =
     (let velocity = (case nget (rs_velocityEMA shard) (pe_ID p) key of None \<Rightarrow> FFin 0 | Some e \<Rightarrow> e);
          lastTime = (case nget (rs_lastUpdated shard) (pe_ID p) key of None \<Rightarrow> zero_time | Some t \<Rightarrow> t);
          dt0 = Seconds (time_sub now lastTime);
          dt = (if fless dt0 (FFin 0) then FFin 0 else dt0);
          expectedDecay = fmul velocity dt
      in if fless (FFin 0) expectedDecay
         then (if fless expectedDecay (f64_of_u64 (pe_Surplus p))
               then fsub (f64_of_u64 (pe_Surplus p)) expectedDecay else FFin 0)
         else f64_of_u64 (pe_Surplus p))"

definition fall_back :: "RouteContext \<Rightarrow> Decision" where
  \<comment> \<open>the three places that deny an exhausted key and send the others to Redis\<close>
  "fall_back rc = (if rc_RedisExhausted rc then DecisionDeny else DecisionRedis)"

definition ema_Decide ::
    "(f64 \<Rightarrow> u64) \<Rightarrow> ('w \<Rightarrow> gtime \<times> 'w) \<Rightarrow> Gossiper \<Rightarrow> RouteContext \<Rightarrow> EMAPredictiveRouter \<Rightarrow> 'w
     \<Rightarrow> (err + Decision) \<times> EMAPredictiveRouter \<times> 'w" where
  "ema_Decide oor clk g rc m w =
     (if \<not> rc_HasPeers rc \<or> \<not> em_hasGossiper m then (Inr (fall_back rc), m, w)
      else
        let k = (if 5 < length (PeerIDs g) + 1 then 3 else 2);
            (t1, w1) = clk w
        in case TopK oor k (rc_Key rc) t1 g of \<comment> \<open>\<open>k\<close> is positive: it does not panic\<close>
             Panic msg \<Rightarrow> (Inl msg, m, w1)
           | Return topPeers \<Rightarrow>
               if topPeers = [] then (Inr (fall_back rc), m, w1)
               else
                 let idx = shardIndex (rc_Key rc);
                     shard = updateModelsLocked (em_alpha m) (rc_Key rc) topPeers (em_shards m ! idx);
                     m' = m\<lparr>em_shards := (em_shards m)[idx := shard]\<rparr>;
                     (now, w2) = clk w1
                 in if \<exists>p \<in> set topPeers. fleq (f64_of_u64 (rc_Need rc)) (router_surplus now (rc_Key rc) shard p)
                    then (Inr DecisionPeer, m', w2)
                    else (Inr (fall_back rc), m', w2))"

definition ema_evict_shard :: "string \<Rightarrow> routerShard \<Rightarrow> routerShard" where
  "ema_evict_shard key s =
     s\<lparr>rs_lastConsumed := ndel_all key (rs_lastConsumed s), rs_velocityEMA := ndel_all key (rs_velocityEMA s),
       rs_lastUpdated := ndel_all key (rs_lastUpdated s)\<rparr>"

definition ema_EvictKeys :: "string list \<Rightarrow> EMAPredictiveRouter \<Rightarrow> EMAPredictiveRouter" where
  "ema_EvictKeys ks m =
     m\<lparr>em_shards := visit_groups ema_evict_shard (group_keys shardIndex shardCount ks) (em_shards m)\<rparr>"

definition ema_RemovePeer :: "string \<Rightarrow> EMAPredictiveRouter \<Rightarrow> EMAPredictiveRouter" where
  "ema_RemovePeer i m = m\<lparr>em_shards := map (\<lambda>s.
     s\<lparr>rs_lastConsumed := AList.delete i (rs_lastConsumed s), rs_velocityEMA := AList.delete i (rs_velocityEMA s),
       rs_lastUpdated := AList.delete i (rs_lastUpdated s)\<rparr>) (em_shards m)\<rparr>"

interpretation ema_router: router "ema_Decide oor clk" for oor clk
proof unfold_locales
  fix g rc m w
  show "\<exists>d. fst (ema_Decide oor clk g rc m w) = Inr d"
    by (auto simp: ema_Decide_def Let_def split_beta TopK_eq_sort)
  show "rc_HasPeers rc" if "fst (ema_Decide oor clk g rc m w) = Inr DecisionPeer"
    using that by (auto simp: ema_Decide_def fall_back_def split: if_splits)
  show "\<not> rc_RedisExhausted rc" if "fst (ema_Decide oor clk g rc m w) = Inr DecisionRedis"
    using that by (auto simp: ema_Decide_def fall_back_def Let_def split_beta split: if_splits go.splits)
  show "rc_RedisExhausted rc" if "fst (ema_Decide oor clk g rc m w) = Inr DecisionDeny"
    using that by (auto simp: ema_Decide_def fall_back_def Let_def split_beta split: if_splits go.splits)
qed

lemma router_surplus_le:
  assumes "uint (pe_Surplus p) \<le> 2 ^ 53" "uint need \<le> 2 ^ 53"
    "fleq (f64_of_u64 need) (router_surplus now key shard p)"
  shows "uint need \<le> uint (pe_Surplus p)"
proof -
  obtain a where a: "router_surplus now key shard p = FFin a" "a \<le> of_int (uint (pe_Surplus p))"
    unfolding router_surplus_def Let_def using predicted_fin [OF assms(1)] by blast
  have "f64_of_u64 need = FFin (of_int (uint need))"
    using assms(2) by (rule f64_of_u64_exact)
  with a assms(3) have "(of_int (uint need) :: rat) \<le> of_int (uint (pe_Surplus p))"
    by (metis fleq.simps(1) order_trans)
  then show ?thesis by (simp only: of_int_le_iff)
qed

text \<open>
  C23. The predictive router sends a request to the peers only if some peer is known to have
  borrowed at least the needed amount more of the key than it has consumed (amounts up to \<open>2^53\<close>),
  whatever the velocities and the clock readings.
\<close>
theorem ema_Decide_peer:
  assumes "gossip_ok g" "fst (ema_Decide oor clk g rc m w) = Inr DecisionPeer"
    and "uint (rc_Need rc) \<le> 2 ^ 53"
    and "\<And>i b. pc_borrowed (gossip_cell g i (rc_Key rc)) = Some b \<Longrightarrow> uint b \<le> 2 ^ 53"
  shows "\<exists>i b. pc_borrowed (gossip_cell g i (rc_Key rc)) = Some b \<and>
    uint (rc_Need rc) + uint (case pc_consumed (gossip_cell g i (rc_Key rc)) of None \<Rightarrow> 0 | Some c \<Rightarrow> c) \<le> uint b"
proof -
  obtain k t es now shard p where es: "TopK oor k (rc_Key rc) t g = Return es" and p: "p \<in> set es"
    and f: "fleq (f64_of_u64 (rc_Need rc)) (router_surplus now (rc_Key rc) shard p)"
    using assms(2) by (auto simp: ema_Decide_def fall_back_def Let_def split_beta split: if_splits go.splits)
  obtain b where b: "pc_borrowed (gossip_cell g (pe_ID p) (rc_Key rc)) = Some b"
    "pe_Consumed p = (case pc_consumed (gossip_cell g (pe_ID p) (rc_Key rc)) of None \<Rightarrow> 0 | Some c \<Rightarrow> c)"
    "pe_Consumed p < b" "uint b \<le> 2 ^ 53 \<longrightarrow> uint (pe_Surplus p) \<le> uint b - uint (pe_Consumed p)"
    using TopK_entries [OF assms(1) es] p by blast
  have "uint b \<le> 2 ^ 53" using assms(4) b(1) by blast
  moreover from this have "uint (pe_Surplus p) \<le> 2 ^ 53"
    using b(4) uint_ge_0 [of "pe_Consumed p"] by linarith
  then have "uint (rc_Need rc) \<le> uint (pe_Surplus p)"
    using router_surplus_le assms(3) f by blast
  ultimately have "uint (rc_Need rc) + uint (pe_Consumed p) \<le> uint b" using b(4) by linarith
  then show ?thesis using b(1,2) by auto
qed

definition demo_gossip :: Gossiper where
  "demo_gossip = NewGossiper\<lparr>g_shards := (replicate shardCount empty_gossipShard)
     [shardIndex ''k'' := empty_gossipShard\<lparr>peerBorrowed := [(''p'', [(''k'', 9)])]\<rparr>]\<rparr>"

lemma demo_gossip_ok: "gossip_ok demo_gossip"
proof -
  let ?s = "empty_gossipShard\<lparr>peerBorrowed := [(''p'', [(''k'', 9)])]\<rparr>"
  have "gshard_ok empty_gossipShard" "gshard_ok ?s"
    by (simp_all add: gshard_ok_def empty_gossipShard_def)
  then show ?thesis
    using set_update_subset_insert [of "replicate shardCount empty_gossipShard" "shardIndex ''k''" ?s]
    by (auto simp: gossip_ok_def demo_gossip_def NewGossiper_def)
qed

lemma demo_gossip_peers: "PeerIDs demo_gossip = []"
  by (simp add: PeerIDs_def demo_gossip_def NewGossiper_def)

lemma fmul_zero_decay [simp]: "\<not> fless (FFin 0) (fmul (FFin 0) x)"
  by (cases x) (auto simp: rnd_def)

lemma demo_floats: "f64_of_u64 9 = FFin 9" "f64_of_u64 4 = FFin 4" "u64_of_f64 oor (FFin 9) = 9"
  using f64_of_u64_exact [of 9] f64_of_u64_exact [of 4] u64_of_f64_int [of 9 oor] by simp_all

lemma demo_TopK:
  "TopK oor 2 ''k'' t demo_gossip = Return [\<lparr>pe_ID = ''p'', pe_Surplus = 9, pe_Consumed = 0, pe_LastUpdated = zero_time\<rparr>]"
  using shardIndex_less [of "''k''"]
  by (simp add: TopK_eq_sort candidates_def demo_gossip_def NewGossiper_def empty_gossipShard_def peer_entry_def
      get0_def Let_def demo_floats sort_desc_def)

lemma demo_ema_Decide:
  "fst (ema_Decide oor (\<lambda>w. (0, w)) demo_gossip
     \<lparr>rc_Key = ''k'', rc_Need = 4, rc_RedisExhausted = True, rc_HasPeers = True\<rparr>
     (ema_Init True (NewEMAPredictiveRouter (FFin (1 / 2)))) w) = Inr DecisionPeer"
  using shardIndex_less [of "''k''"]
  by (simp add: ema_Decide_def Let_def split_beta demo_TopK demo_gossip_peers
      ema_Init_def NewEMAPredictiveRouter_def updateModelsLocked_def model_step_def ema_ensure_def
      router_surplus_def demo_floats nget_def inner_def nset_def)

theorem ema_Decide_peer_witness:
  "\<exists>i b. pc_borrowed (gossip_cell demo_gossip i ''k'') = Some b \<and> 4 \<le> uint b"
proof -
  let ?rc = "\<lparr>rc_Key = ''k'', rc_Need = 4, rc_RedisExhausted = True, rc_HasPeers = True\<rparr>"
  have "uint b \<le> 2 ^ 53" if "pc_borrowed (gossip_cell demo_gossip i (rc_Key ?rc)) = Some b" for i b
    using that shardIndex_less [of "''k''"]
    by (auto simp: gossip_cell_def shard_cell_def demo_gossip_def NewGossiper_def empty_gossipShard_def
        nget_def inner_def split: if_splits)
  then obtain i b c where "pc_borrowed (gossip_cell demo_gossip i (rc_Key ?rc)) = Some b"
    "uint (rc_Need ?rc) + uint (c :: u64) \<le> uint b"
    using ema_Decide_peer [OF demo_gossip_ok demo_ema_Decide] by force
  moreover from this have "4 + uint c \<le> uint b" by simp
  then have "4 \<le> uint b" using uint_ge_0 [of c] by linarith
  ultimately show ?thesis by auto
qed

subsection \<open>The models per peer and key\<close>

definition model_cell :: "routerShard \<Rightarrow> string \<Rightarrow> string \<Rightarrow> u64 option \<times> f64 option \<times> gtime option" where
  "model_cell s k i = (nget (rs_lastConsumed s) i k, nget (rs_velocityEMA s) i k, nget (rs_lastUpdated s) i k)"

interpretation ema_store: shard_store shardIndex shardCount ema_evict_shard model_cell "\<lambda>i. (None, None, None)"
  by unfold_locales (auto simp: model_cell_def ema_evict_shard_def fun_eq_iff)

text \<open>
  Evicting keys from the predictive router forgets exactly the models of those keys, for every
  peer, and removing a peer exactly the models of that peer.
\<close>
theorem ema_forgets:
  assumes "length (em_shards m) = shardCount"
  shows "model_cell (em_shards (ema_EvictKeys ks m) ! shardIndex k) k i =
      (if k \<in> set ks then (None, None, None) else model_cell (em_shards m ! shardIndex k) k i) \<and>
    model_cell (em_shards (ema_RemovePeer i' m) ! shardIndex k) k i =
      (if i = i' then (None, None, None) else model_cell (em_shards m ! shardIndex k) k i)"
  using fun_cong [OF ema_store.lookup_evict [OF assms, of ks k], of i] shardIndex_less [of k] assms
  by (auto simp: ema_store.lookup_def ema_EvictKeys_def ema_RemovePeer_def model_cell_def)

theorem ema_forgets_witness:
  "model_cell (em_shards (ema_EvictKeys [''k''] (NewEMAPredictiveRouter (FFin 1))) ! shardIndex ''k'') ''k'' ''p''
     = (None, None, None)"
  using ema_forgets [of "NewEMAPredictiveRouter (FFin 1)" "[''k'']" "''k''" "''p''" "''q''"]
  by (simp add: NewEMAPredictiveRouter_def)

end
