(* ===== verification/Peer.thy ===== *)
theory Peer
  imports Gossip Redis_Pool
begin

text \<open>
  Token transfer between instances (\<^verbatim>\<open>internal/peer\<close>): the request check, the server that grants
  tokens out of the local bucket, the client call and the acquirer that probes the ranked peers
  one after the other or all at once. gRPC, its deadlines and the network are a parameter: the
  stub of a peer, over the world. The locale \<open>token_ledger\<close> states what the server relies on, the
  locale \<open>peer_rpc\<close> what the acquirer relies on; the limiter provides both.
\<close>

subsection \<open>Requests\<close>

record TransferRequest =
  tr_LimitKey :: string
  tr_Requested :: u64
  tr_OriginId :: string

definition ValidateTransferRequest :: "TransferRequest \<Rightarrow> err option" where
  "ValidateTransferRequest req =
     (if tr_LimitKey req = '''' then Some ''missing limit_key''
      else if tr_Requested req = 0 then Some ''requested must be > 0''
      else if tr_OriginId req = '''' then Some ''missing origin_id''
      else None)"

subsection \<open>The token server\<close>

datatype grpc_code = InvalidArgument | FailedPrecondition | Internal

type_synonym status = "grpc_code \<times> err"

record 's TokenServer =
  ts_instanceID :: string
  ts_tokenAccessor :: "(string \<Rightarrow> u64 \<Rightarrow> 's \<Rightarrow> (err + u64) \<times> 's) option"
  ts_tokenTransferer :: "(string \<Rightarrow> u64 \<Rightarrow> 's \<Rightarrow> (err + u64) \<times> 's) option"
  ts_gossipHandler :: "(string \<Rightarrow> (string, u64) gomap \<Rightarrow> (string, u64) gomap \<Rightarrow> 's \<Rightarrow> err option \<times> 's) option"

definition NewTokenServer :: "string \<Rightarrow> 's TokenServer" where
  "NewTokenServer instanceID = \<lparr>ts_instanceID = instanceID, ts_tokenAccessor = None,
     ts_tokenTransferer = None, ts_gossipHandler = None\<rparr>"

definition SetTokenAccessor :: "(string \<Rightarrow> u64 \<Rightarrow> 's \<Rightarrow> (err + u64) \<times> 's) \<Rightarrow> 's TokenServer \<Rightarrow> 's TokenServer" where
  "SetTokenAccessor fn S = S\<lparr>ts_tokenAccessor := Some fn\<rparr>"

definition SetTokenTransferer :: "(string \<Rightarrow> u64 \<Rightarrow> 's \<Rightarrow> (err + u64) \<times> 's) \<Rightarrow> 's TokenServer \<Rightarrow> 's TokenServer" where
  "SetTokenTransferer fn S = S\<lparr>ts_tokenTransferer := Some fn\<rparr>"

definition SetGossipHandler ::
    "(string \<Rightarrow> (string, u64) gomap \<Rightarrow> (string, u64) gomap \<Rightarrow> 's \<Rightarrow> err option \<times> 's) \<Rightarrow> 's TokenServer \<Rightarrow> 's TokenServer" where
  "SetGossipHandler fn S = S\<lparr>ts_gossipHandler := Some fn\<rparr>"

definition TransferTokens :: "'s TokenServer \<Rightarrow> TransferRequest \<Rightarrow> 's \<Rightarrow> (status + u64) \<times> 's" where
  "TransferTokens S req s =
     (case ValidateTransferRequest req of
        Some e \<Rightarrow> (Inl (InvalidArgument, e), s)
      | None \<Rightarrow>
          if tr_OriginId req = ts_instanceID S then (Inl (FailedPrecondition, ''cycle detected''), s)
          else (case (ts_tokenAccessor S, ts_tokenTransferer S) of
            (Some accessor, Some transferer) \<Rightarrow>
              (case accessor (tr_LimitKey req) (tr_Requested req) s of
                 (Inl e, s1) \<Rightarrow> (Inl (Internal, e), s1)
               | (Inr surplus, s1) \<Rightarrow>
                   if surplus = 0 then (Inr 0, s1)
                   else
                     let amt = (if surplus < tr_Requested req then surplus else tr_Requested req)
                     in (case transferer (tr_LimitKey req) amt s1 of
                          (Inl e, s2) \<Rightarrow> (Inl (Internal, e), s2)
                        | (Inr granted, s2) \<Rightarrow> (Inr granted, s2)))
          | _ \<Rightarrow> (Inl (Internal, ''token functions not configured''), s)))"

definition Ping :: "'s \<Rightarrow> unit \<times> 's" where
  "Ping s = ((), s)"

definition server_Gossip ::
    "'s TokenServer \<Rightarrow> string \<Rightarrow> (string, u64) gomap \<Rightarrow> (string, u64) gomap \<Rightarrow> 's \<Rightarrow> (status + unit) \<times> 's" where
  "server_Gossip S originID consumed borrowed s =
     (case ts_gossipHandler S of
        None \<Rightarrow> (Inr (), s)
      | Some h \<Rightarrow> (case h originID consumed borrowed s of
            (Some e, s') \<Rightarrow> (Inl (Internal, e), s')
          | (None, s') \<Rightarrow> (Inr (), s')))"

subsection \<open>What the server relies on\<close>

text \<open>
  A ledger of tokens per key: reading the surplus changes no stock, a transfer takes exactly what
  it reports, from its own key only, at most the amount asked for.
\<close>

locale token_ledger =
  fixes accessor :: "string \<Rightarrow> u64 \<Rightarrow> 's \<Rightarrow> (err + u64) \<times> 's"
    and transferer :: "string \<Rightarrow> u64 \<Rightarrow> 's \<Rightarrow> (err + u64) \<times> 's"
    and stock :: "'s \<Rightarrow> string \<Rightarrow> int" and ok :: "'s \<Rightarrow> bool"
  assumes accessor_keeps: "ok s \<Longrightarrow> accessor k n s = (r, s') \<Longrightarrow> ok s' \<and> stock s' = stock s"
    and transfer_takes: "ok s \<Longrightarrow> transferer k n s = (Inr g, s') \<Longrightarrow>
      ok s' \<and> uint g \<le> uint n \<and> uint g \<le> stock s k \<and> stock s' = (stock s)(k := stock s k - uint g)"
    and transfer_error: "ok s \<Longrightarrow> transferer k n s = (Inl e, s') \<Longrightarrow> ok s' \<and> stock s' = stock s"
begin

definition granted_amount :: "(status + u64) \<Rightarrow> int" where
  "granted_amount r = (case r of Inl e \<Rightarrow> 0 | Inr g \<Rightarrow> uint g)"

lemma TransferTokens_takes:
  assumes "ts_tokenAccessor S = Some accessor" "ts_tokenTransferer S = Some transferer"
    and "ok s" "TransferTokens S req s = (r, s')"
  defines "k \<equiv> tr_LimitKey req"
  shows "ok s' \<and> stock s' = (stock s)(k := stock s k - granted_amount r) \<and>
     granted_amount r \<le> uint (tr_Requested req) \<and> (granted_amount r = 0 \<or> granted_amount r \<le> stock s k)"
proof -
  obtain r1 s1 where a: "accessor k (tr_Requested req) s = (r1, s1)"
    by (cases "accessor k (tr_Requested req) s")
  note acc = accessor_keeps [OF assms(3) a]
  show ?thesis
  proof (cases "granted_amount r = 0 \<and> (s' = s \<or> s' = s1)")
    case True
    then show ?thesis using acc assms(3) by auto
  next
    case False
    then obtain amt where amt: "amt \<le> tr_Requested req"
      and t: "(\<exists>e s2. transferer k amt s1 = (Inl e, s2) \<and> granted_amount r = 0 \<and> s' = s2) \<or>
        (\<exists>g s2. transferer k amt s1 = (Inr g, s2) \<and> r = Inr g \<and> s' = s2)"
      using assms(1,2,4) a unfolding k_def
      by (auto simp: TransferTokens_def granted_amount_def Let_def
          split: option.splits if_splits sum.splits prod.splits; meson less_imp_le order_refl not_less)
    from t show ?thesis
    proof (elim disjE exE conjE)
      fix e s2
      assume "transferer k amt s1 = (Inl e, s2)" "granted_amount r = 0" "s' = s2"
      then show ?thesis using transfer_error [of s1] acc by auto
    next
      fix g s2
      assume "transferer k amt s1 = (Inr g, s2)" "r = Inr g" "s' = s2"
      then show ?thesis
        using transfer_takes [of s1 k amt g s2] acc amt by (auto simp: word_le_def granted_amount_def)
    qed
  qed
qed

end

subsection \<open>The client and the acquirer\<close>

definition RequestTokens ::
    "('c \<Rightarrow> TransferRequest \<Rightarrow> 'w \<Rightarrow> (err + u64) \<times> 'w) \<Rightarrow> 'c \<Rightarrow> string \<Rightarrow> string \<Rightarrow> u64 \<Rightarrow> 'w \<Rightarrow> (err + u64) \<times> 'w" where
  "RequestTokens stub client originID limitKey need w =
     stub client \<lparr>tr_LimitKey = limitKey, tr_Requested = need, tr_OriginId = originID\<rparr> w"

datatype ProbeMode = ProbeParallel | ProbeSequential

record Acquirer =
  acq_originID :: string
  acq_probeK :: int
  acq_mode :: ProbeMode

text \<open>The events reported to \<^verbatim>\<open>onProbeResult\<close>: key, peer and result.\<close>

type_synonym probe_report = "string \<times> string \<times> string"

definition probe ::
    "('c \<Rightarrow> TransferRequest \<Rightarrow> 'w \<Rightarrow> (err + u64) \<times> 'w) \<Rightarrow> (string \<Rightarrow> 'c option) \<Rightarrow> Acquirer \<Rightarrow> string \<Rightarrow> u64 \<Rightarrow>
     PeerEntry \<Rightarrow> 'w \<Rightarrow> (err + u64) \<times> probe_report list \<times> 'w" where
  "probe stub lookup a key need c w =
     (let peerID = pe_ID c; estimated = pe_Surplus c in
      case lookup peerID of
        None \<Rightarrow> (Inr 0, if 0 < estimated then [(key, peerID, ''stale'')] else [], w)
      | Some client \<Rightarrow>
          (case RequestTokens stub client (acq_originID a) key need w of
             (Inl e, w') \<Rightarrow> (Inl e, [(key, peerID, ''error'')], w')
           | (Inr granted, w') \<Rightarrow>
               if 0 < granted then (Inr granted, [(key, peerID, ''granted'')], w')
               else (Inr 0, [(key, peerID, if 0 < estimated then ''stale'' else ''exhausted'')], w')))"

fun probeSequential ::
    "('c \<Rightarrow> TransferRequest \<Rightarrow> 'w \<Rightarrow> (err + u64) \<times> 'w) \<Rightarrow> (string \<Rightarrow> 'c option) \<Rightarrow> ('w \<Rightarrow> err option) \<Rightarrow>
     Acquirer \<Rightarrow> string \<Rightarrow> u64 \<Rightarrow> PeerEntry list \<Rightarrow> 'w \<Rightarrow> (err + u64) \<times> probe_report list \<times> 'w" where
  "probeSequential stub lookup ctxErr a key need [] w = (Inr 0, [], w)"
| "probeSequential stub lookup ctxErr a key need (c # cs) w =
     (case ctxErr w of
        Some e \<Rightarrow> (Inl e, [], w)
      | None \<Rightarrow>
          let (r, rep, w1) = probe stub lookup a key need c w in
          (case r of
            Inr got \<Rightarrow>
              if 0 < got then (Inr got, rep, w1)
              else let (r', rep', w2) = probeSequential stub lookup ctxErr a key need cs w1 in (r', rep @ rep', w2)
          | Inl e \<Rightarrow>
              let (r', rep', w2) = probeSequential stub lookup ctxErr a key need cs w1 in (r', rep @ rep', w2)))"

text \<open>
  Parallel probing: every candidate is probed; \<open>order\<close> is the candidates in the order in which the
  peers serve them and their results arrive in the channel (any permutation), \<open>done\<close> the number of
  results after which the loop sees its context done (\<open>None\<close>: never). What the loop leaves in the
  channel the draining goroutine hands to \<^verbatim>\<open>onExtraTokens\<close>.
\<close>

fun run_probes ::
    "('c \<Rightarrow> TransferRequest \<Rightarrow> 'w \<Rightarrow> (err + u64) \<times> 'w) \<Rightarrow> (string \<Rightarrow> 'c option) \<Rightarrow>
     Acquirer \<Rightarrow> string \<Rightarrow> u64 \<Rightarrow> PeerEntry list \<Rightarrow> 'w \<Rightarrow> (err + u64) list \<times> probe_report list \<times> 'w" where
  "run_probes stub lookup a key need [] w = ([], [], w)"
| "run_probes stub lookup a key need (c # cs) w =
     (let (r, rep, w1) = probe stub lookup a key need c w;
          (rs, reps, w2) = run_probes stub lookup a key need cs w1
      in (r # rs, rep @ reps, w2))"

fun collect :: "nat option \<Rightarrow> err \<Rightarrow> (err + u64) list \<Rightarrow> (err + u64) \<times> (err + u64) list" where
  "collect ctx_done ctxErr [] = (Inr 0, [])"
| "collect ctx_done ctxErr (r # rs) =
     (if ctx_done = Some 0 then (Inl ctxErr, r # rs)
      else case r of
        Inr got \<Rightarrow> if 0 < got then (Inr got, rs) else collect (map_option (\<lambda>d. d - 1) ctx_done) ctxErr rs
      | Inl e \<Rightarrow> collect (map_option (\<lambda>d. d - 1) ctx_done) ctxErr rs)"

fun extra_tokens :: "(err + u64) list \<Rightarrow> u64 list" where
  "extra_tokens [] = []"
| "extra_tokens (Inr got # rs) = (if 0 < got then got # extra_tokens rs else extra_tokens rs)"
| "extra_tokens (Inl e # rs) = extra_tokens rs"

definition probeParallel ::
    "('c \<Rightarrow> TransferRequest \<Rightarrow> 'w \<Rightarrow> (err + u64) \<times> 'w) \<Rightarrow> (string \<Rightarrow> 'c option) \<Rightarrow>
     nat option \<Rightarrow> err \<Rightarrow> Acquirer \<Rightarrow> string \<Rightarrow> u64 \<Rightarrow> PeerEntry list \<Rightarrow> 'w
     \<Rightarrow> (err + u64) \<times> u64 list \<times> probe_report list \<times> 'w" where
  "probeParallel stub lookup ctx_done ctxErr a key need order w =
     (let (rs, reps, w') = run_probes stub lookup a key need order w;
          (r, rest) = collect ctx_done ctxErr rs
      in (r, extra_tokens rest, reps, w'))"

text \<open>
  The schedule of one call: the service order of the candidates, the moment the context is done,
  its error, and its state before each sequential probe.
\<close>

record 'w probe_schedule =
  sch_order :: "PeerEntry list \<Rightarrow> PeerEntry list"
  sch_done :: "nat option"
  sch_doneErr :: err
  sch_ctxErr :: "'w \<Rightarrow> err option"

definition acquire_body ::
    "('c \<Rightarrow> TransferRequest \<Rightarrow> 'w \<Rightarrow> (err + u64) \<times> 'w) \<Rightarrow> (string \<Rightarrow> 'c option) \<Rightarrow> 'w probe_schedule \<Rightarrow>
     (f64 \<Rightarrow> u64) \<Rightarrow> Gossiper \<Rightarrow> gtime \<Rightarrow> Acquirer \<Rightarrow> string \<Rightarrow> u64 \<Rightarrow> 'w
     \<Rightarrow> ((err + u64) \<times> u64 list \<times> probe_report list \<times> 'w) go" where
  "acquire_body stub lookup sch oor g now a key need w =
     go_bind (TopK oor (acq_probeK a) key now g) (\<lambda>cs.
       if cs = [] then Return (Inr 0, [], [], w)
       else case acq_mode a of
         ProbeParallel \<Rightarrow>
           Return (probeParallel stub lookup (sch_done sch) (sch_doneErr sch) a key need (sch_order sch cs) w)
       | ProbeSequential \<Rightarrow>
           let (r, rep, w') = probeSequential stub lookup (sch_ctxErr sch) a key need cs w
           in Return (r, [], rep, w'))"

text \<open>
  The leader's call of \<^verbatim>\<open>Acquire\<close>: \<open>onAcquire\<close> runs on its own state, the extra tokens are handed
  out for later delivery. A follower of the same flight gets \<open>acquirer_shared\<close> of the result.
\<close>

definition acquirer_shared :: "(err + u64) \<Rightarrow> err + u64" where
  "acquirer_shared r = (case r of Inl e \<Rightarrow> Inl e | Inr v \<Rightarrow> Inr v)"

definition acquirer_Acquire ::
    "('c \<Rightarrow> TransferRequest \<Rightarrow> 'w \<Rightarrow> (err + u64) \<times> 'w) \<Rightarrow> (string \<Rightarrow> 'c option) \<Rightarrow> 'w probe_schedule \<Rightarrow>
     (f64 \<Rightarrow> u64) \<Rightarrow> Gossiper \<Rightarrow> gtime \<Rightarrow> Acquirer \<Rightarrow> string \<Rightarrow> u64 \<Rightarrow> (u64 \<Rightarrow> 'b \<Rightarrow> 'b) \<Rightarrow> 'b \<Rightarrow> 'w
     \<Rightarrow> ((err + u64) \<times> u64 list \<times> probe_report list \<times> 'b \<times> 'w) go" where
  "acquirer_Acquire stub lookup sch oor g now a key need onAcquire b w =
     go_bind (acquire_body stub lookup sch oor g now a key need w) (\<lambda>(r, extras, reps, w').
       let b' = (case r of Inr granted \<Rightarrow> if 0 < granted then onAcquire granted b else b | Inl e \<Rightarrow> b)
       in Return (acquirer_shared r, extras, reps, b', w'))"

subsection \<open>What the acquirer relies on\<close>

text \<open>
  The tokens of one key delivered to this instance in replies so far: a reply delivers what it
  says and an error nothing.
\<close>

locale peer_rpc =
  fixes stub :: "'c \<Rightarrow> TransferRequest \<Rightarrow> 'w \<Rightarrow> (err + u64) \<times> 'w"
    and key :: string and delivered :: "'w \<Rightarrow> int" and wok :: "'w \<Rightarrow> bool"
  assumes reply: "wok w \<Longrightarrow> tr_LimitKey q = key \<Longrightarrow> stub c q w = (Inr g, w') \<Longrightarrow>
      wok w' \<and> delivered w' = delivered w + uint g"
    and no_reply: "wok w \<Longrightarrow> tr_LimitKey q = key \<Longrightarrow> stub c q w = (Inl e, w') \<Longrightarrow>
      wok w' \<and> delivered w' = delivered w"
begin

definition got :: "(err + u64) \<Rightarrow> int" where
  "got r = (case r of Inl e \<Rightarrow> 0 | Inr g \<Rightarrow> uint g)"

lemma probe_delivers:
  assumes "wok w" "probe stub lookup a key need c w = (r, rep, w')"
  shows "wok w' \<and> delivered w' = delivered w + got r"
proof (cases "lookup (pe_ID c)")
  case None
  then show ?thesis using assms by (auto simp: probe_def got_def Let_def)
next
  case (Some cl)
  let ?q = "\<lparr>tr_LimitKey = key, tr_Requested = need, tr_OriginId = acq_originID a\<rparr>"
  obtain r1 w1 where st: "stub cl ?q w = (r1, w1)" by (cases "stub cl ?q w")
  then have eq: "w' = w1" "got r = got r1"
    using assms(2) Some by (auto simp: probe_def RequestTokens_def got_def Let_def word_gt_0 split: sum.splits if_splits)
  show ?thesis
    using reply [OF assms(1), of ?q cl _ w1] no_reply [OF assms(1), of ?q cl _ w1] st
    unfolding eq by (cases r1) (auto simp: got_def)
qed

lemma probeSequential_delivers:
  assumes "wok w" "probeSequential stub lookup ctxErr a key need cs w = (r, rep, w')"
  shows "wok w' \<and> delivered w' = delivered w + got r"
  using assms
proof (induction cs arbitrary: w r rep w')
  case Nil
  then show ?case by (auto simp: got_def)
next
  case (Cons c cs)
  show ?case
  proof (cases "ctxErr w")
    case None
    obtain r1 rep1 w1 where p: "probe stub lookup a key need c w = (r1, rep1, w1)"
      by (cases "probe stub lookup a key need c w")
    note d = probe_delivers [OF Cons.prems(1) p]
    show ?thesis
    proof (cases "\<exists>g. r1 = Inr g \<and> 0 < g")
      case True
      then show ?thesis using Cons.prems None p d by auto
    next
      case False
      then obtain rep2 where "probeSequential stub lookup ctxErr a key need cs w1 = (r, rep2, w')"
        using Cons.prems None p by (auto simp: Let_def split: sum.splits prod.splits if_splits)
      from Cons.IH [OF _ this] show ?thesis
        using d False by (auto simp: got_def word_gt_0 split: sum.splits)
    qed
  qed (use Cons.prems in \<open>auto simp: got_def\<close>)
qed

lemma run_probes_delivers:
  assumes "wok w" "run_probes stub lookup a key need cs w = (rs, reps, w')"
  shows "wok w' \<and> delivered w' = delivered w + sum_list (map got rs)"
  using assms
proof (induction cs arbitrary: w rs reps w')
  case (Cons c cs)
  obtain r1 rep1 w1 where p: "probe stub lookup a key need c w = (r1, rep1, w1)"
    by (cases "probe stub lookup a key need c w")
  with Cons.prems obtain rs2 reps2 where q: "run_probes stub lookup a key need cs w1 = (rs2, reps2, w')" "rs = r1 # rs2"
    by (auto simp: Let_def split: prod.splits)
  show ?case using probe_delivers [OF Cons.prems(1) p] Cons.IH [OF _ q(1)] q(2) by auto
qed simp

lemma extra_tokens_sum: "sum_list (map uint (extra_tokens rs)) = sum_list (map got rs)"
  by (induction rs rule: extra_tokens.induct) (auto simp: got_def word_gt_0)

lemma collect_all:
  assumes "collect d e rs = (r, rest)"
  shows "sum_list (map got rs) = got r + sum_list (map got rest)"
  using assms
proof (induction rs arbitrary: d)
  case (Cons r1 rs)
  show ?case
  proof (cases "d = Some 0 \<or> (\<exists>g. r1 = Inr g \<and> 0 < g)")
    case True
    then show ?thesis using Cons.prems by (auto simp: got_def split: if_splits)
  next
    case False
    then have "collect (map_option (\<lambda>d. d - 1) d) e rs = (r, rest)" "got r1 = 0"
      using Cons.prems by (auto simp: got_def word_gt_0 split: sum.splits)
    from Cons.IH [OF this(1)] this(2) show ?thesis by (auto split: sum.splits)
  qed
qed (auto simp: got_def)

text \<open>
  Nothing is lost and nothing is invented: what the replies delivered is what \<^verbatim>\<open>onAcquire\<close> got plus
  the extra tokens, in both modes, in any order of arrival and wherever the context ends.
\<close>

lemma acquirer_Acquire_delivers:
  assumes "wok w"
    "acquirer_Acquire stub lookup sch oor g now a key need onAcquire b w = Return (r, extras, reps, b', w')"
  shows "wok w' \<and> delivered w' = delivered w + got r + sum_list (map uint extras) \<and>
    b' = (case r of Inl e \<Rightarrow> b | Inr n \<Rightarrow> if 0 < n then onAcquire n b else b)"
proof -
  obtain r0 where body: "acquire_body stub lookup sch oor g now a key need w = Return (r0, extras, reps, w')"
    and r: "r = acquirer_shared r0" and b': "b' = (case r0 of Inr n \<Rightarrow> if 0 < n then onAcquire n b else b | Inl e \<Rightarrow> b)"
    using assms(2) unfolding acquirer_Acquire_def
    by (cases "acquire_body stub lookup sch oor g now a key need w") (auto split: prod.splits)
  have r0: "r0 = r" using r by (auto simp: acquirer_shared_def split: sum.splits)
  obtain cs where "TopK oor (acq_probeK a) key now g = Return cs"
    using body unfolding acquire_body_def by (cases "TopK oor (acq_probeK a) key now g") auto
  note body = body [unfolded acquire_body_def this go_bind.simps r0]
  have "wok w' \<and> delivered w' = delivered w + got r + sum_list (map uint extras)"
  proof (cases "cs = []")
    case True
    then show ?thesis using body assms(1) by (auto simp: got_def)
  next
    case False
    show ?thesis
    proof (cases "acq_mode a")
      case ProbeSequential
      then obtain rep where "probeSequential stub lookup (sch_ctxErr sch) a key need cs w = (r, rep, w')"
        and "extras = []"
        using body False by (auto simp: Let_def split: prod.splits)
      then show ?thesis using probeSequential_delivers [OF assms(1)] by auto
    next
      case ProbeParallel
      obtain rs reps0 w0 where rs: "run_probes stub lookup a key need (sch_order sch cs) w = (rs, reps0, w0)"
        by (cases "run_probes stub lookup a key need (sch_order sch cs) w")
      obtain r1 rest where c: "collect (sch_done sch) (sch_doneErr sch) rs = (r1, rest)"
        by (cases "collect (sch_done sch) (sch_doneErr sch) rs")
      have eq: "r = r1" "extras = extra_tokens rest" "w' = w0"
        using body False ProbeParallel rs c by (auto simp: probeParallel_def)
      have n: "wok w0" "delivered w0 = delivered w + sum_list (map got rs)"
        using run_probes_delivers [OF assms(1) rs] by auto
      then show ?thesis
        using collect_all [OF c] n eq by (simp add: extra_tokens_sum)
    qed
  qed
  then show ?thesis using b' r0 by (auto split: sum.splits)
qed

end

end
