(* ===== verification/Options.thy ===== *)
theory Options
  imports Bucket Routing Peer
begin

text \<open>
  The configuration (\<^verbatim>\<open>options.go\<close>, \<^verbatim>\<open>New\<close> of \<^verbatim>\<open>krate.go\<close>): the record, its defaults and every
  option that sets data. The logger, the metrics registry, the clock and the router are objects:
  they are parameters of the limiter (its environment), not fields. The eviction policy is an
  interface: the built-in policy, or a user's one given by its \<^verbatim>\<open>ShouldEvict\<close> (policies are compared
  nowhere, so a function suffices).
\<close>

datatype EvictionPolicy = IdlePolicy IdleEvictionPolicy | CustomPolicy "bucket \<Rightarrow> i64 \<Rightarrow> bool"

fun policy_ShouldEvict :: "EvictionPolicy \<Rightarrow> bucket \<Rightarrow> i64 \<Rightarrow> bool" where
  "policy_ShouldEvict (IdlePolicy p) b nowMs = ShouldEvict p b nowMs"
| "policy_ShouldEvict (CustomPolicy f) b nowMs = f b nowMs"

datatype PeerStrategy = Highest | Random

record options =
  o_instanceID :: string
  o_window :: duration
  o_windowType :: WindowType
  o_limit :: u64
  o_minBorrow :: u64
  o_maxBorrow :: u64
  o_adaptiveBorrow :: bool
  o_emaAlpha :: f64
  o_leaseTTL :: duration
  o_peerListen :: string
  o_peerGRPCAddr :: string
  o_peerStrategy :: PeerStrategy
  o_probeK :: int
  o_probeTimeout :: duration
  o_probeMode :: ProbeMode
  o_gossipInterval :: duration
  o_gossipAddr :: string
  o_cmsWidth :: u32
  o_cmsDepth :: u32
  o_cmsSeed :: u64
  o_reservedMinimum :: f64
  o_heartbeatInterval :: duration
  o_heartbeatTimeout :: duration
  o_preBorrowThreshold :: f64
  o_preBorrowEnabled :: bool
  o_maxGossipKeys :: int
  o_gzipCompression :: bool
  o_evictionInterval :: duration
  o_idleTimeout :: duration
  o_evictionPolicy :: "EvictionPolicy option"

abbreviation second :: duration where "second \<equiv> 1000000000"
abbreviation millisecond :: duration where "millisecond \<equiv> 1000000"

text \<open>The decimal constants are rounded to \<^verbatim>\<open>float64\<close>, as the compiler does.\<close>

definition defaultOptions :: options where
  "defaultOptions =
     \<lparr>o_instanceID = '''', o_window = 60 * second, o_windowType = Fixed, o_limit = 10000,
      o_minBorrow = 100, o_maxBorrow = 1000, o_adaptiveBorrow = True, o_emaAlpha = rnd (3 / 10),
      o_leaseTTL = 30 * second,
      o_peerListen = '':7100'', o_peerGRPCAddr = '''', o_peerStrategy = Highest, o_probeK = 3, o_probeTimeout = 2 * millisecond, o_probeMode = ProbeParallel,
      o_gossipInterval = 100 * millisecond, o_gossipAddr = '''',
      o_cmsWidth = 256, o_cmsDepth = 4, o_cmsSeed = 42, o_reservedMinimum = rnd (1 / 10),
      o_heartbeatInterval = 1 * second, o_heartbeatTimeout = 5 * second,
      o_preBorrowThreshold = rnd (2 / 10), o_preBorrowEnabled = True, o_maxGossipKeys = 3000, o_gzipCompression = False,
      o_evictionInterval = 10 * second, o_idleTimeout = 60 * second,
      o_evictionPolicy = Some (IdlePolicy (NewIdleEvictionPolicy (60 * second)))\<rparr>"

definition WithInstanceID :: "string \<Rightarrow> options \<Rightarrow> options" where
  "WithInstanceID i o' = o'\<lparr>o_instanceID := i\<rparr>"

definition WithWindow :: "duration \<Rightarrow> options \<Rightarrow> options" where
  "WithWindow d o' = o'\<lparr>o_window := d\<rparr>"

definition WithWindowType :: "WindowType \<Rightarrow> options \<Rightarrow> options" where
  "WithWindowType wt o' = o'\<lparr>o_windowType := wt\<rparr>"

definition WithLimit :: "u64 \<Rightarrow> options \<Rightarrow> options" where
  "WithLimit n o' = o'\<lparr>o_limit := n\<rparr>"

definition WithMinBorrow :: "u64 \<Rightarrow> options \<Rightarrow> options" where
  "WithMinBorrow n o' = o'\<lparr>o_minBorrow := n\<rparr>"

definition WithMaxBorrow :: "u64 \<Rightarrow> options \<Rightarrow> options" where
  "WithMaxBorrow n o' = o'\<lparr>o_maxBorrow := n\<rparr>"

definition WithAdaptiveBorrow :: "bool \<Rightarrow> options \<Rightarrow> options" where
  "WithAdaptiveBorrow b o' = o'\<lparr>o_adaptiveBorrow := b\<rparr>"

definition WithEMAAlpha :: "f64 \<Rightarrow> options \<Rightarrow> options" where
  "WithEMAAlpha a o' = o'\<lparr>o_emaAlpha := a\<rparr>"

definition WithLeaseTTL :: "duration \<Rightarrow> options \<Rightarrow> options" where
  "WithLeaseTTL d o' = o'\<lparr>o_leaseTTL := d\<rparr>"

definition WithPeerListen :: "string \<Rightarrow> options \<Rightarrow> options" where
  "WithPeerListen addr o' = o'\<lparr>o_peerListen := addr\<rparr>"

definition WithPeerGRPCAddr :: "string \<Rightarrow> options \<Rightarrow> options" where
  "WithPeerGRPCAddr addr o' = o'\<lparr>o_peerGRPCAddr := addr\<rparr>"

definition WithPeerStrategy :: "PeerStrategy \<Rightarrow> options \<Rightarrow> options" where
  "WithPeerStrategy ps o' = o'\<lparr>o_peerStrategy := ps\<rparr>"

definition WithProbeK :: "int \<Rightarrow> options \<Rightarrow> options" where
  "WithProbeK k o' = o'\<lparr>o_probeK := k\<rparr>"

definition WithProbeTimeout :: "duration \<Rightarrow> options \<Rightarrow> options" where
  "WithProbeTimeout d o' = o'\<lparr>o_probeTimeout := d\<rparr>"

definition WithProbeMode :: "ProbeMode \<Rightarrow> options \<Rightarrow> options" where
  "WithProbeMode pm o' = o'\<lparr>o_probeMode := pm\<rparr>"

definition WithGossipInterval :: "duration \<Rightarrow> options \<Rightarrow> options" where
  "WithGossipInterval d o' = o'\<lparr>o_gossipInterval := d\<rparr>"

definition WithGossipAddr :: "string \<Rightarrow> options \<Rightarrow> options" where
  "WithGossipAddr addr o' = o'\<lparr>o_gossipAddr := addr\<rparr>"

definition WithCMSWidth :: "u32 \<Rightarrow> options \<Rightarrow> options" where
  "WithCMSWidth n o' = o'\<lparr>o_cmsWidth := n\<rparr>"

definition WithCMSDepth :: "u32 \<Rightarrow> options \<Rightarrow> options" where
  "WithCMSDepth d o' = o'\<lparr>o_cmsDepth := d\<rparr>"

definition WithCMSSeed :: "u64 \<Rightarrow> options \<Rightarrow> options" where
  "WithCMSSeed s o' = o'\<lparr>o_cmsSeed := s\<rparr>"

definition WithReservedMinimum :: "f64 \<Rightarrow> options \<Rightarrow> options" where
  "WithReservedMinimum f o' = o'\<lparr>o_reservedMinimum := f\<rparr>"

definition WithHeartbeatInterval :: "duration \<Rightarrow> options \<Rightarrow> options" where
  "WithHeartbeatInterval d o' = o'\<lparr>o_heartbeatInterval := d\<rparr>"

definition WithHeartbeatTimeout :: "duration \<Rightarrow> options \<Rightarrow> options" where
  "WithHeartbeatTimeout d o' = o'\<lparr>o_heartbeatTimeout := d\<rparr>"

definition WithPreBorrowEnabled :: "bool \<Rightarrow> options \<Rightarrow> options" where
  "WithPreBorrowEnabled b o' = o'\<lparr>o_preBorrowEnabled := b\<rparr>"

definition WithMaxGossipKeys :: "int \<Rightarrow> options \<Rightarrow> options" where
  "WithMaxGossipKeys n o' = o'\<lparr>o_maxGossipKeys := n\<rparr>"

definition WithGzipCompression :: "bool \<Rightarrow> options \<Rightarrow> options" where
  "WithGzipCompression b o' = o'\<lparr>o_gzipCompression := b\<rparr>"

definition WithEvictionInterval :: "duration \<Rightarrow> options \<Rightarrow> options" where
  "WithEvictionInterval d o' = o'\<lparr>o_evictionInterval := d\<rparr>"

definition WithPreBorrowThreshold :: "f64 \<Rightarrow> options \<Rightarrow> options" where
  "WithPreBorrowThreshold f o' =
     (let f1 = (if fleq f (FFin 0) then rnd (1 / 100) else f);
          f2 = (if fless (FFin 1) f1 then FFin 1 else f1)
      in o'\<lparr>o_preBorrowThreshold := f2\<rparr>)"

definition WithIdleTimeout :: "duration \<Rightarrow> options \<Rightarrow> options" where
  "WithIdleTimeout d o' =
     (let o1 = o'\<lparr>o_idleTimeout := d\<rparr>
      in case o_evictionPolicy o1 of
           Some (IdlePolicy ip) \<Rightarrow> o1\<lparr>o_evictionPolicy := Some (IdlePolicy (ip\<lparr>idleTimeout := d\<rparr>))\<rparr>
         | _ \<Rightarrow> o1)"

definition WithEvictionPolicy :: "EvictionPolicy option \<Rightarrow> options \<Rightarrow> options" where
  "WithEvictionPolicy p o' = o'\<lparr>o_evictionPolicy := p\<rparr>"

text \<open>\<^verbatim>\<open>New\<close> applies the options in order to the defaults; an empty identifier gets a generated one.\<close>

definition apply_options :: "string \<Rightarrow> (options \<Rightarrow> options) list \<Rightarrow> options" where
  "apply_options generated opts =
     (let o' = fold (\<lambda>opt o'. opt o') opts defaultOptions
      in if o_instanceID o' = '''' then o'\<lparr>o_instanceID := generated\<rparr> else o')"

end
