(* ===== verification/Adaptive.thy ===== *)
theory Adaptive
  imports Go_Float
begin

text \<open>
  The adaptive borrow sizer (\<^verbatim>\<open>internal/borrow/adaptive.go\<close>): an exponential moving average of the
  recorded amounts, from which the next borrow size is computed and clamped.
\<close>

record AdaptiveSizer =
  emaRate :: f64
  as_alpha :: f64
  minBorrow :: u64
  maxBorrow :: u64
  refillSec :: f64
  enabled :: bool
  hasData :: bool

definition NewAdaptiveSizer ::
    "f64 \<Rightarrow> u64 \<Rightarrow> u64 \<Rightarrow> duration \<Rightarrow> bool \<Rightarrow> AdaptiveSizer" where
  "NewAdaptiveSizer a minB maxB refillInterval en =
     \<lparr>emaRate = FFin 0, as_alpha = a, minBorrow = minB, maxBorrow = maxB,
      refillSec = Seconds refillInterval, enabled = en, hasData = False\<rparr>"

definition Record :: "u64 \<Rightarrow> AdaptiveSizer \<Rightarrow> AdaptiveSizer" where
  "Record amt s = s\<lparr>
     emaRate := fadd (fmul (as_alpha s) (f64_of_u64 amt)) (fmul (fsub (FFin 1) (as_alpha s)) (emaRate s)),
     hasData := True\<rparr>"

definition ComputeBorrowSize :: "(f64 \<Rightarrow> u64) \<Rightarrow> AdaptiveSizer \<Rightarrow> u64" where
  "ComputeBorrowSize oor s =
     (if \<not> enabled s \<or> \<not> hasData s then maxBorrow s
      else let target = fmul (fmul (emaRate s) (refillSec s)) (FFin 2);
               result = u64_of_f64 oor (math_Round target)
           in if result < minBorrow s then minBorrow s
              else if maxBorrow s < result then maxBorrow s
              else result)"

definition sizer_Reset :: "AdaptiveSizer \<Rightarrow> AdaptiveSizer" where
  "sizer_Reset s = s\<lparr>emaRate := FFin 0, hasData := False\<rparr>"

definition CurrentRate :: "AdaptiveSizer \<Rightarrow> f64" where
  "CurrentRate s = emaRate s"

lemma Record_config [simp]:
  "minBorrow (Record n s) = minBorrow s" "maxBorrow (Record n s) = maxBorrow s"
  "enabled (Record n s) = enabled s" "as_alpha (Record n s) = as_alpha s"
  "refillSec (Record n s) = refillSec s" "hasData (Record n s)"
  by (simp_all add: Record_def)

lemma ComputeBorrowSize_le_max:
  "minBorrow s \<le> maxBorrow s \<Longrightarrow> ComputeBorrowSize oor s \<le> maxBorrow s"
  by (auto simp: ComputeBorrowSize_def Let_def)

text \<open>
  C29. Whatever was recorded, and whatever the platform makes of a float that does not fit
  \<^verbatim>\<open>uint64\<close>, the computed borrow size lies between the configured minimum and maximum; before
  the first record it is the maximum.
\<close>

theorem ComputeBorrowSize_bounds:
  assumes "minB \<le> maxB"
  shows "minB \<le> ComputeBorrowSize oor (fold Record ns (NewAdaptiveSizer a minB maxB iv en)) \<and>
         ComputeBorrowSize oor (fold Record ns (NewAdaptiveSizer a minB maxB iv en)) \<le> maxB \<and>
         ComputeBorrowSize oor (NewAdaptiveSizer a minB maxB iv en) = maxB"
proof -
  have conf: "minBorrow (fold Record ns s) = minBorrow s" "maxBorrow (fold Record ns s) = maxBorrow s" for s
    by (induction ns arbitrary: s) auto
  have "minBorrow s \<le> maxBorrow s \<Longrightarrow> minBorrow s \<le> ComputeBorrowSize oor s" for s
    by (auto simp: ComputeBorrowSize_def Let_def)
  from this [of "fold Record ns (NewAdaptiveSizer a minB maxB iv en)"]
    ComputeBorrowSize_le_max [of "fold Record ns (NewAdaptiveSizer a minB maxB iv en)" oor]
  show ?thesis
    using assms by (simp add: conf) (simp add: NewAdaptiveSizer_def ComputeBorrowSize_def)
qed

theorem ComputeBorrowSize_bounds_witness:
  "(100 :: u64) \<le> ComputeBorrowSize (\<lambda>_. 0) (fold Record [7, 9] (NewAdaptiveSizer (FFin (1 / 2)) 100 1000 60000000000 True))"
  using ComputeBorrowSize_bounds [of 100 1000 "\<lambda>_. 0" "[7, 9]" "FFin (1 / 2)" 60000000000 True]
  by simp

end
