(* ===== verification/Borrow_Manager.thy ===== *)
theory Borrow_Manager
  imports Sharding Adaptive Redis_Pool
begin

text \<open>
  The borrow manager (\<^verbatim>\<open>internal/borrow/manager.go\<close>): borrows segments from the pool, sized by the
  adaptive sizer, and tracks per key how much this instance has borrowed under a lease. The
  per-key state lives in 64 shards.

  \<^verbatim>\<open>Acquire\<close> runs its body inside \<^verbatim>\<open>singleflight\<close>: the leader of a flight runs it
  (\<open>acquire_flight\<close>) and every caller of the flight then runs the tail (\<open>acquire_finish\<close>) on the
  shared result. \<open>Acquire\<close> is the leader's call, \<open>Acquire_shared\<close> a follower's. The manager's
  clock is the real clock (\<^verbatim>\<open>newLimiter\<close> passes none): an argument \<open>clk\<close> over the world. The
  callback \<^verbatim>\<open>onBorrow\<close> is a function over the caller's own state.
\<close>

record keyState =
  ks_borrowed :: u64
  ks_lastBorrow :: gtime

record BorrowManager =
  bm_sizer :: AdaptiveSizer
  bm_instanceID :: string
  bm_leaseTTL :: duration
  bm_leaseTTLms :: i64
  bm_shards :: "(string, keyState) gomap list"

definition NewBorrowManager :: "string \<Rightarrow> AdaptiveSizer \<Rightarrow> duration \<Rightarrow> BorrowManager" where
  "NewBorrowManager instanceID sizer leaseTTL =
     \<lparr>bm_sizer = sizer, bm_instanceID = instanceID, bm_leaseTTL = leaseTTL,
      bm_leaseTTLms = Milliseconds leaseTTL, bm_shards = replicate shardCount []\<rparr>"

definition lease_expired :: "duration \<Rightarrow> gtime \<Rightarrow> keyState \<Rightarrow> bool" where
  "lease_expired ttl now ks \<longleftrightarrow> 0 < ks_borrowed ks \<and> sint ttl < sint (time_sub now (ks_lastBorrow ks))"

text \<open>The bookkeeping of a grant, under the shard's lock; the clock is read at most twice.\<close>

definition record_grant ::
    "('w \<Rightarrow> gtime \<times> 'w) \<Rightarrow> string \<Rightarrow> u64 \<Rightarrow> BorrowManager \<Rightarrow> 'w \<Rightarrow> BorrowManager \<times> 'w" where
  "record_grant clk key granted m w =
     (let shardIdx = shardIndex key;
          shard = bm_shards m ! shardIdx;
          (ks, w1) = (case map_of shard key of
              None \<Rightarrow> (\<lparr>ks_borrowed = 0, ks_lastBorrow = zero_time\<rparr>, w)
            | Some ks \<Rightarrow>
                if 0 < ks_borrowed ks
                then let (t, w1) = clk w
                     in (if sint (bm_leaseTTL m) < sint (time_sub t (ks_lastBorrow ks))
                         then ks\<lparr>ks_borrowed := 0\<rparr> else ks, w1)
                else (ks, w));
          (t2, w2) = clk w1;
          ks' = ks\<lparr>ks_borrowed := ks_borrowed ks + granted, ks_lastBorrow := t2\<rparr>
      in (m\<lparr>bm_shards := (bm_shards m)[shardIdx := AList.update key ks' shard]\<rparr>, w2))"

definition acquire_flight ::
    "(f64 \<Rightarrow> u64) \<Rightarrow> 'w redis_client \<Rightarrow> ('w \<Rightarrow> gtime \<times> 'w) \<Rightarrow> string \<Rightarrow> u64 \<Rightarrow> (u64 \<Rightarrow> 'b \<Rightarrow> 'b) \<Rightarrow>
     BorrowManager \<Rightarrow> 'b \<Rightarrow> 'w \<Rightarrow> (err + u64) \<times> BorrowManager \<times> 'b \<times> 'w" where
  "acquire_flight oor C clk key need onBorrow m b w =
     (let size0 = ComputeBorrowSize oor (bm_sizer m);
          borrowSize = (if size0 < need then need else size0);
          (t, w0) = clk w;
          (r, w1) = pool_Borrow C key (bm_instanceID m) borrowSize (bm_leaseTTLms m) t w0
      in case r of
           Inl e \<Rightarrow> (Inl e, m, b, w1)
         | Inr granted \<Rightarrow>
             if 0 < granted
             then let b' = onBorrow granted b;
                      (m', w2) = record_grant clk key granted m w1
                  in (Inr granted, m', b', w2)
             else (Inr granted, m, b, w1))"

definition acquire_finish :: "(err + u64) \<Rightarrow> BorrowManager \<Rightarrow> (err + u64) \<times> BorrowManager" where
  "acquire_finish r m =
     (case r of
        Inl e \<Rightarrow> (Inl e, m)
      | Inr granted \<Rightarrow>
          if granted = 0 then (Inr 0, m)
          else (Inr granted, m\<lparr>bm_sizer := Record granted (bm_sizer m)\<rparr>))"

definition Acquire ::
    "(f64 \<Rightarrow> u64) \<Rightarrow> 'w redis_client \<Rightarrow> ('w \<Rightarrow> gtime \<times> 'w) \<Rightarrow> string \<Rightarrow> u64 \<Rightarrow> (u64 \<Rightarrow> 'b \<Rightarrow> 'b) \<Rightarrow>
     BorrowManager \<Rightarrow> 'b \<Rightarrow> 'w \<Rightarrow> (err + u64) \<times> BorrowManager \<times> 'b \<times> 'w" where
  "Acquire oor C clk key need onBorrow m b w =
     (let (v, m1, b', w') = acquire_flight oor C clk key need onBorrow m b w;
          (r, m') = acquire_finish v m1
      in (r, m', b', w'))"

definition Acquire_shared :: "(err + u64) \<Rightarrow> BorrowManager \<Rightarrow> (err + u64) \<times> BorrowManager" where
  "Acquire_shared v m = acquire_finish v m"

definition RecordConsumption :: "string \<Rightarrow> u64 \<Rightarrow> BorrowManager \<Rightarrow> BorrowManager" where
  "RecordConsumption key n m = m\<lparr>bm_sizer := Record n (bm_sizer m)\<rparr>"

definition Borrowed :: "('w \<Rightarrow> gtime \<times> 'w) \<Rightarrow> string \<Rightarrow> BorrowManager \<Rightarrow> 'w \<Rightarrow> u64 \<times> BorrowManager \<times> 'w" where
  "Borrowed clk key m w =
     (let shardIdx = shardIndex key; shard = bm_shards m ! shardIdx
      in case map_of shard key of
           None \<Rightarrow> (0, m, w)
         | Some ks \<Rightarrow>
             if 0 < ks_borrowed ks
             then let (t, w') = clk w
                  in if sint (bm_leaseTTL m) < sint (time_sub t (ks_lastBorrow ks))
                     then (0, m\<lparr>bm_shards := (bm_shards m)[shardIdx := AList.delete key shard]\<rparr>, w')
                     else (ks_borrowed ks, m, w')
             else (ks_borrowed ks, m, w))"

definition live_shard :: "duration \<Rightarrow> gtime \<Rightarrow> (string, keyState) gomap \<Rightarrow> (string, keyState) gomap" where
  "live_shard ttl now shard = filter (\<lambda>(k, ks). \<not> lease_expired ttl now ks) shard"

definition active_of :: "(string, keyState) gomap \<Rightarrow> (string \<times> u64) list" where
  "active_of shard = map (\<lambda>(k, ks). (k, ks_borrowed ks)) (filter (\<lambda>(k, ks). 0 < ks_borrowed ks) shard)"

definition AllBorrowed :: "int \<Rightarrow> gtime \<Rightarrow> BorrowManager \<Rightarrow> (string, u64) gomap \<times> BorrowManager" where
  "AllBorrowed maxKeys now m =
     (let shards' = map (live_shard (bm_leaseTTL m) now) (bm_shards m);
          active = concat (map active_of shards');
          active' = (if 0 < maxKeys \<and> maxKeys < int (length active)
                     then take (nat maxKeys) (sort_desc snd active) else active);
          out = fold (\<lambda>(k, v) o'. AList.update k v o') active' []
      in (out, m\<lparr>bm_shards := shards'\<rparr>))"

definition bm_Reset :: "string \<Rightarrow> BorrowManager \<Rightarrow> BorrowManager" where
  "bm_Reset key m =
     (let shardIdx = shardIndex key; shard = bm_shards m ! shardIdx
      in case map_of shard key of
           None \<Rightarrow> m
         | Some ks \<Rightarrow> m\<lparr>bm_shards := (bm_shards m)[shardIdx := AList.update key (ks\<lparr>ks_borrowed := 0\<rparr>) shard]\<rparr>)"

definition bm_EvictKeys :: "string list \<Rightarrow> BorrowManager \<Rightarrow> BorrowManager" where
  "bm_EvictKeys ks m =
     m\<lparr>bm_shards := visit_groups AList.delete (group_keys shardIndex shardCount ks) (bm_shards m)\<rparr>"

subsection \<open>The flat view of the shards\<close>

abbreviation bm_ok :: "BorrowManager \<Rightarrow> bool" where
  "bm_ok m \<equiv> shards_ok shardIndex shardCount (bm_shards m)"

abbreviation key_state :: "BorrowManager \<Rightarrow> string \<Rightarrow> keyState option" where
  "key_state m k \<equiv> map_of (bm_shards m ! shardIndex k) k"

definition live_amount :: "duration \<Rightarrow> gtime \<Rightarrow> keyState option \<Rightarrow> u64" where
  "live_amount ttl t x = (case x of None \<Rightarrow> 0 | Some ks \<Rightarrow> if lease_expired ttl t ks then 0 else ks_borrowed ks)"

lemma bm_ok_new [simp]: "bm_ok (NewBorrowManager i s t)"
  by (simp add: NewBorrowManager_def)

lemma record_grant_eq:
  fixes m :: BorrowManager and key :: string
  defines "w1 clk w \<equiv> (case key_state m key of None \<Rightarrow> w | Some ks \<Rightarrow> if 0 < ks_borrowed ks then snd (clk w) else w)"
  shows "record_grant clk key g m w =
     (m\<lparr>bm_shards := (bm_shards m)[shardIndex key := AList.update key
          \<lparr>ks_borrowed = live_amount (bm_leaseTTL m) (fst (clk w)) (key_state m key) + g,
           ks_lastBorrow = fst (clk (w1 clk w))\<rparr> (bm_shards m ! shardIndex key)]\<rparr>, snd (clk (w1 clk w)))"
proof (cases "key_state m key")
  case None
  then show ?thesis by (simp add: record_grant_def Let_def split_beta live_amount_def w1_def)
next
  case (Some ks)
  then show ?thesis
    by (cases ks) (simp add: record_grant_def Let_def split_beta live_amount_def lease_expired_def w1_def)
qed

lemma record_grant_spec:
  assumes "bm_ok m" "record_grant clk key g m w = (m', w')"
  shows "bm_ok m'"
    and "\<exists>t t2. key_state m' = (key_state m)
           (key \<mapsto> \<lparr>ks_borrowed = live_amount (bm_leaseTTL m) t (key_state m key) + g, ks_lastBorrow = t2\<rparr>)"
    and "bm_sizer m' = bm_sizer m" "bm_instanceID m' = bm_instanceID m"
      "bm_leaseTTL m' = bm_leaseTTL m" "bm_leaseTTLms m' = bm_leaseTTLms m"
  using assms unfolding record_grant_eq
  by (auto simp: fnv.shards_ok_update fnv.lookup_update fun_eq_iff)

lemma Acquire_spec:
  assumes "bm_ok m" "Acquire oor C clk key need onBorrow m b w = (r, m', b', w')"
  shows "bm_ok m' \<and>
    (case r of
       Inl e \<Rightarrow> m' = m \<and> b' = b
     | Inr g \<Rightarrow>
         if g = 0 then m' = m \<and> b' = b
         else b' = onBorrow g b \<and> bm_sizer m' = Record g (bm_sizer m) \<and>
              (\<exists>t t2. key_state m' = (key_state m)
                 (key \<mapsto> \<lparr>ks_borrowed = live_amount (bm_leaseTTL m) t (key_state m key) + g,
                         ks_lastBorrow = t2\<rparr>)))"
proof -
  obtain v m1 b1 w1 where fl: "acquire_flight oor C clk key need onBorrow m b w = (v, m1, b1, w1)"
    by (cases "acquire_flight oor C clk key need onBorrow m b w")
  with assms(2) have fin: "acquire_finish v m1 = (r, m')" "b1 = b'" "w1 = w'"
    by (auto simp: Acquire_def split_beta)
  show ?thesis
  proof (cases v)
    case (Inl e)
    with fl have "m1 = m" "b1 = b"
      by (auto simp: acquire_flight_def Let_def split_beta split: sum.splits if_splits)
    with fin Inl assms(1) show ?thesis by (auto simp: acquire_finish_def)
  next
    case (Inr g)
    show ?thesis
    proof (cases "g = 0")
      case True
      with fl Inr have "m1 = m" "b1 = b"
        by (auto simp: acquire_flight_def Let_def split_beta split: sum.splits if_splits)
      with fin Inr True assms(1) show ?thesis by (auto simp: acquire_finish_def)
    next
      case False
      then have "0 < g" by (simp add: word_gt_0)
      with fl Inr obtain w0 where rg: "record_grant clk key g m w0 = (m1, w1)" and "b1 = onBorrow g b"
        by (auto simp: acquire_flight_def Let_def split_beta split: sum.splits if_splits)
      note spec = record_grant_spec [OF assms(1) rg]
      from fin Inr False have "r = Inr g" "m' = m1\<lparr>bm_sizer := Record g (bm_sizer m1)\<rparr>"
        by (auto simp: acquire_finish_def)
      with spec False fin \<open>b1 = onBorrow g b\<close> show ?thesis by simp
    qed
  qed
qed


definition demo_manager :: BorrowManager where
  "demo_manager = NewBorrowManager ''i1'' (NewAdaptiveSizer (FFin 0) 10 30 60000000000 False) 30000000000"

lemma demo_borrow:
  "fst (pool_Borrow mem_client ''k'' ''i1'' 30 30000 0 [PoolKey ''k'' \<mapsto> 20]) = Inr 20"
  by (simp add: pool_Borrow_def runScript_def mem_client_def mem_exec_def borrowLua_def Let_def
      split_beta toUint64_def mem_cmds_def mem_get_def)


subsection \<open>Reading, resetting and evicting\<close>

lemma Reset_ok: "bm_ok m \<Longrightarrow> bm_ok (bm_Reset key m)"
  by (auto simp: bm_Reset_def Let_def fnv.shards_ok_update split: option.splits)

lemma EvictKeys_ok: "bm_ok m \<Longrightarrow> bm_ok (bm_EvictKeys ks m)"
  by (simp add: bm_EvictKeys_def fnv.shards_ok_evict)

lemma EvictKeys_lookup:
  assumes "bm_ok m"
  shows "key_state (bm_EvictKeys ks m) k = (if k \<in> set ks then None else key_state m k)"
  using fnv_map.lookup_evict [of "bm_shards m" ks k] shards_okD(1) [OF assms]
  by (simp add: bm_EvictKeys_def fnv_map.lookup_def)

lemma Borrowed_spec:
  assumes "bm_ok m" "Borrowed clk key m w = (v, m', w')"
  shows "bm_ok m' \<and> v = live_amount (bm_leaseTTL m) (fst (clk w)) (key_state m key) \<and>
         key_state m' = (if \<exists>ks. key_state m key = Some ks \<and> lease_expired (bm_leaseTTL m) (fst (clk w)) ks
                         then (key_state m)(key := None) else key_state m)"
  using assms
  by (auto simp: Borrowed_def Let_def split_beta live_amount_def lease_expired_def
      fnv.shards_ok_delete fnv.lookup_delete fun_eq_iff split: option.splits if_splits)

text \<open>
  Resetting a key sets its borrowed amount to 0 and touches no other key; evicting a batch of
  keys, shard by shard, forgets exactly those keys.
\<close>

theorem Reset_and_EvictKeys:
  assumes "bm_ok m"
  shows "bm_ok (bm_Reset key m) \<and> bm_ok (bm_EvictKeys ks m) \<and>
         key_state (bm_Reset key m) k
           = (if k = key then map_option (\<lambda>s. s\<lparr>ks_borrowed := 0\<rparr>) (key_state m k) else key_state m k) \<and>
         key_state (bm_EvictKeys ks m) k = (if k \<in> set ks then None else key_state m k)"
  using assms
  by (auto simp: Reset_ok EvictKeys_ok EvictKeys_lookup)
     (auto simp: bm_Reset_def Let_def fnv.lookup_update split: option.splits)

definition demo_booked :: BorrowManager where
  "demo_booked = demo_manager\<lparr>bm_shards := (replicate shardCount [])
     [shardIndex ''k'' := [(''k'', \<lparr>ks_borrowed = 3, ks_lastBorrow = 0\<rparr>)]]\<rparr>"

lemma demo_booked_ok: "bm_ok demo_booked"
  using fnv.shards_ok_update [OF fnv.shards_ok_new, of "''k''" "\<lparr>ks_borrowed = 3, ks_lastBorrow = 0\<rparr>"]
    shardIndex_less [of "''k''"] by (simp add: demo_booked_def)

theorem Reset_and_EvictKeys_witness: "key_state (bm_EvictKeys [''k''] demo_booked) ''k'' = None"
  using Reset_and_EvictKeys [OF demo_booked_ok, of "''k''" "[''k'']" "''k''"] by simp

subsection \<open>The borrowed amounts to gossip\<close>

definition live_borrowed :: "gtime \<Rightarrow> BorrowManager \<Rightarrow> string \<Rightarrow> u64 option" where
  "live_borrowed now m k = (case key_state m k of
     Some ks \<Rightarrow> if 0 < ks_borrowed ks \<and> \<not> lease_expired (bm_leaseTTL m) now ks then Some (ks_borrowed ks) else None
   | None \<Rightarrow> None)"

lemma active_concat:
  "concat (map active_of (map (live_shard ttl now) S)) =
   map (\<lambda>(k, ks). (k, ks_borrowed ks))
     (filter (\<lambda>(k, ks). 0 < ks_borrowed ks \<and> \<not> lease_expired ttl now ks) (concat S))"
  by (induction S) (simp_all add: active_of_def live_shard_def split_beta filter_map conj_commute)

lemma active_ok:
  fixes now :: gtime
  assumes "bm_ok m"
  defines "active \<equiv> concat (map active_of (map (live_shard (bm_leaseTTL m) now) (bm_shards m)))"
  shows "gomap_ok active" and "\<And>k v. (k, v) \<in> set active \<longleftrightarrow> live_borrowed now m k = Some v"
proof -
  have "gomap_ok (concat (bm_shards m))" using assms(1) by (rule fnv.concat_gomap_ok)
  then show "gomap_ok active"
    unfolding active_def active_concat by (simp add: comp_def split_beta distinct_map_filter)
  show "(k, v) \<in> set active \<longleftrightarrow> live_borrowed now m k = Some v" for k v
  proof -
    have "(k, v) \<in> set active \<longleftrightarrow> (\<exists>ks. (k, ks) \<in> set (concat (bm_shards m)) \<and> v = ks_borrowed ks \<and>
            0 < ks_borrowed ks \<and> \<not> lease_expired (bm_leaseTTL m) now ks)"
      unfolding active_def active_concat by (auto simp del: set_concat)
    also have "\<dots> \<longleftrightarrow> live_borrowed now m k = Some v"
      unfolding fnv.concat_mem_iff [OF assms(1)] live_borrowed_def by (auto split: option.splits)
    finally show ?thesis .
  qed
qed

text \<open>Cutting a list sorted in descending order keeps the largest values.\<close>

lemma top_n_omitted:
  assumes "(k, v) \<in> set xs" "map_of (take n (sort_desc snd xs)) k = None"
    "(k', v') \<in> set (take n (sort_desc snd xs))"
  shows "v \<le> v'"
proof -
  have "(k, v) \<in> set (take n (sort_desc snd xs)) \<union> set (drop n (sort_desc snd xs))"
    using assms(1) by (metis append_take_drop_id set_append set_sort_desc)
  moreover have "(k, v) \<notin> set (take n (sort_desc snd xs))"
    using assms(2) by (force simp: map_of_eq_None_iff)
  ultimately show ?thesis
    using desc_take_drop [OF desc_sort_desc assms(3)] by auto
qed

text \<open>
  The map prepared for gossip holds only live borrowed amounts with their current values, at
  most \<^verbatim>\<open>maxKeys\<close> of them when a maximum is set, and it is a top-N: an amount left out is no larger
  than any amount kept, and is left out only when the map is full. Expired leases are dropped
  from the manager and nothing else changes.
\<close>

theorem AllBorrowed_top:
  assumes "bm_ok m" "AllBorrowed maxKeys now m = (out, m')"
  shows "gomap_ok out \<and>
     (\<forall>k v. map_of out k = Some v \<longrightarrow> live_borrowed now m k = Some v) \<and>
     (0 < maxKeys \<longrightarrow> int (length out) \<le> maxKeys) \<and>
     (\<forall>k v. live_borrowed now m k = Some v \<and> map_of out k = None \<longrightarrow>
        0 < maxKeys \<and> int (length out) = maxKeys \<and> (\<forall>k' v'. map_of out k' = Some v' \<longrightarrow> v \<le> v')) \<and>
     bm_ok m' \<and>
     key_state m' k = (case key_state m k of None \<Rightarrow> None
        | Some ks \<Rightarrow> if lease_expired (bm_leaseTTL m) now ks then None else Some ks)"
proof -
  define active where "active = concat (map active_of (map (live_shard (bm_leaseTTL m) now) (bm_shards m)))"
  note act = active_ok [OF assms(1), where now = now, folded active_def]
  define kept where "kept = (if 0 < maxKeys \<and> maxKeys < int (length active)
                     then take (nat maxKeys) (sort_desc snd active) else active)"
  have "gomap_ok kept"
    using act(1) by (simp add: kept_def flip: take_map)
  then have out: "out = kept"
    using assms(2) fold_update_fresh [of "[]" kept]
    by (auto simp: AllBorrowed_def active_def kept_def Let_def)
  have m': "m' = m\<lparr>bm_shards := map (live_shard (bm_leaseTTL m) now) (bm_shards m)\<rparr>"
    using assms(2) by (auto simp: AllBorrowed_def Let_def)
  have lk: "map_of out k = Some v \<longleftrightarrow> (k, v) \<in> set kept" for k v
    using \<open>gomap_ok kept\<close> out by (simp add: map_of_mem_iff)
  have sub: "set kept \<subseteq> set active"
    using set_take_subset [of "nat maxKeys" "sort_desc snd active"] by (auto simp: kept_def)
  have omitted: "0 < maxKeys \<and> int (length kept) = maxKeys \<and> (\<forall>k' v'. (k', v') \<in> set kept \<longrightarrow> v \<le> v')"
    if "(k, v) \<in> set active" "map_of kept k = None" for k v
  proof -
    have cut: "0 < maxKeys \<and> maxKeys < int (length active)"
      using that \<open>gomap_ok kept\<close> by (force simp: kept_def map_of_eq_None_iff split: if_splits)
    have "length (sort_desc snd active) = length active" by (metis mset_sort_desc size_mset)
    with cut have "int (length kept) = maxKeys" by (auto simp: kept_def min_def)
    with cut top_n_omitted [OF that(1)] that(2) show ?thesis by (auto simp: kept_def)
  qed
  have live: "map (live_shard (bm_leaseTTL m) now) (bm_shards m)
              = map (filter (\<lambda>(k, ks). \<not> lease_expired (bm_leaseTTL m) now ks)) (bm_shards m)"
    by (simp add: live_shard_def)
  show ?thesis
  proof (intro conjI)
    show "0 < maxKeys \<longrightarrow> int (length out) \<le> maxKeys" by (auto simp: out kept_def)
    show "\<forall>k v. map_of out k = Some v \<longrightarrow> live_borrowed now m k = Some v"
      using lk sub act(2) by blast
    show "\<forall>k v. live_borrowed now m k = Some v \<and> map_of out k = None \<longrightarrow>
        0 < maxKeys \<and> int (length out) = maxKeys \<and> (\<forall>k' v'. map_of out k' = Some v' \<longrightarrow> v \<le> v')"
      using omitted act(2) lk out by blast
    show "bm_ok m'" unfolding m' live using assms(1) by (simp add: fnv.shards_ok_filter)
    show "key_state m' k = (case key_state m k of None \<Rightarrow> None
        | Some ks \<Rightarrow> if lease_expired (bm_leaseTTL m) now ks then None else Some ks)"
      unfolding m' live using fnv.lookup_filter [OF assms(1)] by (simp split: option.splits)
  qed (use \<open>gomap_ok kept\<close> out in simp)
qed

theorem AllBorrowed_top_witness:
  "\<exists>out m'. AllBorrowed 1 0 demo_booked = (out, m') \<and> int (length out) \<le> 1 \<and>
     (map_of out ''k'' = Some 3 \<or> map_of out ''k'' = None)"
proof -
  obtain out m' where a: "AllBorrowed 1 0 demo_booked = (out, m')"
    by (cases "AllBorrowed 1 0 demo_booked")
  have "live_borrowed 0 demo_booked ''k'' = Some 3"
    using shardIndex_less [of "''k''"]
    by (simp add: live_borrowed_def demo_booked_def lease_expired_def demo_manager_def
        NewBorrowManager_def time_sub_def)
  with AllBorrowed_top [OF demo_booked_ok a] a show ?thesis by (cases "map_of out ''k''") auto
qed

end
