(* ===== verification/Limiter.thy ===== *)
theory Limiter
  imports Options Borrow_Manager
begin

text \<open>
  The limiter (\<^verbatim>\<open>limiter.go\<close>, \<^verbatim>\<open>krate.go\<close>): the shards of buckets, \<^verbatim>\<open>AllowN\<close> with its loop over
  routing decisions, window resets, pre-borrowing, the token functions of the server, eviction and
  closing. One call runs to its end here; what it leaves to other goroutines is kept in the state:
  \<open>l_jobs\<close> are the pre-borrows started and not finished (the wait group), \<open>l_extras\<close> the extra tokens
  of parallel probes not yet handed back. Metrics and logging are left out, also the clock
  readings made only for them.
\<close>

record ('w, 'r, 'c) env =
  e_oor :: "f64 \<Rightarrow> u64"
  e_redis :: "'w redis_client"
  e_wall :: "'w \<Rightarrow> gtime \<times> 'w"
  e_clock :: "'w \<Rightarrow> gtime \<times> 'w"
  e_stub :: "'c \<Rightarrow> TransferRequest \<Rightarrow> 'w \<Rightarrow> (err + u64) \<times> 'w"
  e_lookup :: "string \<Rightarrow> 'c option"
  e_sched :: "'w \<Rightarrow> 'w probe_schedule"
  e_decide :: "(Gossiper \<Rightarrow> RouteContext \<Rightarrow> 'r \<Rightarrow> 'w \<Rightarrow> (err + Decision) \<times> 'r \<times> 'w) option"
  e_routerEvict :: "(string list \<Rightarrow> 'r \<Rightarrow> 'r) option"
  e_routerRemovePeer :: "(string \<Rightarrow> 'r \<Rightarrow> 'r) option"

record peerState =
  pst_borrowed :: "(string, u64) gomap"
  pst_consumed :: "(string, u64) gomap"

definition newPeerState :: peerState where
  "newPeerState = \<lparr>pst_borrowed = [], pst_consumed = []\<rparr>"

record 'r limiter =
  l_opts :: options
  l_shards :: "(string, bucket) gomap list"
  l_borrowMgr :: BorrowManager
  l_gossiper :: Gossiper
  l_router :: 'r
  l_acquirer :: "Acquirer option"
  l_peerStates :: "(string, peerState) gomap"
  l_closed :: bool
  l_jobs :: "string list"
  l_extras :: "(string \<times> u64) list"

text \<open>\<^verbatim>\<open>newLimiter\<close> without the network: the parts it builds from the options, the acquirer last.\<close>

definition newLimiter :: "options \<Rightarrow> 'r \<Rightarrow> 'r limiter" where
  "newLimiter opts r =
     (let sizer = NewAdaptiveSizer (o_emaAlpha opts) (o_minBorrow opts) (o_maxBorrow opts) (o_window opts)
            (o_adaptiveBorrow opts)
      in \<lparr>l_opts = opts, l_shards = replicate shardCount [],
          l_borrowMgr = NewBorrowManager (o_instanceID opts) sizer (o_leaseTTL opts),
          l_gossiper = NewGossiper, l_router = r,
          l_acquirer = Some \<lparr>acq_originID = o_instanceID opts, acq_probeK = o_probeK opts, acq_mode = o_probeMode opts\<rparr>,
          l_peerStates = [], l_closed = False, l_jobs = [], l_extras = []\<rparr>)"

definition ErrClosed :: err where
  "ErrClosed = ''krate: limiter is closed''"

subsection \<open>Buckets\<close>

definition lookup_bucket :: "'r limiter \<Rightarrow> string \<Rightarrow> bucket option" where
  "lookup_bucket l key = map_of (l_shards l ! shardIndex key) key"

definition put_bucket :: "string \<Rightarrow> bucket \<Rightarrow> 'r limiter \<Rightarrow> 'r limiter" where
  \<comment> \<open>the state of the bucket a pointer \<^verbatim>\<open>b\<close> from the shard's map refers to\<close>
  "put_bucket key b l = (let i = shardIndex key in
     l\<lparr>l_shards := (l_shards l)[i := AList.update key b (l_shards l ! i)]\<rparr>)"

definition getOrCreateBucket ::
    "('w, 'r, 'c) env \<Rightarrow> string \<Rightarrow> 'r limiter \<Rightarrow> 'w \<Rightarrow> bucket \<times> 'r limiter \<times> 'w" where
  "getOrCreateBucket E key l w =
     (case lookup_bucket l key of
        Some b \<Rightarrow> (b, l, w)
      | None \<Rightarrow>
          let (t, w') = e_wall E w;
              b = newBucket t key (o_limit (l_opts l)) (o_windowType (l_opts l)) (o_window (l_opts l))
          in (b, put_bucket key b l, w'))"

text \<open>
  The block repeated after every source of tokens: consume, count the consumption on the bucket
  and in the sizer.
\<close>

definition try_serve :: "string \<Rightarrow> u64 \<Rightarrow> bucket \<Rightarrow> 'r limiter \<Rightarrow> bool \<times> bucket \<times> 'r limiter" where
  "try_serve key n b l =
     (let (ok, b1) = tryConsume n b in
      if ok
      then let b2 = recordConsumption n b1;
               l1 = (put_bucket key b2 l)\<lparr>l_borrowMgr := RecordConsumption key n (l_borrowMgr l)\<rparr>
           in (True, b2, l1)
      else (False, b1, put_bucket key b1 l))"

subsection \<open>Window resets\<close>

definition resetWindow ::
    "('w, 'r, 'c) env \<Rightarrow> string \<Rightarrow> i64 \<Rightarrow> 'r limiter \<Rightarrow> 'w \<Rightarrow> (err option \<times> 'r limiter \<times> 'w) go" where
  "resetWindow E key nowMs l w =
     (let (b, l1, w1) = getOrCreateBucket E key l w;
          windowMs = Milliseconds (o_window (l_opts l))
      in if windowMs = 0 then Panic ''integer divide by zero''
         else
           let newWindowStart = i64_div nowMs windowMs * windowMs
           in if sint newWindowStart \<le> sint (WindowStartMs (b_window b)) then Return (None, l1, w1)
              else
                let (e, w2) = pool_ResetWindow (e_redis E) key (o_limit (l_opts l)) newWindowStart w1
                in (case e of
                      Some msg \<Rightarrow> Return (Some (''reset window: '' @ msg), l1, w2)
                    | None \<Rightarrow>
                        let b1 = resetConsumed (ClearRedisExhausted (snd (drain b)));
                            b2 = b1\<lparr>b_window := UpdateWindowStart newWindowStart (b_window b1)\<rparr>;
                            l2 = put_bucket key b2 l1
                        in Return (None, l2\<lparr>l_borrowMgr := bm_Reset key (l_borrowMgr l2)\<rparr>, w2)))"

subsection \<open>Pre-borrowing\<close>

definition maybePreBorrow :: "string \<Rightarrow> bucket \<Rightarrow> 'r limiter \<Rightarrow> 'r limiter" where
  "maybePreBorrow key b l =
     (let (ok, b') = TryMarkPreBorrowing b
      in if ok then (put_bucket key b' l)\<lparr>l_jobs := l_jobs l @ [key]\<rparr> else l)"

definition on_grant :: "u64 \<Rightarrow> bucket \<Rightarrow> bucket" where
  \<comment> \<open>the callback of both calls of \<^verbatim>\<open>borrowMgr.Acquire\<close>\<close>
  "on_grant g b = refill g (ClearRedisExhausted b)"

definition preBorrow_job :: "('w, 'r, 'c) env \<Rightarrow> string \<Rightarrow> 'r limiter \<Rightarrow> 'w \<Rightarrow> 'r limiter \<times> 'w" where
  \<comment> \<open>the goroutine of \<^verbatim>\<open>maybePreBorrow\<close>; a bucket that is pre-borrowing is not evicted\<close>
  "preBorrow_job E key l w =
     (case lookup_bucket l key of
        None \<Rightarrow> (l, w)
      | Some b \<Rightarrow>
          let (r, m, b1, w') = Acquire (e_oor E) (e_redis E) (e_wall E) key 0 on_grant (l_borrowMgr l) b w
          in ((put_bucket key (ClearPreBorrowing b1) l)\<lparr>l_borrowMgr := m, l_jobs := remove1 key (l_jobs l)\<rparr>, w'))"

subsection \<open>Tokens from peers\<close>

definition acquireFromPeers ::
    "('w, 'r, 'c) env \<Rightarrow> string \<Rightarrow> u64 \<Rightarrow> bucket \<Rightarrow> 'r limiter \<Rightarrow> 'w \<Rightarrow> ((err + u64) \<times> bucket \<times> 'r limiter \<times> 'w) go" where
  "acquireFromPeers E key need b l w =
     (case l_acquirer l of
        None \<Rightarrow> Panic ''nil pointer dereference''
      | Some a \<Rightarrow>
          let (t, w1) = e_wall E w in
          go_bind (acquirer_Acquire (e_stub E) (e_lookup E) (e_sched E w1) (e_oor E) (l_gossiper l) t a key need refill b w1)
            (\<lambda>(r, extras, reps, b', w2). Return (r, b', l\<lparr>l_extras := l_extras l @ map (Pair key) extras\<rparr>, w2)))"

definition deliver_extra :: "('w, 'r, 'c) env \<Rightarrow> 'r limiter \<Rightarrow> 'w \<Rightarrow> 'r limiter \<times> 'w" where
  \<comment> \<open>the callback \<^verbatim>\<open>onExtraTokens\<close> for the next extra tokens\<close>
  "deliver_extra E l w =
     (case l_extras l of
        [] \<Rightarrow> (l, w)
      | (key, n) # rest \<Rightarrow>
          let (b, l1, w1) = getOrCreateBucket E key l w
          in ((put_bucket key (refill n b) l1)\<lparr>l_extras := rest\<rparr>, w1))"

subsection \<open>AllowN\<close>

text \<open>
  The loop over routing decisions. The fuel bounds the rounds; \<open>None\<close> is running out of it.
\<close>

fun allow_loop :: "nat \<Rightarrow> ('w, 'r, 'c) env \<Rightarrow> string \<Rightarrow> u64 \<Rightarrow> bool \<Rightarrow> bool \<Rightarrow> bucket \<Rightarrow> 'r limiter \<Rightarrow> 'w
    \<Rightarrow> ((err + bool) \<times> 'r limiter \<times> 'w) go option" where
  "allow_loop 0 E key n redisExhausted peerChecked b l w = None"
| "allow_loop (Suc fuel) E key n redisExhausted peerChecked b l w =
     (case e_decide E of
        None \<Rightarrow> Some (Panic ''nil pointer dereference'')
      | Some decide \<Rightarrow>
          let rc = \<lparr>rc_Key = key, rc_Need = n, rc_RedisExhausted = redisExhausted,
                    rc_HasPeers = (l_acquirer l \<noteq> None \<and> \<not> peerChecked)\<rparr>;
              (d, r, w1) = decide (l_gossiper l) rc (l_router l) w;
              l1 = l\<lparr>l_router := r\<rparr>
          in (case d of
                Inl e \<Rightarrow> Some (Return (Inl e, l1, w1))
              | Inr DecisionRedis \<Rightarrow>
                  (let (g, m, b1, w2) = Acquire (e_oor E) (e_redis E) (e_wall E) key n on_grant (l_borrowMgr l1) b w1;
                       l2 = (put_bucket key b1 l1)\<lparr>l_borrowMgr := m\<rparr>
                   in case g of
                        Inl e \<Rightarrow> Some (Return (Inl e, l2, w2))
                      | Inr granted \<Rightarrow>
                          if 0 < granted
                          then let (_, m3, w3) = Borrowed (e_wall E) key m w2;
                                   (ok, b4, l4) = try_serve key n b1 (l2\<lparr>l_borrowMgr := m3\<rparr>)
                               in if ok then Some (Return (Inr True, l4, w3))
                                  else allow_loop fuel E key n redisExhausted peerChecked b4 l4 w3
                          else let b3 = MarkRedisExhausted b1
                               in allow_loop fuel E key n True peerChecked b3 (put_bucket key b3 l2) w2)
              | Inr DecisionPeer \<Rightarrow>
                  (case acquireFromPeers E key n b l1 w1 of
                     Panic msg \<Rightarrow> Some (Panic msg)
                   | Return (p, b2, l2, w2) \<Rightarrow>
                       let l3 = put_bucket key b2 l2 in
                       (case p of
                          Inl e \<Rightarrow> allow_loop fuel E key n redisExhausted True b2 l3 w2
                        | Inr peerTokens \<Rightarrow>
                            if 0 < peerTokens
                            then let (ok, b4, l4) = try_serve key n b2 l3
                                 in if ok then Some (Return (Inr True, l4, w2))
                                    else allow_loop fuel E key n redisExhausted True b4 l4 w2
                            else allow_loop fuel E key n redisExhausted True b2 l3 w2))
              | Inr DecisionDeny \<Rightarrow> Some (Return (Inr False, l1, w1))))"

text \<open>What follows the fast path: the reset of an expired window, then the loop.\<close>

definition current :: "string \<Rightarrow> bucket \<Rightarrow> 'r limiter \<Rightarrow> bucket" where
  \<comment> \<open>the state of the bucket a pointer obtained earlier refers to\<close>
  "current key b l = (case lookup_bucket l key of None \<Rightarrow> b | Some b' \<Rightarrow> b')"

definition allow_slow :: "nat \<Rightarrow> ('w, 'r, 'c) env \<Rightarrow> string \<Rightarrow> u64 \<Rightarrow> bucket \<Rightarrow> 'r limiter \<Rightarrow> 'w
    \<Rightarrow> ((err + bool) \<times> 'r limiter \<times> 'w) go option" where
  "allow_slow fuel E key n b l w =
     (let (t, w1) = e_clock E w; nowMs = UnixMilli t
      in if needsReset nowMs b
         then (case resetWindow E key nowMs l w1 of
             Panic msg \<Rightarrow> Some (Panic msg)
           | Return (e, l2, w2) \<Rightarrow>
               let (ok, b3, l3) = try_serve key n (current key b l2) l2
               in if ok then Some (Return (Inr True, l3, w2))
                  else allow_loop fuel E key n (IsRedisExhausted b3) False b3 l3 w2)
         else allow_loop fuel E key n (IsRedisExhausted b) False b l w1)"

definition AllowN :: "nat \<Rightarrow> ('w, 'r, 'c) env \<Rightarrow> string \<Rightarrow> u64 \<Rightarrow> 'r limiter \<Rightarrow> 'w
    \<Rightarrow> ((err + bool) \<times> 'r limiter \<times> 'w) go option" where
  "AllowN fuel E key n l w =
     (if l_closed l then Some (Return (Inl ErrClosed, l, w))
      else
        let (start, w1) = e_clock E w;
            (b, l1, w2) = getOrCreateBucket E key l w1;
            b1 = updateAccess (UnixMilli start) b;
            (ok, b2, l2) = try_serve key n b1 (put_bucket key b1 l1)
        in if ok
           then Some (Return (Inr True,
             if o_preBorrowEnabled (l_opts l2) \<and>
                belowPreBorrowThreshold (e_oor E) (o_minBorrow (l_opts l2)) (o_preBorrowThreshold (l_opts l2)) b2
             then maybePreBorrow key b2 l2 else l2, w2))
           else allow_slow fuel E key n b2 l2 w2)"

definition Allow :: "nat \<Rightarrow> ('w, 'r, 'c) env \<Rightarrow> string \<Rightarrow> 'r limiter \<Rightarrow> 'w
    \<Rightarrow> ((err + bool) \<times> 'r limiter \<times> 'w) go option" where
  "Allow fuel E key l w = AllowN fuel E key 1 l w"

subsection \<open>The token functions of the server\<close>

text \<open>Their state is the limiter and the world (a new bucket reads the wall clock).\<close>

definition tokenAccessor ::
    "('w, 'r, 'c) env \<Rightarrow> string \<Rightarrow> u64 \<Rightarrow> 'r limiter \<times> 'w \<Rightarrow> (err + u64) \<times> 'r limiter \<times> 'w" where
  "tokenAccessor E key requested = (\<lambda>(l, w).
     let (b, l1, w1) = getOrCreateBucket E key l w;
         rem = remaining b;
         reserved = u64_of_f64 (e_oor E) (fmul (f64_of_u64 (o_limit (l_opts l))) (o_reservedMinimum (l_opts l)))
     in if rem \<le> reserved then (Inr 0, l1, w1) else (Inr (rem - reserved), l1, w1))"

definition tokenTransferer ::
    "('w, 'r, 'c) env \<Rightarrow> string \<Rightarrow> u64 \<Rightarrow> 'r limiter \<times> 'w \<Rightarrow> (err + u64) \<times> 'r limiter \<times> 'w" where
  "tokenTransferer E key n = (\<lambda>(l, w).
     let (b, l1, w1) = getOrCreateBucket E key l w;
         rem = remaining b;
         transfer = (if rem < n then rem else n)
     in if transfer = 0 then (Inr 0, l1, w1)
        else let (ok, b1) = tryConsume transfer b; l2 = put_bucket key b1 l1
             in if ok then (Inr transfer, l2, w1) else (Inr 0, l2, w1))"

definition gossipHandler ::
    "('w, 'r, 'c) env \<Rightarrow> string \<Rightarrow> (string, u64) gomap \<Rightarrow> (string, u64) gomap \<Rightarrow> 'r limiter \<times> 'w \<Rightarrow> err option \<times> 'r limiter \<times> 'w" where
  "gossipHandler E originID consumed borrowed = (\<lambda>(l, w).
     let (t, w1) = e_wall E w
     in (None, l\<lparr>l_gossiper := UpdatePeer originID consumed borrowed t (l_gossiper l)\<rparr>, w1))"

definition limiter_server :: "('w, 'r, 'c) env \<Rightarrow> options \<Rightarrow> ('r limiter \<times> 'w) TokenServer" where
  "limiter_server E opts = SetGossipHandler (gossipHandler E) (SetTokenTransferer (tokenTransferer E)
     (SetTokenAccessor (tokenAccessor E) (NewTokenServer (o_instanceID opts))))"

subsection \<open>Consumption reports, eviction, removal and closing\<close>

definition getBucketConsumed :: "string \<Rightarrow> 'r limiter \<Rightarrow> u64" where
  "getBucketConsumed key l = (case lookup_bucket l key of Some b \<Rightarrow> getConsumed b | None \<Rightarrow> 0)"

definition getBucketsConsumed :: "string list \<Rightarrow> 'r limiter \<Rightarrow> (string, u64) gomap" where
  "getBucketsConsumed ks l =
     fold (\<lambda>(shKeys, s) out. if shKeys = [] then out
         else fold (\<lambda>k out. case map_of s k of
             Some b \<Rightarrow> (let val = getConsumed b in if 0 < val then AList.update k val out else out)
           | None \<Rightarrow> out) shKeys out)
       (zip (group_keys shardIndex shardCount ks) (l_shards l)) []"

definition evictable :: "(bucket \<Rightarrow> i64 \<Rightarrow> bool) \<Rightarrow> i64 \<Rightarrow> bucket \<Rightarrow> bool" where
  "evictable shouldEvict nowMs b \<longleftrightarrow> shouldEvict b nowMs \<and> \<not> isPreBorrowing b"

definition evict_shard ::
    "(bucket \<Rightarrow> i64 \<Rightarrow> bool) \<Rightarrow> i64 \<Rightarrow> (string, bucket) gomap \<Rightarrow> (string, bucket) gomap \<times> string list" where
  "evict_shard shouldEvict nowMs shard =
     (let keysToEvict = map fst (filter (\<lambda>(k, b). evictable shouldEvict nowMs b) shard)
      in fold (\<lambda>k (s, evicted). case map_of s k of
             Some b \<Rightarrow> if evictable shouldEvict nowMs b then (AList.delete k s, evicted @ [k]) else (s, evicted)
           | None \<Rightarrow> (s, evicted)) keysToEvict (shard, []))"

definition evictInactiveKeys ::
    "('w, 'r, 'c) env \<Rightarrow> (bucket \<Rightarrow> i64 \<Rightarrow> bool) \<Rightarrow> i64 \<Rightarrow> 'r limiter \<Rightarrow> 'r limiter" where
  "evictInactiveKeys E shouldEvict nowMs l =
     (let results = map (evict_shard shouldEvict nowMs) (l_shards l);
          l1 = l\<lparr>l_shards := map fst results\<rparr>;
          allEvicted = concat (map snd results)
      in if allEvicted = [] then l1
         else l1\<lparr>l_borrowMgr := bm_EvictKeys allEvicted (l_borrowMgr l1),
                 l_gossiper := gossip_EvictKeys allEvicted (l_gossiper l1),
                 l_router := (case e_routerEvict E of Some f \<Rightarrow> f allEvicted (l_router l1) | None \<Rightarrow> l_router l1)\<rparr>)"

definition start_janitor ::
    "('w, 'r, 'c) env \<Rightarrow> janitor_event list \<Rightarrow> 'r limiter \<Rightarrow> 'r limiter" where
  "start_janitor E events l =
     (case o_evictionPolicy (l_opts l) of
        Some policy \<Rightarrow>
          if 0 < sint (o_evictionInterval (l_opts l))
          then janitor_Start (\<lambda>nowMs. evictInactiveKeys E (policy_ShouldEvict policy) nowMs) events l
          else l
      | None \<Rightarrow> l)"

definition peer_removed :: "('w, 'r, 'c) env \<Rightarrow> string \<Rightarrow> 'r limiter \<Rightarrow> 'r limiter" where
  \<comment> \<open>the callback given to the mesh\<close>
  "peer_removed E i l =
     l\<lparr>l_gossiper := gossip_RemovePeer i (l_gossiper l),
       l_router := (case e_routerRemovePeer E of Some f \<Rightarrow> f i (l_router l) | None \<Rightarrow> l_router l)\<rparr>"

text \<open>
  \<^verbatim>\<open>Close\<close> up to the teardown of the network parts: the flag is swapped once, and the first caller
  waits for the pre-borrows that are running.
\<close>

definition Close :: "('w, 'r, 'c) env \<Rightarrow> 'r limiter \<Rightarrow> 'w \<Rightarrow> err option \<times> 'r limiter \<times> 'w" where
  "Close E l w =
     (if l_closed l then (Some ErrClosed, l, w)
      else let (l', w') = fold (\<lambda>key (l, w). preBorrow_job E key l w) (l_jobs l) (l\<lparr>l_closed := True\<rparr>, w)
           in (None, l', w'))"

end
