(* ===== verification/Limiter_Ledger.thy ===== *)
theory Limiter_Ledger
  imports Limiter
begin

text \<open>
  Where the tokens of a key go. The locale \<open>token_source\<close> names what an environment delivers for
  the key, from the Redis pool and from peers; its lemmas follow every token through \<^verbatim>\<open>AllowN\<close>: into
  the bucket, to a served request, to a pending refund, or dropped by a window reset. It is
  interpreted on every environment, metered: wrapped so that the deliveries are counted.
\<close>

subsection \<open>The state of a limiter\<close>

definition limiter_ok :: "'r limiter \<Rightarrow> bool" where
  "limiter_ok l \<longleftrightarrow> shards_ok shardIndex shardCount (l_shards l) \<and> bm_ok (l_borrowMgr l) \<and>
     (\<forall>k b. lookup_bucket l k = Some b \<longrightarrow> bucket_ok b)"

definition held_at :: "'r limiter \<Rightarrow> string \<Rightarrow> int" where
  "held_at l k = (case lookup_bucket l k of None \<Rightarrow> 0 | Some b \<Rightarrow> held b)"

definition pending :: "'r limiter \<Rightarrow> string \<Rightarrow> int" where
  "pending l k = sum_list (map (uint \<circ> snd) (filter (\<lambda>x. fst x = k) (l_extras l)))"

lemma newLimiter_ok [simp]: "limiter_ok (newLimiter opts r)"
proof -
  have "shards_ok shardIndex shardCount (replicate shardCount ([] :: (string, bucket) gomap))"
    by (rule fnv.shards_ok_new)
  then show ?thesis
    using shardIndex_less by (simp add: limiter_ok_def newLimiter_def Let_def lookup_bucket_def)
qed

lemma put_bucket_fields [simp]:
  "l_borrowMgr (put_bucket key b l) = l_borrowMgr l" "l_extras (put_bucket key b l) = l_extras l"
  "l_opts (put_bucket key b l) = l_opts l" "l_closed (put_bucket key b l) = l_closed l"
  "l_jobs (put_bucket key b l) = l_jobs l" "l_acquirer (put_bucket key b l) = l_acquirer l"
  "l_gossiper (put_bucket key b l) = l_gossiper l" "l_router (put_bucket key b l) = l_router l"
  by (simp_all add: put_bucket_def Let_def)

lemma pending_put [simp]: "pending (put_bucket key b l) k = pending l k"
  by (simp add: pending_def)

lemma lookup_put:
  assumes "shards_ok shardIndex shardCount (l_shards l)"
  shows "lookup_bucket (put_bucket key b l) k = (if k = key then Some b else lookup_bucket l k)"
  using fnv.lookup_update [OF assms, of key b k] by (simp add: lookup_bucket_def put_bucket_def Let_def)

lemma limiter_ok_put:
  assumes "limiter_ok l" "bucket_ok b"
  shows "limiter_ok (put_bucket key b l)"
  using assms lookup_put [of l key b]
  by (auto simp: limiter_ok_def put_bucket_def Let_def fnv.shards_ok_update)

lemma lookup_frame [simp]:
  "lookup_bucket (l\<lparr>l_borrowMgr := m\<rparr>) k = lookup_bucket l k" "lookup_bucket (l\<lparr>l_router := r\<rparr>) k = lookup_bucket l k"
  "lookup_bucket (l\<lparr>l_extras := e\<rparr>) k = lookup_bucket l k" "lookup_bucket (l\<lparr>l_jobs := j\<rparr>) k = lookup_bucket l k"
  "lookup_bucket (l\<lparr>l_gossiper := g\<rparr>) k = lookup_bucket l k" "lookup_bucket (l\<lparr>l_closed := c\<rparr>) k = lookup_bucket l k"
  by (simp_all add: lookup_bucket_def)

lemma pending_frame [simp]:
  "pending (l\<lparr>l_borrowMgr := m\<rparr>) k = pending l k" "pending (l\<lparr>l_router := r\<rparr>) k = pending l k"
  "pending (l\<lparr>l_jobs := j\<rparr>) k = pending l k" "pending (l\<lparr>l_gossiper := g\<rparr>) k = pending l k"
  "pending (l\<lparr>l_closed := c\<rparr>) k = pending l k"
  by (simp_all add: pending_def)

lemma limiter_ok_frame [simp]:
  "bm_ok m \<Longrightarrow> limiter_ok (l\<lparr>l_borrowMgr := m\<rparr>) \<longleftrightarrow> shards_ok shardIndex shardCount (l_shards l) \<and>
     (\<forall>k b. lookup_bucket l k = Some b \<longrightarrow> bucket_ok b)"
  "limiter_ok (l\<lparr>l_router := r\<rparr>) \<longleftrightarrow> limiter_ok l" "limiter_ok (l\<lparr>l_extras := e\<rparr>) \<longleftrightarrow> limiter_ok l"
  "limiter_ok (l\<lparr>l_jobs := j\<rparr>) \<longleftrightarrow> limiter_ok l" "limiter_ok (l\<lparr>l_gossiper := g\<rparr>) \<longleftrightarrow> limiter_ok l"
  "limiter_ok (l\<lparr>l_closed := c\<rparr>) \<longleftrightarrow> limiter_ok l"
  by (simp_all add: limiter_ok_def)

lemma limiter_okD:
  assumes "limiter_ok l"
  shows "shards_ok shardIndex shardCount (l_shards l)" "bm_ok (l_borrowMgr l)"
    "lookup_bucket l k = Some b \<Longrightarrow> bucket_ok b" "0 \<le> held_at l k"
  using assms by (auto simp: limiter_ok_def held_at_def bucket_ok_def lb_ok_def split: option.splits)

lemma getOrCreateBucket_spec:
  assumes "limiter_ok l" "getOrCreateBucket E key l w = (b, l', w')"
  shows "limiter_ok l'" "lookup_bucket l' key = Some b" "bucket_ok b" "held b = held_at l key"
    "\<And>k. k \<noteq> key \<Longrightarrow> lookup_bucket l' k = lookup_bucket l k" "\<And>k. pending l' k = pending l k"
    "\<And>k. held_at l' k = held_at l k"
    "w' = w \<or> w' = snd (e_wall E w)" "l_opts l' = l_opts l" "l_closed l' = l_closed l"
    "l_borrowMgr l' = l_borrowMgr l" "lookup_bucket l key = Some b0 \<Longrightarrow> b = b0 \<and> l' = l \<and> w' = w"
proof -
  note sok = limiter_okD(1) [OF assms(1)]
  have h0: "held (newBucket t key lm wt sz) = 0" for t lm wt sz
    by (simp add: newBucket_def NewLocalBucket_def)
  show "limiter_ok l'" "lookup_bucket l' key = Some b" "bucket_ok b" "held b = held_at l key"
    "w' = w \<or> w' = snd (e_wall E w)" "l_opts l' = l_opts l" "l_closed l' = l_closed l"
    "l_borrowMgr l' = l_borrowMgr l" "lookup_bucket l key = Some b0 \<Longrightarrow> b = b0 \<and> l' = l \<and> w' = w"
    "\<And>k. k \<noteq> key \<Longrightarrow> lookup_bucket l' k = lookup_bucket l k" "\<And>k. pending l' k = pending l k"
    "\<And>k. held_at l' k = held_at l k"
    using assms limiter_okD(3) [OF assms(1)] h0
    by (auto simp: getOrCreateBucket_def Let_def split_beta limiter_ok_put lookup_put [OF sok] held_at_def
        split: option.splits if_splits)
qed

text \<open>
  The ledger of one key between two states of its bucket: \<open>s\<close> tokens came in, \<open>t\<close> went to served
  requests and into the consumption counter; the window and the other keys are untouched.
\<close>

definition ledger :: "string \<Rightarrow> int \<Rightarrow> int \<Rightarrow> bucket \<Rightarrow> 'r limiter \<Rightarrow> bucket \<Rightarrow> 'r limiter \<Rightarrow> bool" where
  "ledger key s t b l b' l' \<longleftrightarrow> limiter_ok l' \<and> lookup_bucket l' key = Some b' \<and>
     held b' + pending l' key + t = held b + pending l key + s \<and> pending l key \<le> pending l' key \<and>
     b_consumed b' = b_consumed b + word_of_int t \<and> b_window b' = b_window b \<and>
     (\<forall>k. k \<noteq> key \<longrightarrow> lookup_bucket l' k = lookup_bucket l k \<and> pending l' k = pending l k) \<and>
     l_opts l' = l_opts l \<and> l_closed l' = l_closed l"

lemma ledger_trans:
  assumes "ledger key s1 t1 b l b1 l1" "ledger key s2 t2 b1 l1 b2 l2"
  shows "ledger key (s1 + s2) (t1 + t2) b l b2 l2"
  using assms by (auto simp: ledger_def)

lemma ledger_refl:
  "limiter_ok l \<Longrightarrow> lookup_bucket l key = Some b \<Longrightarrow> ledger key 0 0 b l b l"
  by (simp add: ledger_def)

lemma ledger_frame:
  assumes "ledger key s t b l b1 l1"
  shows "ledger key s t b l b1 (l1\<lparr>l_router := r\<rparr>)" "bm_ok m \<Longrightarrow> ledger key s t b l b1 (l1\<lparr>l_borrowMgr := m\<rparr>)"
    "ledger key s t b l b1 (l1\<lparr>l_jobs := j\<rparr>)"
  using assms by (auto simp: ledger_def limiter_ok_def)

lemma ledger_put:
  assumes "ledger key s t b l b1 l1" "bucket_ok b2" "held b2 = held b1 + s2" "b_window b2 = b_window b1"
    "b_consumed b2 = b_consumed b1"
  shows "ledger key (s + s2) t b l b2 (put_bucket key b2 l1)"
proof -
  have "shards_ok shardIndex shardCount (l_shards l1)" "limiter_ok (put_bucket key b2 l1)"
    using assms(1,2) by (auto simp: ledger_def limiter_okD limiter_ok_put)
  then show ?thesis using assms by (auto simp: ledger_def lookup_put)
qed

lemma ledger_extras:
  assumes "ledger key s t b l b1 l1"
  shows "ledger key (s + sum_list (map uint xs)) t b l b1 (l1\<lparr>l_extras := l_extras l1 @ map (Pair key) xs\<rparr>)"
proof -
  have "pending (l1\<lparr>l_extras := l_extras l1 @ map (Pair key) xs\<rparr>) k
      = pending l1 k + (if k = key then sum_list (map uint xs) else 0)" for k
    by (auto simp: pending_def filter_map comp_def)
  moreover have "0 \<le> sum_list (map uint xs)" by (induction xs) auto
  ultimately show ?thesis using assms by (auto simp: ledger_def)
qed

lemma RecordConsumption_shards [simp]: "bm_shards (RecordConsumption key n m) = bm_shards m"
  by (simp add: RecordConsumption_def)

lemma try_serve_ledger:
  assumes "limiter_ok l" "lookup_bucket l key = Some b" "amount n" "try_serve key n b l = (ok, b', l')"
  shows "ledger key 0 (if ok then uint n else 0) b l b' l'"
    "ok \<longleftrightarrow> uint n \<le> held b" "\<not> ok \<Longrightarrow> held b' = held b"
proof -
  note sok = limiter_okD(1) [OF assms(1)] and bok = limiter_okD(3) [OF assms(1,2)]
  have c: "bucket_ok (snd (tryConsume n b))" "held (snd (tryConsume n b)) = held b - (if fst (tryConsume n b) then uint n else 0)"
    using bok assms(3) by (simp_all only: tryConsume_ok tryConsume_held)
  show "ok \<longleftrightarrow> uint n \<le> held b"
    using assms(3,4) TryConsume_true_iff [of n "b_local b"]
    by (auto simp: try_serve_def Let_def split_beta sint_small split: if_splits)
  show "\<not> ok \<Longrightarrow> held b' = held b"
    using assms(4) c by (auto simp: try_serve_def Let_def split_beta split: if_splits)
  show "ledger key 0 (if ok then uint n else 0) b l b' l'"
  proof (cases "fst (tryConsume n b)")
    case False
    then show ?thesis
      using assms(4) c ledger_put [OF ledger_refl [OF assms(1,2)], of "snd (tryConsume n b)" 0]
      by (auto simp: try_serve_def Let_def split_beta)
  next
    case True
    let ?b = "recordConsumption n (snd (tryConsume n b))"
    have b: "bucket_ok ?b" "held ?b = held b - uint n" "b_window ?b = b_window b" "b_consumed ?b = b_consumed b + n"
      using c True by (simp_all add: recordConsumption_def bucket_ok_def)
    have e: "ok" "b' = ?b" "l' = (put_bucket key ?b l)\<lparr>l_borrowMgr := RecordConsumption key n (l_borrowMgr l)\<rparr>"
      using assms(4) True by (auto simp: try_serve_def Let_def split_beta)
    have ok': "limiter_ok l'"
      using limiter_ok_put [OF assms(1) b(1), of key] limiter_okD(2) [OF assms(1)]
      by (auto simp: e limiter_ok_def)
    show ?thesis
      using b e(1) ok' unfolding ledger_def e by (simp add: lookup_put [OF sok])
  qed
qed

subsection \<open>The rounds of the loop\<close>

text \<open>
  The ways a round of \<^verbatim>\<open>AllowN\<close>'s loop can go, as relations between its start and the result of the
  whole loop: the decision, then what a grant of the pool or an answer of the peers leads to.
\<close>

definition decides ::
    "('w, 'r, 'c) env \<Rightarrow> string \<Rightarrow> u64 \<Rightarrow> bool \<Rightarrow> bool \<Rightarrow> 'r limiter \<Rightarrow> 'w \<Rightarrow> err + Decision \<Rightarrow> 'r limiter \<Rightarrow> 'w \<Rightarrow> bool" where
  "decides E key n re pc l w x l1 w1 \<longleftrightarrow> (\<exists>d r1. e_decide E = Some d \<and> l1 = l\<lparr>l_router := r1\<rparr> \<and>
     d (l_gossiper l) \<lparr>rc_Key = key, rc_Need = n, rc_RedisExhausted = re,
       rc_HasPeers = (l_acquirer l \<noteq> None \<and> \<not> pc)\<rparr> (l_router l) w = (x, r1, w1))"

inductive redis_round :: "nat \<Rightarrow> ('w, 'r, 'c) env \<Rightarrow> string \<Rightarrow> u64 \<Rightarrow> bool \<Rightarrow> bool \<Rightarrow> err + u64 \<Rightarrow> BorrowManager \<Rightarrow>
    bucket \<Rightarrow> 'r limiter \<Rightarrow> 'w \<Rightarrow> (err + bool) \<times> 'r limiter \<times> 'w \<Rightarrow> bool"
  for fuel E key n re pc where
  failed: "redis_round fuel E key n re pc (Inl e) m b l w (Inl e, l, w)"
| served: "0 < g \<Longrightarrow> Borrowed (e_wall E) key m w = (v, m3, w3) \<Longrightarrow>
    try_serve key n b (l\<lparr>l_borrowMgr := m3\<rparr>) = (True, b4, l4) \<Longrightarrow>
    redis_round fuel E key n re pc (Inr g) m b l w (Inr True, l4, w3)"
| again: "0 < g \<Longrightarrow> Borrowed (e_wall E) key m w = (v, m3, w3) \<Longrightarrow>
    try_serve key n b (l\<lparr>l_borrowMgr := m3\<rparr>) = (False, b4, l4) \<Longrightarrow>
    allow_loop fuel E key n re pc b4 l4 w3 = Some (Return res) \<Longrightarrow>
    redis_round fuel E key n re pc (Inr g) m b l w res"
| empty: "allow_loop fuel E key n True pc (MarkRedisExhausted b) (put_bucket key (MarkRedisExhausted b) l) w
      = Some (Return res) \<Longrightarrow>
    redis_round fuel E key n re pc (Inr 0) m b l w res"

inductive peer_round :: "nat \<Rightarrow> ('w, 'r, 'c) env \<Rightarrow> string \<Rightarrow> u64 \<Rightarrow> bool \<Rightarrow> err + u64 \<Rightarrow>
    bucket \<Rightarrow> 'r limiter \<Rightarrow> 'w \<Rightarrow> (err + bool) \<times> 'r limiter \<times> 'w \<Rightarrow> bool"
  for fuel E key n re where
  served: "0 < g \<Longrightarrow> try_serve key n b l = (True, b4, l4) \<Longrightarrow>
    peer_round fuel E key n re (Inr g) b l w (Inr True, l4, w)"
| again: "0 < g \<Longrightarrow> try_serve key n b l = (False, b4, l4) \<Longrightarrow>
    allow_loop fuel E key n re True b4 l4 w = Some (Return res) \<Longrightarrow>
    peer_round fuel E key n re (Inr g) b l w res"
| none: "(case p of Inl e \<Rightarrow> True | Inr g \<Rightarrow> g = 0) \<Longrightarrow>
    allow_loop fuel E key n re True b l w = Some (Return res) \<Longrightarrow>
    peer_round fuel E key n re p b l w res"

lemma allow_loop_SucE:
  assumes "allow_loop (Suc fuel) E key n re pc b l w = Some (Return (r, l', w'))"
  obtains (Error) e where "decides E key n re pc l w (Inl e) l' w'" "r = Inl e"
  | (Deny) "decides E key n re pc l w (Inr DecisionDeny) l' w'" "r = Inr False"
  | (Redis) l1 w1 g m b1 w2 where "decides E key n re pc l w (Inr DecisionRedis) l1 w1"
      "Acquire (e_oor E) (e_redis E) (e_wall E) key n on_grant (l_borrowMgr l1) b w1 = (g, m, b1, w2)"
      "redis_round fuel E key n re pc g m b1 ((put_bucket key b1 l1)\<lparr>l_borrowMgr := m\<rparr>) w2 (r, l', w')"
  | (Peer) l1 w1 p b2 l2 w2 where "decides E key n re pc l w (Inr DecisionPeer) l1 w1"
      "acquireFromPeers E key n b l1 w1 = Return (p, b2, l2, w2)"
      "peer_round fuel E key n re p b2 (put_bucket key b2 l2) w2 (r, l', w')"
proof -
  obtain d where d: "e_decide E = Some d" using assms by (cases "e_decide E") auto
  let ?rc = "\<lparr>rc_Key = key, rc_Need = n, rc_RedisExhausted = re, rc_HasPeers = (l_acquirer l \<noteq> None \<and> \<not> pc)\<rparr>"
  obtain x r1 w1 where x: "d (l_gossiper l) ?rc (l_router l) w = (x, r1, w1)" by (rule prod_cases3)
  let ?l = "l\<lparr>l_router := r1\<rparr>"
  have dec: "decides E key n re pc l w x ?l w1" using d x by (auto simp: decides_def)
  note run = assms [unfolded allow_loop.simps d option.case Let_def x prod.case]
  show ?thesis
  proof (cases x)
    case (Inl e)
    then show ?thesis using run dec by (intro Error [of e]) auto
  next
    case (Inr y)
    note run = run [unfolded Inr sum.case] and dec = dec [unfolded Inr]
    show ?thesis
    proof (cases y)
      case DecisionDeny
      then show ?thesis using run dec by (intro Deny) auto
    next
      case DecisionRedis
      note run = run [unfolded DecisionRedis Decision.case]
      obtain g m b1 w2 where A: "Acquire (e_oor E) (e_redis E) (e_wall E) key n on_grant (l_borrowMgr ?l) b w1 = (g, m, b1, w2)"
        by (rule prod_cases4)
      note run = run [unfolded A prod.case]
      have "redis_round fuel E key n re pc g m b1 ((put_bucket key b1 ?l)\<lparr>l_borrowMgr := m\<rparr>) w2 (r, l', w')"
      proof (cases g)
        case (Inl e)
        then show ?thesis using run by (auto intro: redis_round.intros)
      next
        case (Inr n')
        note run = run [unfolded Inr sum.case]
        show ?thesis
        proof (cases "0 < n'")
          case True
          obtain v m3 w3 where B: "Borrowed (e_wall E) key m w2 = (v, m3, w3)" by (rule prod_cases3)
          obtain ok b4 l4 where T: "try_serve key n b1 ((put_bucket key b1 ?l)\<lparr>l_borrowMgr := m, l_borrowMgr := m3\<rparr>) = (ok, b4, l4)"
            by (rule prod_cases3)
          show ?thesis
            using run True B T redis_round.served [OF True B, of n b1 "(put_bucket key b1 ?l)\<lparr>l_borrowMgr := m\<rparr>" b4 l4]
              redis_round.again [OF True B, of n b1 "(put_bucket key b1 ?l)\<lparr>l_borrowMgr := m\<rparr>" b4 l4]
            unfolding Inr by (cases ok) auto
        next
          case False
          then show ?thesis using run unfolding Inr by (auto simp: word_gt_0 intro: redis_round.empty)
        qed
      qed
      with dec [unfolded DecisionRedis] A show ?thesis by (rule Redis)
    next
      case DecisionPeer
      note run = run [unfolded DecisionPeer Decision.case]
      obtain p b2 l2 w2 where P: "acquireFromPeers E key n b ?l w1 = Return (p, b2, l2, w2)"
        using run by (cases "acquireFromPeers E key n b ?l w1") auto
      note run = run [unfolded P go.case prod.case]
      obtain ok b4 l4 where T: "try_serve key n b2 (put_bucket key b2 l2) = (ok, b4, l4)" by (rule prod_cases3)
      have "peer_round fuel E key n re p b2 (put_bucket key b2 l2) w2 (r, l', w')"
        using run T
        by (cases p; cases ok) (auto simp: word_gt_0 intro: peer_round.intros split: if_splits)
      with dec [unfolded DecisionPeer] P show ?thesis by (rule Peer)
    qed
  qed
qed

subsection \<open>Sources of tokens\<close>

text \<open>What the answer of a call spends.\<close>

definition spent :: "u64 \<Rightarrow> err + bool \<Rightarrow> int" where
  "spent n r = (if r = Inr True then uint n else 0)"

text \<open>
  \<open>income w\<close> counts the tokens of the key the environment has delivered so far: the grants of the
  pool and the replies of the peers. Nothing else moves it.
\<close>

locale token_source =
  fixes E :: "('w, 'r, 'c) env" and key :: string and income :: "'w \<Rightarrow> int"
  assumes borrow_supplies: "pool_Borrow (e_redis E) key i req ttl t w = (g, w') \<Longrightarrow>
      income w' = income w + (case g of Inl e \<Rightarrow> 0 | Inr n \<Rightarrow> uint n)"
    and reset_supplies: "pool_ResetWindow (e_redis E) key lm st w = (e, w') \<Longrightarrow> income w' = income w"
    and clocks_supply: "income (snd (e_wall E w)) = income w" "income (snd (e_clock E w)) = income w"
    and decide_supplies: "e_decide E = Some d \<Longrightarrow> d gs rc r w = (x, r', w') \<Longrightarrow> income w' = income w"
    and stub_supplies: "tr_LimitKey q = key \<Longrightarrow> e_stub E c q w = (p, w') \<Longrightarrow>
      income w' = income w + (case p of Inl e \<Rightarrow> 0 | Inr n \<Rightarrow> uint n)"

sublocale token_source \<subseteq> peer_rpc "e_stub E" key income "\<lambda>w. True"
  by unfold_locales (use stub_supplies in fastforce)+

context token_source begin

lemma wall_supply: "e_wall E w = (t, w') \<Longrightarrow> income w' = income w"
  using clocks_supply(1) [of w] by simp

lemma clock_supply: "e_clock E w = (t, w') \<Longrightarrow> income w' = income w"
  using clocks_supply(2) [of w] by simp

lemma got_nonneg: "0 \<le> got r"
  by (auto simp: got_def split: sum.split)

lemma Acquire_income:
  assumes "Acquire (e_oor E) (e_redis E) (e_wall E) key need f m b w = (r, m', b', w')"
  shows "income w' = income w + got r"
proof -
  have rg: "record_grant (e_wall E) key g m w = (m1, w1) \<Longrightarrow> income w1 = income w" for g m w m1 w1
    unfolding record_grant_eq using clocks_supply(1) by (auto split: option.splits)
  obtain t w0 where t: "e_wall E w = (t, w0)" by (cases "e_wall E w")
  obtain g w1 where g: "pool_Borrow (e_redis E) key (bm_instanceID m)
      (if ComputeBorrowSize (e_oor E) (bm_sizer m) < need then need else ComputeBorrowSize (e_oor E) (bm_sizer m))
      (bm_leaseTTLms m) t w0 = (g, w1)" by (meson surj_pair)
  have s1: "income w1 = income w + (case g of Inl e \<Rightarrow> 0 | Inr n \<Rightarrow> uint n)"
    using borrow_supplies [OF g] wall_supply [OF t] by simp
  have fl: "fst (acquire_flight (e_oor E) (e_redis E) (e_wall E) key need f m b w) = g \<and>
      income (snd (snd (snd (acquire_flight (e_oor E) (e_redis E) (e_wall E) key need f m b w)))) = income w1"
    by (cases g) (simp_all add: acquire_flight_def t g Let_def split_beta rg [OF prod.collapse [symmetric]])
  moreover have "got (fst (acquire_finish g m1)) = (case g of Inl e \<Rightarrow> 0 | Inr n \<Rightarrow> uint n)" for m1
    by (auto simp: acquire_finish_def got_def split: sum.split)
  ultimately show "income w' = income w + got r"
    using assms s1 by (auto simp: Acquire_def split_beta)
qed

lemma Acquire_supply:
  assumes "bm_ok m" "Acquire (e_oor E) (e_redis E) (e_wall E) key need f m b w = (r, m', b', w')"
  shows "income w' = income w + got r" "bm_ok m'"
    "b' = (case r of Inl e \<Rightarrow> b | Inr g \<Rightarrow> if 0 < g then f g b else b)"
  using Acquire_income [OF assms(2)] Acquire_spec [OF assms]
  by (auto simp: word_gt_0 split: sum.splits if_splits)

lemma Borrowed_supply:
  assumes "Borrowed (e_wall E) key m w = (v, m', w')"
  shows "income w' = income w" "bm_ok m \<Longrightarrow> bm_ok m'"
  using Borrowed_spec [of m "e_wall E" key w v m' w'] assms clocks_supply(1)
  by (auto simp: Borrowed_def Let_def split_beta split: option.splits if_splits)

lemma decides_income: "decides E key n re pc l w x l1 w1 \<Longrightarrow> income w1 = income w"
  using decide_supplies by (auto simp: decides_def)

lemma getOrCreate_supply: "getOrCreateBucket E k l w = (b, l', w') \<Longrightarrow> income w' = income w"
  using clocks_supply(1) by (auto simp: getOrCreateBucket_def Let_def split_beta split: option.splits)

text \<open>A grant goes into the bucket, unless the sum leaves the range of the counter.\<close>

lemma on_grant_ok:
  assumes "bucket_ok b" "held b + uint g < 2 ^ 63"
  shows "bucket_ok (on_grant g b)" "held (on_grant g b) = held b + uint g"
    "b_window (on_grant g b) = b_window b" "b_consumed (on_grant g b) = b_consumed b"
proof -
  have "bucket_ok (ClearRedisExhausted b)" "held (ClearRedisExhausted b) = held b"
    using assms(1) by (simp_all add: ClearRedisExhausted_def bucket_ok_def)
  then show "bucket_ok (on_grant g b)" "held (on_grant g b) = held b + uint g"
    using assms(2) by (simp_all add: on_grant_def refill_ok refill_held)
  show "b_window (on_grant g b) = b_window b" "b_consumed (on_grant g b) = b_consumed b"
    by (simp_all add: on_grant_def refill_def ClearRedisExhausted_def)
qed

lemma redis_ledger:
  assumes "limiter_ok l" "lookup_bucket l key = Some b"
    "Acquire (e_oor E) (e_redis E) (e_wall E) key need on_grant (l_borrowMgr l) b w = (r, m, b', w')"
    "held b + (income w' - income w) < 2 ^ 63"
  shows "ledger key (income w' - income w) 0 b l b' ((put_bucket key b' l)\<lparr>l_borrowMgr := m\<rparr>)" "bm_ok m"
proof -
  note A = Acquire_supply [OF limiter_okD(2) [OF assms(1)] assms(3)]
  show "bm_ok m" by (rule A(2))
  have bok: "bucket_ok b" using assms(1,2) by (rule limiter_okD(3))
  have "bucket_ok b' \<and> held b' = held b + got r \<and> b_window b' = b_window b \<and> b_consumed b' = b_consumed b"
    using A(1,3) bok assms(4) on_grant_ok [OF bok] by (auto simp: got_def word_gt_0 split: sum.splits if_splits)
  then have "ledger key (0 + (income w' - income w)) 0 b l b' (put_bucket key b' l)"
    using A(1) by (intro ledger_put [OF ledger_refl [OF assms(1,2)]]) auto
  then show "ledger key (income w' - income w) 0 b l b' ((put_bucket key b' l)\<lparr>l_borrowMgr := m\<rparr>)"
    using ledger_frame(2) [OF _ A(2)] by simp
qed

lemma peer_ledger:
  assumes "limiter_ok l" "lookup_bucket l key = Some b"
    "acquireFromPeers E key need b l w = Return (r, b', l', w')"
    "held b + (income w' - income w) < 2 ^ 63"
  shows "ledger key (income w' - income w) 0 b l b' (put_bucket key b' l')" "income w \<le> income w'"
    "l_acquirer l' = l_acquirer l"
    "(case r of Inl e \<Rightarrow> True | Inr g \<Rightarrow> g = 0) \<Longrightarrow> held b' = held b"
proof -
  obtain a where a: "l_acquirer l = Some a" using assms(3) by (cases "l_acquirer l") (auto simp: acquireFromPeers_def)
  obtain t w1 where t: "e_wall E w = (t, w1)" by (cases "e_wall E w")
  obtain extras reps where q: "acquirer_Acquire (e_stub E) (e_lookup E) (e_sched E w1) (e_oor E) (l_gossiper l) t a key
      need refill b w1 = Return (r, extras, reps, b', w')" and l': "l' = l\<lparr>l_extras := l_extras l @ map (Pair key) extras\<rparr>"
    using assms(3) a t
    by (cases "acquirer_Acquire (e_stub E) (e_lookup E) (e_sched E w1) (e_oor E) (l_gossiper l) t a key need refill b w1")
       (auto simp: acquireFromPeers_def split: prod.splits)
  note D = acquirer_Acquire_delivers [OF TrueI q]
  have sup: "income w' = income w + got r + sum_list (map uint extras)" using D wall_supply [OF t] by simp
  have ex: "0 \<le> sum_list (map uint extras)" by (induction extras) auto
  show "income w \<le> income w'" using sup ex got_nonneg [of r] by linarith
  show "l_acquirer l' = l_acquirer l" by (simp add: l')
  have bok: "bucket_ok b" using assms(1,2) by (rule limiter_okD(3))
  have b': "b' = (case r of Inl e \<Rightarrow> b | Inr n \<Rightarrow> if 0 < n then refill n b else b)" using D by blast
  have h: "held b + got r < 2 ^ 63" using sup ex assms(4) by linarith
  have rb: "bucket_ok b' \<and> held b' = held b + got r \<and> b_window b' = b_window b \<and> b_consumed b' = b_consumed b"
  proof (cases r)
    case (Inr n)
    then show ?thesis using h bok b' refill_ok [OF bok, of n] refill_held [OF bok, of n]
      by (auto simp: got_def word_gt_0 refill_def)
  qed (use b' bok in \<open>auto simp: got_def\<close>)
  show "held b' = held b" if "case r of Inl e \<Rightarrow> True | Inr g \<Rightarrow> g = 0"
    using rb that by (auto simp: got_def split: sum.splits)
  have 1: "ledger key (0 + sum_list (map uint extras)) 0 b l b l'"
    unfolding l' by (rule ledger_extras [OF ledger_refl [OF assms(1,2)]])
  have "ledger key (0 + sum_list (map uint extras) + got r) 0 b l b' (put_bucket key b' l')"
    using rb by (intro ledger_put [OF 1]) auto
  moreover have "0 + sum_list (map uint extras) + got r = income w' - income w" using sup by simp
  ultimately show "ledger key (income w' - income w) 0 b l b' (put_bucket key b' l')" by (simp only:)
qed

lemma peer_income:
  assumes "acquireFromPeers E key need b l w = Return (r, b', l', w')"
  shows "income w \<le> income w'"
proof -
  obtain a where a: "l_acquirer l = Some a" using assms by (cases "l_acquirer l") (auto simp: acquireFromPeers_def)
  obtain t w1 where t: "e_wall E w = (t, w1)" by (cases "e_wall E w")
  obtain extras reps where q: "acquirer_Acquire (e_stub E) (e_lookup E) (e_sched E w1) (e_oor E) (l_gossiper l) t a key
      need refill b w1 = Return (r, extras, reps, b', w')"
    using assms a t
    by (cases "acquirer_Acquire (e_stub E) (e_lookup E) (e_sched E w1) (e_oor E) (l_gossiper l) t a key need refill b w1")
       (auto simp: acquireFromPeers_def split: prod.splits)
  have "0 \<le> sum_list (map uint extras)" by (induction extras) auto
  then show ?thesis
    using acquirer_Acquire_delivers [OF TrueI q] wall_supply [OF t] got_nonneg [of r] by linarith
qed

lemma allow_loop_income:
  "allow_loop fuel E key n re pc b l w = Some (Return (r, l', w')) \<Longrightarrow> income w \<le> income w'"
proof (induction fuel arbitrary: re pc b l w)
  case (Suc fuel)
  from Suc.prems show ?case
  proof (cases rule: allow_loop_SucE)
    case (Redis l1 w1 g m b1 w2)
    have "income w \<le> income w2"
      using decides_income [OF Redis(1)] Acquire_income [OF Redis(2)] got_nonneg [of g] by linarith
    with Redis(3) show ?thesis
    proof (cases rule: redis_round.cases)
      case served
      with \<open>income w \<le> income w2\<close> Borrowed_supply(1) show ?thesis by force
    next
      case again
      then show ?thesis using \<open>income w \<le> income w2\<close> Borrowed_supply(1) Suc.IH by fastforce
    next
      case empty
      with \<open>income w \<le> income w2\<close> Suc.IH show ?thesis by fastforce
    qed simp
  next
    case (Peer l1 w1 p b2 l2 w2)
    have "income w \<le> income w2"
      using decides_income [OF Peer(1)] peer_income [OF Peer(2)] by linarith
    with Peer(3) show ?thesis
    proof (cases rule: peer_round.cases)
      case again
      with \<open>income w \<le> income w2\<close> Suc.IH show ?thesis by fastforce
    next
      case none
      with \<open>income w \<le> income w2\<close> Suc.IH show ?thesis by fastforce
    qed simp
  qed (use decides_income in force)+
qed simp

text \<open>
  The loop: everything that came in is in the bucket, pending, or served; a denial leaves less
  than the amount asked for.
\<close>

lemma decides_ledger:
  assumes "decides E key n re pc l w x l1 w1" "ledger key s t b0 l0 b l"
  shows "ledger key s t b0 l0 b l1" "income w1 = income w" "l_acquirer l1 = l_acquirer l"
  using assms ledger_frame(1) decides_income by (auto simp: decides_def)

lemma ledger_held:
  assumes "ledger key s 0 b0 l0 b l" "held b0 + s \<le> v"
  shows "held b \<le> v"
  using assms by (auto simp: ledger_def)

lemma allow_loop_ledger:
  assumes "amount n"
    and "allow_loop fuel E key n re pc b l w = Some (Return (r, l', w'))"
    and "ledger key (income w - w0) 0 b0 l0 b l" "held b < uint n"
    and "held b0 + (income w' - w0) < 2 ^ 63"
  shows "\<exists>b'. ledger key (income w' - w0) (spent n r) b0 l0 b' l' \<and> (r = Inr False \<longrightarrow> held b' < uint n)"
  using assms(2-)
proof (induction fuel arbitrary: re pc b l w)
  case (Suc fuel)
  note led = Suc.prems(2)
  have fits: "held b1 + (income w2 - income w1) < 2 ^ 63"
    if "ledger key (income w1 - w0) 0 b0 l0 b1 l1" "income w2 \<le> income w'" for b1 l1 w1 w2
    using ledger_held [OF that(1) order_refl] that(2) Suc.prems(4) by linarith
  from Suc.prems(1) show ?case
  proof (cases rule: allow_loop_SucE)
    case (Redis l1 w1 g m b1 w2)
    note d = decides_ledger [OF Redis(1) led]
    have ok1: "limiter_ok l1" "lookup_bucket l1 key = Some b" using d(1) by (simp_all add: ledger_def)
    have w2: "income w2 \<le> income w'"
      using Redis(3) by (cases rule: redis_round.cases) (use allow_loop_income Borrowed_supply(1) in fastforce)+
    have led1: "ledger key (income w1 - w0) 0 b0 l0 b l1" using d by simp
    note R = redis_ledger [OF ok1 Redis(2) fits [OF led1 w2]]
    let ?l2 = "(put_bucket key b1 l1)\<lparr>l_borrowMgr := m\<rparr>"
    have led2: "ledger key (income w2 - w0) 0 b0 l0 b1 ?l2"
      using ledger_trans [OF led1 R(1)] by simp
    have lk2: "lookup_bucket ?l2 key = Some b1" "limiter_ok ?l2" using led2 by (simp_all add: ledger_def)
    from Redis(3) show ?thesis
    proof (cases rule: redis_round.cases)
      case failed
      then show ?thesis using led2 by (auto simp: spent_def)
    next
      case served
      then obtain m3 b4 where T: "try_serve key n b1 (?l2\<lparr>l_borrowMgr := m3\<rparr>) = (True, b4, l')" and bm: "bm_ok m3" and iw: "income w' = income w2"
        using Borrowed_supply R(2) by fastforce
      have l3: "ledger key (income w2 - w0) 0 b0 l0 b1 (?l2\<lparr>l_borrowMgr := m3\<rparr>)"
        using ledger_frame(2) [OF led2 bm] .
      then have "limiter_ok (?l2\<lparr>l_borrowMgr := m3\<rparr>)" "lookup_bucket (?l2\<lparr>l_borrowMgr := m3\<rparr>) key = Some b1"
        by (simp_all add: ledger_def)
      from ledger_trans [OF l3 try_serve_ledger(1) [OF this assms(1) T]]
      show ?thesis using served iw by (auto simp: spent_def)
    next
      case again
      then obtain m3 w3 b4 l4 where T: "try_serve key n b1 (?l2\<lparr>l_borrowMgr := m3\<rparr>) = (False, b4, l4)"
        and bm: "bm_ok m3" and iw: "income w3 = income w2"
        and run: "allow_loop fuel E key n re pc b4 l4 w3 = Some (Return (r, l', w'))"
        using Borrowed_supply R(2) by fastforce
      have l3: "ledger key (income w2 - w0) 0 b0 l0 b1 (?l2\<lparr>l_borrowMgr := m3\<rparr>)"
        using ledger_frame(2) [OF led2 bm] .
      then have ok3: "limiter_ok (?l2\<lparr>l_borrowMgr := m3\<rparr>)" "lookup_bucket (?l2\<lparr>l_borrowMgr := m3\<rparr>) key = Some b1"
        by (simp_all add: ledger_def)
      note S = try_serve_ledger [OF ok3 assms(1) T]
      have "ledger key (income w3 - w0) 0 b0 l0 b4 l4" "held b4 < uint n"
        using ledger_trans [OF l3 S(1)] S(2,3) iw by auto
      from Suc.IH [OF run this Suc.prems(4)] show ?thesis .
    next
      case empty
      have bok: "bucket_ok b1" using lk2 by (rule limiter_okD(3) [rotated])
      have e: "bucket_ok (MarkRedisExhausted b1)" "held (MarkRedisExhausted b1) = held b1 + 0"
        "b_window (MarkRedisExhausted b1) = b_window b1" "b_consumed (MarkRedisExhausted b1) = b_consumed b1"
        using bok by (simp_all add: MarkRedisExhausted_def bucket_ok_def)
      have "held b1 = held b"
        using Acquire_supply(3) [OF limiter_okD(2) [OF ok1(1)] Redis(2)] empty by simp
      moreover have "ledger key (income w2 - w0) 0 b0 l0 (MarkRedisExhausted b1)
          (put_bucket key (MarkRedisExhausted b1) ?l2)"
        using ledger_put [OF led2 e] by simp
      ultimately show ?thesis
        using empty Suc.IH [OF _ _ _ Suc.prems(4)] Suc.prems(3) e(2) by fastforce
    qed
  next
    case (Peer l1 w1 p b2 l2 w2)
    note d = decides_ledger [OF Peer(1) led]
    have ok1: "limiter_ok l1" "lookup_bucket l1 key = Some b" using d(1) by (simp_all add: ledger_def)
    have w2: "income w2 \<le> income w'"
      using Peer(3) by (cases rule: peer_round.cases) (auto dest: allow_loop_income)
    have led1: "ledger key (income w1 - w0) 0 b0 l0 b l1" using d by simp
    note R = peer_ledger [OF ok1 Peer(2) fits [OF led1 w2]]
    have led2: "ledger key (income w2 - w0) 0 b0 l0 b2 (put_bucket key b2 l2)"
      using ledger_trans [OF led1 R(1)] by simp
    have lk2: "limiter_ok (put_bucket key b2 l2)" "lookup_bucket (put_bucket key b2 l2) key = Some b2"
      using led2 by (simp_all add: ledger_def)
    from Peer(3) show ?thesis
    proof (cases rule: peer_round.cases)
      case served
      from ledger_trans [OF led2 try_serve_ledger(1) [OF lk2 assms(1)]] served
      show ?thesis by (fastforce simp: spent_def)
    next
      case again
      then obtain b4 l4 where T: "try_serve key n b2 (put_bucket key b2 l2) = (False, b4, l4)"
        and run: "allow_loop fuel E key n re True b4 l4 w2 = Some (Return (r, l', w'))" by blast
      note S = try_serve_ledger [OF lk2 assms(1) T]
      have "ledger key (income w2 - w0) 0 b0 l0 b4 l4" "held b4 < uint n"
        using ledger_trans [OF led2 S(1)] S(2,3) by auto
      from Suc.IH [OF run this Suc.prems(4)] show ?thesis .
    next
      case none
      then have "held b2 < uint n" using R(4) Suc.prems(3) by simp
      with none led2 Suc.IH [OF _ _ _ Suc.prems(4)] show ?thesis by fastforce
    qed
  next
    case (Error e)
    have "ledger key (income w' - w0) (spent n r) b0 l0 b l'"
      using decides_ledger(1,2) [OF Error(1) led] Error(2) by (simp add: spent_def)
    then show ?thesis using Error(2) by blast
  next
    case Deny
    have "ledger key (income w' - w0) (spent n r) b0 l0 b l'"
      using decides_ledger(1,2) [OF Deny(1) led] Deny(2) by (simp add: spent_def)
    then show ?thesis using Suc.prems(3) by blast
  qed
qed simp

end

subsection \<open>The loop ends\<close>

text \<open>What the environment may deliver at once: less than \<open>2^62\<close> tokens of the key.\<close>

definition grants_fit :: "('w, 'r, 'c) env \<Rightarrow> string \<Rightarrow> bool" where
  "grants_fit E key \<longleftrightarrow>
     (\<forall>i req ttl t w g w'. pool_Borrow (e_redis E) key i req ttl t w = (Inr g, w') \<longrightarrow> uint g < 2 ^ 62) \<and>
     (\<forall>c q w g w'. e_stub E c q w = (Inr g, w') \<longrightarrow> uint g < 2 ^ 62)"

lemma Acquire_result:
  assumes "Acquire oor C clk key need f m b w = (r, m', b', w')"
  shows "b' = (case r of Inl e \<Rightarrow> b | Inr g \<Rightarrow> if 0 < g then f g b else b)"
    "r = Inr g \<Longrightarrow> \<exists>i req ttl t w0 w1. pool_Borrow C key i req ttl t w0 = (Inr g, w1)"
proof -
  let ?size = "if ComputeBorrowSize oor (bm_sizer m) < need then need else ComputeBorrowSize oor (bm_sizer m)"
  obtain t w0 where t: "clk w = (t, w0)" by (cases "clk w")
  obtain p w1 where p: "pool_Borrow C key (bm_instanceID m) ?size (bm_leaseTTLms m) t w0 = (p, w1)"
    by (cases "pool_Borrow C key (bm_instanceID m) ?size (bm_leaseTTLms m) t w0")
  have fl: "fst (acquire_flight oor C clk key need f m b w) = p"
    "fst (snd (snd (acquire_flight oor C clk key need f m b w))) = (case p of Inl e \<Rightarrow> b | Inr g \<Rightarrow> if 0 < g then f g b else b)"
    by (auto simp: acquire_flight_def t p Let_def split_beta split: sum.split)
  have r: "fst (acquire_finish p m1) = p" for m1
    by (auto simp: acquire_finish_def split: sum.split)
  show "b' = (case r of Inl e \<Rightarrow> b | Inr g \<Rightarrow> if 0 < g then f g b else b)"
    using assms fl r by (auto simp: Acquire_def split_beta)
  show "\<exists>i req ttl t w0 w1. pool_Borrow C key i req ttl t w0 = (Inr g, w1)" if "r = Inr g"
  proof -
    have "p = Inr g" using assms fl r that by (auto simp: Acquire_def split_beta)
    then show ?thesis using p by blast
  qed
qed

lemma probe_fits:
  assumes "\<And>c q w g w'. stub c q w = (Inr g, w') \<Longrightarrow> uint g < 2 ^ 62"
    "probe stub lookup a key need c w = (Inr g, rep, w')"
  shows "uint g < 2 ^ 62"
  using assms by (auto simp: probe_def RequestTokens_def Let_def split: option.splits prod.splits sum.splits if_splits)

lemma probeSequential_fits:
  assumes "\<And>c q w g w'. stub c q w = (Inr g, w') \<Longrightarrow> uint g < 2 ^ 62"
    "probeSequential stub lookup ctxErr a key need cs w = (Inr g, rep, w')"
  shows "uint g < 2 ^ 62"
  using assms(2)
proof (induction cs arbitrary: w rep)
  case (Cons c cs)
  obtain r1 rep1 w1 where p: "probe stub lookup a key need c w = (r1, rep1, w1)" by (rule prod_cases3)
  with Cons show ?case
    using probe_fits [of stub lookup a key need c w, OF assms(1)]
    by (fastforce simp: Let_def split: option.splits sum.splits if_splits prod.splits)
qed simp

lemma run_probes_fits:
  assumes "\<And>c q w g w'. stub c q w = (Inr g, w') \<Longrightarrow> uint g < 2 ^ 62"
    "run_probes stub lookup a key need cs w = (rs, reps, w')" "Inr g \<in> set rs"
  shows "uint g < 2 ^ 62"
  using assms(2,3)
proof (induction cs arbitrary: w rs reps)
  case (Cons c cs)
  obtain r1 rep1 w1 where p: "probe stub lookup a key need c w = (r1, rep1, w1)" by (rule prod_cases3)
  with Cons show ?case
    using probe_fits [of stub lookup a key need c w, OF assms(1)]
    by (fastforce simp: Let_def split: prod.splits)
qed simp

lemma collect_mem: "collect d e rs = (Inr g, rest) \<Longrightarrow> g = 0 \<or> Inr g \<in> set rs"
  by (induction rs arbitrary: d) (fastforce split: if_splits sum.splits)+

lemma acquireFromPeers_result:
  assumes "acquireFromPeers E key need b l w = Return (r, b', l', w')"
  shows "b' = (case r of Inl e \<Rightarrow> b | Inr g \<Rightarrow> if 0 < g then refill g b else b)"
    "l_acquirer l' = l_acquirer l"
    "grants_fit E key \<Longrightarrow> r = Inr g \<Longrightarrow> uint g < 2 ^ 62"
proof -
  obtain a where a: "l_acquirer l = Some a" using assms by (cases "l_acquirer l") (auto simp: acquireFromPeers_def)
  obtain t w1 where t: "e_wall E w = (t, w1)" by (cases "e_wall E w")
  let ?body = "acquire_body (e_stub E) (e_lookup E) (e_sched E w1) (e_oor E) (l_gossiper l) t a key need w1"
  obtain r0 extras reps where body: "?body = Return (r0, extras, reps, w')"
    and r: "r = acquirer_shared r0" and b': "b' = (case r0 of Inr n \<Rightarrow> if 0 < n then refill n b else b | Inl e \<Rightarrow> b)"
    and l': "l_acquirer l' = l_acquirer l"
    using assms a t unfolding acquireFromPeers_def acquirer_Acquire_def
    by (cases ?body) (auto split: prod.splits)
  have r0: "r0 = r" using r by (auto simp: acquirer_shared_def split: sum.splits)
  show "b' = (case r of Inl e \<Rightarrow> b | Inr g \<Rightarrow> if 0 < g then refill g b else b)" using b' r0 by (auto split: sum.splits)
  show "l_acquirer l' = l_acquirer l" by (rule l')
  assume fits: "grants_fit E key" and "r = Inr g"
  have fit: "\<And>c q w g w'. e_stub E c q w = (Inr g, w') \<Longrightarrow> uint g < 2 ^ 62"
    using fits unfolding grants_fit_def by blast
  obtain cs where "TopK (e_oor E) (acq_probeK a) key t (l_gossiper l) = Return cs"
    using body unfolding acquire_body_def by (cases "TopK (e_oor E) (acq_probeK a) key t (l_gossiper l)") auto
  note body = body [unfolded acquire_body_def this go_bind.simps r0 \<open>r = Inr g\<close>]
  show "uint g < 2 ^ 62"
  proof (cases "cs = []")
    case False
    show ?thesis
    proof (cases "acq_mode a")
      case ProbeSequential
      then show ?thesis using body False probeSequential_fits [where stub = "e_stub E", OF fit]
        by (auto simp: Let_def split: prod.splits)
    next
      case ProbeParallel
      then show ?thesis using body False run_probes_fits [where stub = "e_stub E", OF fit] collect_mem
        by (fastforce simp: probeParallel_def split: prod.splits)
    qed
  qed (use body in auto)
qed

lemma try_serve_bucket:
  "fst (snd (try_serve key n b l)) = (if fst (try_serve key n b l) then recordConsumption n (snd (tryConsume n b)) else b)"
  "fst (try_serve key n b l) = fst (tryConsume n b)"
  by (auto simp: try_serve_def tryConsume_def TryConsume_def Let_def split_beta split: if_splits)

text \<open>
  The measure of a round: peers not asked yet, the pool not exhausted yet, and the tokens missing.
  A grant lowers the missing tokens, an empty grant exhausts the key, and after both the contract
  of the router leaves only the denial.
\<close>

definition rounds_left :: "u64 \<Rightarrow> bool \<Rightarrow> bool \<Rightarrow> bucket \<Rightarrow> nat" where
  "rounds_left n re pc b = (if pc then 0 else 1) + (if re then 0 else 1 + nat (uint n - held b))"

lemma serve_or_stay:
  assumes "bucket_ok b" "amount n" "try_serve key n b l = (False, b', l')"
  shows "b' = b" "held b < uint n"
proof -
  show "b' = b" using assms(3) try_serve_bucket(1) [of key n b l] by simp
  have "\<not> fst (TryConsume n (b_local b))" using assms(3) try_serve_bucket(2) [of key n b l] by simp
  then show "held b < uint n" using assms(2) TryConsume_true_iff [of n "b_local b"] by (simp add: sint_small)
qed

context router begin

lemma allow_loop_ends:
  assumes "e_decide E = Some decide" "grants_fit E key" "uint n < 2 ^ 62"
    and "bucket_ok b" "held b < uint n" "rounds_left n re pc b < fuel"
  shows "allow_loop fuel E key n re pc b l w \<noteq> None"
  using assms(4-)
proof (induction fuel arbitrary: re pc b l w)
  case (Suc fuel)
  let ?rc = "\<lparr>rc_Key = key, rc_Need = n, rc_RedisExhausted = re, rc_HasPeers = (l_acquirer l \<noteq> None \<and> \<not> pc)\<rparr>"
  obtain x r1 w1 where x: "decide (l_gossiper l) ?rc (l_router l) w = (x, r1, w1)" by (rule prod_cases3)
  let ?l = "l\<lparr>l_router := r1\<rparr>"
  obtain dec where dec: "x = Inr dec" using no_error [of "l_gossiper l" ?rc "l_router l" w] x by auto
  note step = allow_loop.simps(2) [of fuel E key n re pc b l w, unfolded assms(1) option.case Let_def x prod.case dec sum.case]
  have amt: "amount n" using assms(3) by simp
  have fits: "bucket_ok (f g b) \<and> held (f g b) = held b + uint g \<and> held b + uint g < 2 ^ 63"
    if "f = refill \<or> f = on_grant" "uint g < 2 ^ 62" for f g
  proof -
    have h: "held b + uint g < 2 ^ 63" using that(2) assms(3) Suc.prems(2) by simp
    have "bucket_ok (ClearRedisExhausted b)" "held (ClearRedisExhausted b) = held b"
      using Suc.prems(1) by (simp_all add: ClearRedisExhausted_def bucket_ok_def)
    then show ?thesis
      using that(1) h Suc.prems(1) by (auto simp: refill_ok refill_held on_grant_def)
  qed
  show ?case
  proof (cases dec)
    case DecisionDeny
    then show ?thesis by (simp del: allow_loop.simps add: step)
  next
    case DecisionRedis
    have re: "\<not> re" using redis_not_exhausted [of "l_gossiper l" ?rc "l_router l" w] x dec DecisionRedis by simp
    obtain g m b1 w2 where A: "Acquire (e_oor E) (e_redis E) (e_wall E) key n on_grant (l_borrowMgr ?l) b w1 = (g, m, b1, w2)"
      by (rule prod_cases4)
    note AR = Acquire_result [OF A]
    note step = step [unfolded DecisionRedis Decision.case A prod.case]
    show ?thesis
    proof (cases g)
      case (Inr k)
      note step = step [unfolded Inr sum.case]
      have fit: "uint k < 2 ^ 62" using AR(2) [OF Inr] assms(2) unfolding grants_fit_def by blast
      show ?thesis
      proof (cases "0 < k")
        case True
        then have b1: "b1 = on_grant k b" "0 < uint k" using AR(1) Inr by (simp_all add: word_less_def)
        have bk: "bucket_ok b1" "held b1 = held b + uint k" using fits [of on_grant k] fit b1 by auto
        obtain v m3 w3 where B: "Borrowed (e_wall E) key m w2 = (v, m3, w3)" by (rule prod_cases3)
        obtain ok b4 l4 where T: "try_serve key n b1 ((put_bucket key b1 ?l)\<lparr>l_borrowMgr := m, l_borrowMgr := m3\<rparr>) = (ok, b4, l4)"
          by (rule prod_cases3)
        note step = step [unfolded B prod.case T]
        show ?thesis
        proof (cases ok)
          case False
          then have "ok = False" by simp
          note T = T [unfolded this]
          note st = serve_or_stay [OF bk(1) amt T]
          have "rounds_left n re pc b1 < rounds_left n re pc b"
            using re bk(2) b1(2) Suc.prems(2) by (simp add: rounds_left_def)
          then have "rounds_left n re pc b1 < fuel" using Suc.prems(3) by simp
          with st bk Suc.IH [of b1 re pc l4 w3] show ?thesis
            using True False by (simp del: allow_loop.simps add: step)
        qed (use True in \<open>simp del: allow_loop.simps add: step\<close>)
      next
        case False
        then have k: "k = 0" by (simp add: word_gt_0)
        then have b1: "b1 = b" using AR(1) Inr by simp
        have "bucket_ok (MarkRedisExhausted b)" "held (MarkRedisExhausted b) = held b"
          using Suc.prems(1) by (simp_all add: MarkRedisExhausted_def bucket_ok_def)
        moreover have "rounds_left n True pc (MarkRedisExhausted b) < fuel"
          using Suc.prems(3) re by (simp add: rounds_left_def)
        ultimately show ?thesis
          using Suc.IH Suc.prems(2) k b1 by (simp del: allow_loop.simps add: step)
      qed
    qed (simp del: allow_loop.simps add: step)
  next
    case DecisionPeer
    have pc: "\<not> pc" using peer_has_peers [of "l_gossiper l" ?rc "l_router l" w] x dec DecisionPeer by simp
    show ?thesis
    proof (cases "acquireFromPeers E key n b ?l w1")
      case (Return q)
      obtain p b2 l2 w2 where q: "q = (p, b2, l2, w2)" by (rule prod_cases4)
      note step = step [unfolded DecisionPeer Decision.case Return q go.case prod.case]
      note PR = acquireFromPeers_result [OF Return [unfolded q]]
      have more: "allow_loop fuel E key n re True b' l' w' \<noteq> None" if "bucket_ok b'" "held b \<le> held b'" "held b' < uint n" for b' l' w'
      proof -
        have "rounds_left n re True b' < fuel"
          using Suc.prems(3) pc that(2) by (auto simp: rounds_left_def split: if_splits)
        with that Suc.IH show ?thesis by blast
      qed
      show ?thesis
      proof (cases "\<exists>g. p = Inr g \<and> 0 < g")
        case True
        then obtain g where g: "p = Inr g" "0 < g" by blast
        have b2: "b2 = refill g b" using PR(1) g by simp
        have bk: "bucket_ok b2" "held b2 = held b + uint g"
          using fits [of refill g] PR(3) [OF assms(2) g(1)] b2 by auto
        obtain ok b4 l4 where T: "try_serve key n b2 (put_bucket key b2 l2) = (ok, b4, l4)" by (rule prod_cases3)
        note step = step [unfolded g(1) sum.case T prod.case]
        show ?thesis
        proof (cases ok)
          case False
          then have no: "ok = False" by simp
          note T = T [unfolded no]
          have "allow_loop fuel E key n re True b4 l4 w2 \<noteq> None"
            using serve_or_stay [OF bk(1) amt T] bk by (intro more) auto
          then show ?thesis using g(2) no by (simp del: allow_loop.simps add: step)
        qed (use g(2) in \<open>simp del: allow_loop.simps add: step\<close>)
      next
        case False
        then have b2: "b2 = b" using PR(1) by (auto split: sum.splits)
        have "allow_loop fuel E key n re True b2 (put_bucket key b2 l2) w2 \<noteq> None"
          using b2 Suc.prems(1,2) by (intro more) auto
        then show ?thesis using False
          by (cases p) (auto simp del: allow_loop.simps simp: step)
      qed
    qed (simp del: allow_loop.simps add: step DecisionPeer)
  qed
qed simp

end

lemma allow_loop_mono:
  "allow_loop fuel E key n re pc b l w = Some res \<Longrightarrow> fuel \<le> fuel' \<Longrightarrow>
   allow_loop fuel' E key n re pc b l w = Some res"
proof (induction fuel arbitrary: fuel' re pc b l w)
  case (Suc fuel)
  obtain f' where f': "fuel' = Suc f'" "fuel \<le> f'" using Suc.prems(2) by (cases fuel') auto
  show ?case
    using Suc.prems(1) Suc.IH [OF _ f'(2)] unfolding f'(1)
    by (auto simp: Let_def split: option.splits sum.splits Decision.splits prod.splits if_splits go.splits)
qed simp

end
