(* ===== verification/Limiter_Props.thy ===== *)
theory Limiter_Props
  imports Limiter_Ledger
begin

text \<open>
  The properties of the limiter: what a call of \<^verbatim>\<open>AllowN\<close> does with the tokens of its key, that it
  ends, its errors and panics, window resets, token transfers to peers and eviction.
\<close>

subsection \<open>Metered environments\<close>

text \<open>Every environment, wrapped so that the tokens of a key it delivers are counted in its world.\<close>

definition delivered_reply :: "string \<Rightarrow> script \<Rightarrow> string list \<Rightarrow> err + reply \<Rightarrow> int" where
  "delivered_reply key sc ks r =
     (if sc = BorrowScript \<and> ks \<noteq> [] \<and> hd ks = PoolKey key
      then (case r of Inl e \<Rightarrow> 0 | Inr v \<Rightarrow> (case toUint64 v of Inl e \<Rightarrow> 0 | Inr g \<Rightarrow> uint g)) else 0)"

definition meter_env :: "string \<Rightarrow> ('w, 'r, 'c) env \<Rightarrow> ('w \<times> int, 'r, 'c) env" where
  "meter_env key E =
     \<lparr>e_oor = e_oor E,
      e_redis = \<lparr>EvalSha = (\<lambda>sc ks args (w, c). let (r, w') = EvalSha (e_redis E) sc ks args w
                     in (r, (w', c + delivered_reply key sc ks r))),
                 Eval = (\<lambda>sc ks args (w, c). let (r, w') = Eval (e_redis E) sc ks args w
                     in (r, (w', c + delivered_reply key sc ks r)))\<rparr>,
      e_wall = (\<lambda>(w, c). let (t, w') = e_wall E w in (t, (w', c))),
      e_clock = (\<lambda>(w, c). let (t, w') = e_clock E w in (t, (w', c))),
      e_stub = (\<lambda>cl q (w, c). let (r, w') = e_stub E cl q w
                in (r, (w', c + (if tr_LimitKey q = key then (case r of Inl e \<Rightarrow> 0 | Inr g \<Rightarrow> uint g) else 0)))),
      e_lookup = e_lookup E,
      e_sched = (\<lambda>(w, c). let s = e_sched E w
                in \<lparr>sch_order = sch_order s, sch_done = sch_done s, sch_doneErr = sch_doneErr s,
                    sch_ctxErr = sch_ctxErr s \<circ> fst\<rparr>),
      e_decide = map_option (\<lambda>d g rc r (w, c). let (x, r', w') = d g rc r w in (x, r', (w', c))) (e_decide E),
      e_routerEvict = e_routerEvict E, e_routerRemovePeer = e_routerRemovePeer E\<rparr>"

lemma PoolKey_inj: "PoolKey k = PoolKey k' \<longleftrightarrow> k = k'"
  by (simp add: PoolKey_def)

lemma noscript_delivers_nothing: "delivered_reply key sc ks (Inl e) = 0"
  by (simp add: delivered_reply_def)

interpretation metered: token_source "meter_env key E" key snd for key E
proof unfold_locales
  fix i req ttl t w g w'
  assume b: "pool_Borrow (e_redis (meter_env key E)) key i req ttl t w = (g, w')"
  obtain w0 c where w: "w = (w0, c)" by (cases w)
  let ?ks = "[PoolKey key, BorrowedKey key i]" and ?args = "[sint req, sint ttl, sint (UnixMilli t)]"
  obtain r1 w1 where r1: "EvalSha (e_redis E) BorrowScript ?ks ?args w0 = (r1, w1)" by (meson surj_pair)
  obtain r2 w2 where r2: "Eval (e_redis E) BorrowScript ?ks ?args w1 = (r2, w2)" by (meson surj_pair)
  show "snd w' = snd w + (case g of Inl e \<Rightarrow> 0 | Inr n \<Rightarrow> uint n)"
    using b w r1 r2
    by (auto simp: pool_Borrow_def runScript_def meter_env_def delivered_reply_def Let_def split_beta
        split: sum.splits if_splits)
next
  fix lm st w e w'
  assume "pool_ResetWindow (e_redis (meter_env key E)) key lm st w = (e, w')"
  then show "snd w' = snd w"
    by (cases w) (auto simp: pool_ResetWindow_def runScript_def meter_env_def delivered_reply_def Let_def split_beta
        split: sum.splits if_splits)
qed (auto simp: meter_env_def Let_def split_beta split: sum.splits prod.splits)

subsection \<open>One call\<close>

lemma resetWindow_spec:
  assumes "limiter_ok l" "lookup_bucket l key = Some b" "resetWindow E key nowMs l w = Return (e, l', w')"
  shows "limiter_ok l' \<and> (\<forall>k. k \<noteq> key \<longrightarrow> lookup_bucket l' k = lookup_bucket l k) \<and> (\<forall>k. pending l' k = pending l k) \<and>
    l_opts l' = l_opts l \<and> l_closed l' = l_closed l \<and>
    (w' = w \<or> (\<exists>st. (if e = None then fst (pool_ResetWindow (e_redis E) key (o_limit (l_opts l)) st w) = None else True) \<and>
       w' = snd (pool_ResetWindow (e_redis E) key (o_limit (l_opts l)) st w))) \<and>
    (\<exists>b'. lookup_bucket l' key = Some b' \<and>
       (b' = b \<or> e = None \<and> held b' = 0 \<and> b_consumed b' = 0 \<and> \<not> b_redisExhausted b' \<and>
          sint (WindowStartMs (b_window b)) < sint (WindowStartMs (b_window b'))))"
proof -
  have g: "getOrCreateBucket E key l w = (b, l, w)" using assms(2) by (simp add: getOrCreateBucket_def)
  let ?ms = "Milliseconds (o_window (l_opts l))"
  let ?st = "i64_div nowMs ?ms * ?ms"
  have ms: "?ms \<noteq> 0" using assms(3) g by (auto simp: resetWindow_def Let_def)
  show ?thesis
  proof (cases "sint ?st \<le> sint (WindowStartMs (b_window b))")
    case True
    then show ?thesis using assms g ms by (auto simp: resetWindow_def Let_def)
  next
    case late: False
    obtain e1 w2 where r: "pool_ResetWindow (e_redis E) key (o_limit (l_opts l)) ?st w = (e1, w2)"
      by (cases "pool_ResetWindow (e_redis E) key (o_limit (l_opts l)) ?st w")
    show ?thesis
    proof (cases e1)
      case (Some msg)
      then have "e = Some (''reset window: '' @ msg)" "l' = l" "w' = w2"
        using assms(3) g ms late r by (auto simp: resetWindow_def Let_def)
      then show ?thesis using assms(1,2) r by (metis snd_conv option.distinct(1))
    next
      case None
      let ?b1 = "resetConsumed (ClearRedisExhausted (snd (drain b)))"
      let ?b = "?b1\<lparr>b_window := UpdateWindowStart ?st (b_window ?b1)\<rparr>"
      have e: "e = None" "w' = w2"
        "l' = (put_bucket key ?b l)\<lparr>l_borrowMgr := bm_Reset key (l_borrowMgr l)\<rparr>"
        using assms(3) g ms late r None by (auto simp: resetWindow_def Let_def)
      have b: "bucket_ok ?b" "held ?b = 0" "b_consumed ?b = 0" "\<not> b_redisExhausted ?b"
        "WindowStartMs (b_window ?b) = ?st"
        using drain_snd [of b]
        by (simp_all add: resetConsumed_def ClearRedisExhausted_def bucket_ok_def UpdateWindowStart_def WindowStartMs_def)
      note sok = limiter_okD(1) [OF assms(1)]
      have "limiter_ok l'"
        using limiter_ok_put [OF assms(1) b(1), of key] Reset_ok [OF limiter_okD(2) [OF assms(1)], of key]
        unfolding e by (simp add: limiter_ok_def)
      moreover have "lookup_bucket l' k = (if k = key then Some ?b else lookup_bucket l k)" for k
        unfolding e by (simp add: lookup_put [OF sok])
      ultimately show ?thesis
        using b late e r None by (auto intro!: exI [of _ ?st])
    qed
  qed
qed

lemma updateAccess_fields [simp]:
  "held (updateAccess t b) = held b" "b_window (updateAccess t b) = b_window b"
  "b_consumed (updateAccess t b) = b_consumed b" "bucket_ok (updateAccess t b) = bucket_ok b"
  by (simp_all add: updateAccess_def bucket_ok_def)

lemma maybePreBorrow_spec:
  assumes "limiter_ok l" "lookup_bucket l key = Some b"
  shows "limiter_ok (maybePreBorrow key b l)" "pending (maybePreBorrow key b l) k = pending l k"
    "k \<noteq> key \<Longrightarrow> lookup_bucket (maybePreBorrow key b l) k = lookup_bucket l k"
    "\<exists>b'. lookup_bucket (maybePreBorrow key b l) key = Some b' \<and> held b' = held b \<and>
       b_window b' = b_window b \<and> b_consumed b' = b_consumed b"
    "l_opts (maybePreBorrow key b l) = l_opts l" "l_closed (maybePreBorrow key b l) = l_closed l"
proof -
  note sok = limiter_okD(1) [OF assms(1)] and bok = limiter_okD(3) [OF assms]
  let ?b = "b\<lparr>b_preBorrowing := True\<rparr>"
  have "bucket_ok ?b" using bok by (simp add: bucket_ok_def)
  note ok = limiter_ok_put [OF assms(1) this, of key]
  show "limiter_ok (maybePreBorrow key b l)" "pending (maybePreBorrow key b l) k = pending l k"
    "k \<noteq> key \<Longrightarrow> lookup_bucket (maybePreBorrow key b l) k = lookup_bucket l k"
    "\<exists>b'. lookup_bucket (maybePreBorrow key b l) key = Some b' \<and> held b' = held b \<and>
       b_window b' = b_window b \<and> b_consumed b' = b_consumed b"
    "l_opts (maybePreBorrow key b l) = l_opts l" "l_closed (maybePreBorrow key b l) = l_closed l"
    using ok assms by (auto simp: maybePreBorrow_def TryMarkPreBorrowing_def lookup_put [OF sok])
qed

text \<open>
  The books of a call: either one ledger from its start, or a ledger from the state a window reset
  left, in which the bucket is empty and its window has advanced.
\<close>

definition was_reset :: "string \<Rightarrow> bucket \<Rightarrow> 'r limiter \<Rightarrow> bucket \<Rightarrow> 'r limiter \<Rightarrow> bool" where
  "was_reset key b l b' l' \<longleftrightarrow> held b' = 0 \<and> b_consumed b' = 0 \<and>
     sint (WindowStartMs (b_window b)) < sint (WindowStartMs (b_window b')) \<and>
     (\<forall>k. pending l' k = pending l k) \<and> (\<forall>k. k \<noteq> key \<longrightarrow> lookup_bucket l' k = lookup_bucket l k)"

definition booked :: "string \<Rightarrow> int \<Rightarrow> int \<Rightarrow> bucket \<Rightarrow> 'r limiter \<Rightarrow> bucket \<Rightarrow> 'r limiter \<Rightarrow> bool" where
  "booked key s t b l b' l' \<longleftrightarrow> ledger key s t b l b' l' \<or>
     (\<exists>b1 l1. was_reset key b l b1 l1 \<and> ledger key s t b1 l1 b' l')"

context token_source begin

lemma resetWindow_income: "resetWindow E key nowMs l w = Return (e, l', w') \<Longrightarrow> income w' = income w"
  by (auto simp: resetWindow_def Let_def split_beta split: if_splits option.splits)
     (metis getOrCreate_supply prod.collapse reset_supplies)+

lemma slow_tail:
  assumes "amount n" "limiter_ok l" "lookup_bucket l key = Some b" "held b + (income w' - income w) < 2 ^ 63"
    and "(let (ok, b3, l3) = try_serve key n b l in
       if ok then Some (Return (Inr True, l3, w)) else allow_loop fuel E key n (IsRedisExhausted b3) False b3 l3 w)
       = Some (Return (r, l', w'))"
  shows "\<exists>b'. ledger key (income w' - income w) (spent n r) b l b' l' \<and> (r = Inr False \<longrightarrow> held b' < uint n)"
proof -
  obtain ok b3 l3 where T: "try_serve key n b l = (ok, b3, l3)" by (rule prod_cases3)
  note S = try_serve_ledger [OF assms(2,3,1) T]
  show ?thesis
  proof (cases ok)
    case True
    then show ?thesis using assms(5) T S(1) by (auto simp: spent_def)
  next
    case False
    then have "allow_loop fuel E key n (IsRedisExhausted b3) False b3 l3 w = Some (Return (r, l', w'))"
      using assms(5) T by simp
    from allow_loop_ledger [OF assms(1) this, of "income w" b l] show ?thesis
      using S False assms(4) by auto
  qed
qed

lemma allow_slow_books:
  assumes "amount n" "limiter_ok l" "lookup_bucket l key = Some b" "held b < uint n"
    and "held b + (income w' - income w) < 2 ^ 63"
    and "allow_slow fuel E key n b l w = Some (Return (r, l', w'))"
  shows "\<exists>b'. booked key (income w' - income w) (spent n r) b l b' l' \<and> (r = Inr False \<longrightarrow> held b' < uint n)"
proof -
  obtain t w1 where t: "e_clock E w = (t, w1)" by (cases "e_clock E w")
  note inc = clock_supply [OF t]
  note run = assms(6) [unfolded allow_slow_def t Let_def prod.case]
  show ?thesis
  proof (cases "needsReset (UnixMilli t) b")
    case False
    then have "allow_loop fuel E key n (IsRedisExhausted b) False b l w1 = Some (Return (r, l', w'))"
      using run by simp
    from allow_loop_ledger [OF assms(1) this, of "income w" b l] show ?thesis
      using ledger_refl [OF assms(2,3)] assms(4,5) inc by (auto simp: booked_def)
  next
    case True
    then obtain e l2 w2 where R: "resetWindow E key (UnixMilli t) l w1 = Return (e, l2, w2)"
      using run by (cases "resetWindow E key (UnixMilli t) l w1") (auto split: prod.splits)
    note R' = resetWindow_spec [OF assms(2,3) R]
    obtain b1 where b1: "lookup_bucket l2 key = Some b1" using R' by blast
    have inc2: "income w2 = income w" using resetWindow_income [OF R] inc by simp
    have run2: "(let (ok, b3, l3) = try_serve key n b1 l2 in
       if ok then Some (Return (Inr True, l3, w2)) else allow_loop fuel E key n (IsRedisExhausted b3) False b3 l3 w2)
       = Some (Return (r, l', w'))"
      using run True R b1 by (simp add: current_def Let_def)
    have l2: "limiter_ok l2" "b1 = b \<and> ledger key 0 0 b l b l2 \<or> was_reset key b l b1 l2"
      using R' b1 assms(2,3) by (auto simp: was_reset_def ledger_def)
    have "held b1 + (income w' - income w2) < 2 ^ 63"
      using l2(2) assms(4,5) inc2 uint_ge_0 [of n] limiter_okD(3) [OF assms(2,3)]
      by (auto simp: was_reset_def bucket_ok_def lb_ok_def)
    from slow_tail [OF assms(1) l2(1) b1 this run2] obtain b' where
      b': "ledger key (income w' - income w) (spent n r) b1 l2 b' l'" "r = Inr False \<longrightarrow> held b' < uint n"
      using inc2 by auto
    have "booked key (income w' - income w) (spent n r) b l b' l'"
      using l2(2) b'(1) ledger_trans [of key 0 0 b l b l2] by (auto simp: booked_def)
    then show ?thesis using b'(2) by blast
  qed
qed

lemma AllowN_books:
  assumes "limiter_ok l" "amount n" "AllowN fuel E key n l w = Some (Return (r, l', w'))" "\<not> l_closed l"
    and "held_at l key + (income w' - income w) < 2 ^ 63"
  shows "\<exists>b0 l0 b'. lookup_bucket l0 key = Some b0 \<and> held b0 = held_at l key \<and>
    (\<forall>b. lookup_bucket l key = Some b \<longrightarrow> b_window b0 = b_window b \<and> b_consumed b0 = b_consumed b) \<and>
    (\<forall>k. pending l0 k = pending l k) \<and> (\<forall>k. k \<noteq> key \<longrightarrow> lookup_bucket l0 k = lookup_bucket l k) \<and>
    booked key (income w' - income w) (spent n r) b0 l0 b' l' \<and> (r = Inr False \<longrightarrow> held b' < uint n)"
proof -
  obtain t w1 where t: "e_clock E w = (t, w1)" by (cases "e_clock E w")
  obtain b l1 w2 where g: "getOrCreateBucket E key l w1 = (b, l1, w2)" by (rule prod_cases3)
  note G = getOrCreateBucket_spec [OF assms(1) g]
  let ?b = "updateAccess (UnixMilli t) b" and ?l = "put_bucket key (updateAccess (UnixMilli t) b) l1"
  obtain ok b2 l2 where T: "try_serve key n ?b ?l = (ok, b2, l2)" by (rule prod_cases3)
  have l: "limiter_ok ?l" "lookup_bucket ?l key = Some ?b" "held ?b = held_at l key"
    "pending ?l k = pending l k" "k \<noteq> key \<Longrightarrow> lookup_bucket ?l k = lookup_bucket l k" for k
    using G(1-6) by (simp_all add: limiter_ok_put lookup_put limiter_okD)
  have win: "\<forall>b. lookup_bucket l key = Some b \<longrightarrow> b_window ?b = b_window b \<and> b_consumed ?b = b_consumed b"
    using G(12) by auto
  note S = try_serve_ledger [OF l(1,2) assms(2) T]
  have inc: "income w2 = income w" using getOrCreate_supply [OF g] clock_supply [OF t] by simp
  note run = assms(3) [unfolded AllowN_def t g Let_def prod.case T]
  have "\<exists>b'. booked key (income w' - income w) (spent n r) ?b ?l b' l' \<and> (r = Inr False \<longrightarrow> held b' < uint n)"
  proof (cases ok)
    case False
    then have slow: "allow_slow fuel E key n b2 l2 w2 = Some (Return (r, l', w'))" using run assms(4) by simp
    have b2: "b2 = ?b" using serve_or_stay(1) [OF limiter_okD(3) [OF l(1,2)] assms(2)] T False by simp
    have l2: "limiter_ok l2" "lookup_bucket l2 key = Some b2" using S(1) by (simp_all add: ledger_def)
    obtain b' where b': "booked key (income w' - income w2) (spent n r) b2 l2 b' l'" "r = Inr False \<longrightarrow> held b' < uint n"
      using allow_slow_books [OF assms(2) l2 _ _ slow] S(2,3) False assms(5) l(3) inc by auto
    moreover have "was_reset key ?b ?l x y" if "was_reset key b2 l2 x y" for x y
      using that S(1) False b2 unfolding was_reset_def ledger_def by auto
    ultimately have "booked key (income w' - income w) (spent n r) ?b ?l b' l'"
      using ledger_trans [OF S(1)] False inc unfolding booked_def by auto
    then show ?thesis using b'(2) by blast
  next
    case True
    then have e: "r = Inr True" "w' = w2" "l' = l2 \<or> l' = maybePreBorrow key b2 l2"
      using run assms(4) by (auto split: if_splits)
    have led: "ledger key 0 (uint n) ?b ?l b2 l2" using S(1) True by simp
    then have l2: "limiter_ok l2" "lookup_bucket l2 key = Some b2" by (simp_all add: ledger_def)
    have "\<exists>b'. ledger key 0 (uint n) ?b ?l b' (maybePreBorrow key b2 l2)"
      using maybePreBorrow_spec [OF l2] led by (auto simp: ledger_def)
    then show ?thesis using e led inc by (auto simp: booked_def spent_def)
  qed
  then show ?thesis using l win by blast
qed

end

lemma booked_totals:
  assumes "booked key s t b l b' l'" "0 \<le> held b"
  shows "\<exists>lost. 0 \<le> lost \<and> lost \<le> held b \<and> held b' + pending l' key + t + lost = held b + pending l key + s \<and>
     (0 < lost \<longrightarrow> sint (WindowStartMs (b_window b)) < sint (WindowStartMs (b_window b')))"
    "limiter_ok l'" "lookup_bucket l' key = Some b'"
    "k \<noteq> key \<Longrightarrow> lookup_bucket l' k = lookup_bucket l k \<and> pending l' k = pending l k"
proof -
  show "\<exists>lost. 0 \<le> lost \<and> lost \<le> held b \<and> held b' + pending l' key + t + lost = held b + pending l key + s \<and>
     (0 < lost \<longrightarrow> sint (WindowStartMs (b_window b)) < sint (WindowStartMs (b_window b')))"
    using assms(1) unfolding booked_def
  proof (elim disjE exE conjE)
    assume "ledger key s t b l b' l'"
    then show ?thesis using assms(2) by (intro exI [of _ 0]) (simp add: ledger_def)
  next
    fix b1 l1
    assume "was_reset key b l b1 l1" "ledger key s t b1 l1 b' l'"
    then show ?thesis using assms(2) by (intro exI [of _ "held b"]) (simp add: was_reset_def ledger_def)
  qed
  show "limiter_ok l'" "lookup_bucket l' key = Some b'"
    "k \<noteq> key \<Longrightarrow> lookup_bucket l' k = lookup_bucket l k \<and> pending l' k = pending l k"
    using assms(1) by (auto simp: booked_def was_reset_def ledger_def)
qed

lemma AllowN_conserves:
  assumes "token_source E key income" "limiter_ok l" "amount n"
    and "AllowN fuel E key n l w = Some (Return (r, l', w'))"
    and "held_at l key + (income w' - income w) < 2 ^ 63"
  shows "limiter_ok l' \<and>
    (\<exists>lost. 0 \<le> lost \<and> lost \<le> held_at l key \<and>
       held_at l' key + pending l' key + spent n r + lost = held_at l key + pending l key + (income w' - income w) \<and>
       (0 < lost \<longrightarrow> (\<exists>b b'. lookup_bucket l key = Some b \<and> lookup_bucket l' key = Some b' \<and>
          sint (WindowStartMs (b_window b)) < sint (WindowStartMs (b_window b'))))) \<and>
    (\<forall>k. k \<noteq> key \<longrightarrow> held_at l' k = held_at l k \<and> pending l' k = pending l k) \<and>
    (r = Inr False \<longrightarrow> held_at l' key < uint n)"
proof (cases "l_closed l")
  case True
  then show ?thesis
    using assms(2,4) limiter_okD(4) [OF assms(2), of key] by (intro conjI exI [of _ 0]) (auto simp: AllowN_def spent_def)
next
  case False
  obtain b0 l0 b' where B: "lookup_bucket l0 key = Some b0" "held b0 = held_at l key"
    "\<forall>b. lookup_bucket l key = Some b \<longrightarrow> b_window b0 = b_window b \<and> b_consumed b0 = b_consumed b"
    "\<forall>k. pending l0 k = pending l k" "\<forall>k. k \<noteq> key \<longrightarrow> lookup_bucket l0 k = lookup_bucket l k"
    "booked key (income w' - income w) (spent n r) b0 l0 b' l'" "r = Inr False \<longrightarrow> held b' < uint n"
    using token_source.AllowN_books [OF assms(1-4) False assms(5)] by blast
  have nonneg: "0 \<le> held b0" using B(2) limiter_okD(4) [OF assms(2)] by simp
  note T = booked_totals [OF B(6) nonneg]
  obtain lost where lost: "0 \<le> lost" "lost \<le> held b0"
    "held b' + pending l' key + spent n r + lost = held b0 + pending l0 key + (income w' - income w)"
    "0 < lost \<longrightarrow> sint (WindowStartMs (b_window b0)) < sint (WindowStartMs (b_window b'))" using T(1) by blast
  have absent: "lookup_bucket l key = None \<Longrightarrow> lost = 0"
    using lost(1,2) B(2) by (simp add: held_at_def)
  have h: "held_at l' key = held b'" using T(3) by (simp add: held_at_def)
  show ?thesis
  proof (intro conjI exI [of _ lost])
    show "0 < lost \<longrightarrow> (\<exists>b b'. lookup_bucket l key = Some b \<and> lookup_bucket l' key = Some b' \<and>
        sint (WindowStartMs (b_window b)) < sint (WindowStartMs (b_window b')))"
      using absent lost(4) B(3) T(3) by (cases "lookup_bucket l key") auto
  qed (use T(2,4) lost B h in \<open>auto simp: held_at_def\<close>)
qed

text \<open>
  C3. Tokens are conserved by a call of \<^verbatim>\<open>AllowN\<close>. Let \<open>income\<close> count the tokens of the key that
  Redis and the peers deliver. What the limiter holds for the key afterwards, in its bucket and as
  extra tokens still to be handed back, plus the tokens a granted request spends, is what it held
  before plus what was delivered; tokens are dropped only when the window of the key advances, and
  then at most those the bucket held. No other key changes, and a denied request finds less than
  its amount in the bucket at the end.
\<close>
theorem AllowN_accounts:
  assumes "token_source E key income" "limiter_ok l" "amount n"
    and "AllowN fuel E key n l w = Some (Return (r, l', w'))"
    and "held_at l key + (income w' - income w) < 2 ^ 63"
  shows "limiter_ok l' \<and>
    (\<exists>lost. 0 \<le> lost \<and> lost \<le> held_at l key \<and>
       held_at l' key + pending l' key + spent n r + lost = held_at l key + pending l key + (income w' - income w) \<and>
       (0 < lost \<longrightarrow> (\<exists>b b'. lookup_bucket l key = Some b \<and> lookup_bucket l' key = Some b' \<and>
          sint (WindowStartMs (b_window b)) < sint (WindowStartMs (b_window b'))))) \<and>
    (\<forall>k. k \<noteq> key \<longrightarrow> held_at l' k = held_at l k \<and> pending l' k = pending l k) \<and>
    (r = Inr False \<longrightarrow> held_at l' key < uint n)"
  using assms by (rule AllowN_conserves)

subsection \<open>Calls end\<close>

context router begin

lemma tail_ends:
  assumes "e_decide E = Some decide" "grants_fit E key" "uint n < 2 ^ 62" "nat (uint n) + 2 < fuel"
    and "limiter_ok l" "lookup_bucket l key = Some b" "held b < uint n"
  shows "allow_loop fuel E key n (IsRedisExhausted b) False b l w \<noteq> None"
proof (rule allow_loop_ends [OF assms(1-3)])
  show bok: "bucket_ok b" using assms(5,6) by (rule limiter_okD(3))
  have "uint n - held b \<le> uint n" using bok by (simp add: bucket_ok_def lb_ok_def)
  then have "nat (uint n - held b) \<le> nat (uint n)" by (rule nat_mono)
  then show "rounds_left n (IsRedisExhausted b) False b < fuel"
    using assms(4) by (simp add: rounds_left_def)
qed (rule assms(7))

lemma slow_ends:
  assumes "e_decide E = Some decide" "grants_fit E key" "uint n < 2 ^ 62" "nat (uint n) + 2 < fuel"
    and "limiter_ok l" "lookup_bucket l key = Some b" "held b < uint n"
  shows "allow_slow fuel E key n b l w \<noteq> None"
proof -
  obtain t w1 where t: "e_clock E w = (t, w1)" by (cases "e_clock E w")
  have amt: "amount n" using assms(3) by simp
  show ?thesis
  proof (cases "needsReset (UnixMilli t) b")
    case False
    then show ?thesis using tail_ends [OF assms] by (simp add: allow_slow_def t Let_def)
  next
    case True
    show ?thesis
    proof (cases "resetWindow E key (UnixMilli t) l w1")
      case (Return q)
      obtain e l2 w2 where q: "q = (e, l2, w2)" by (rule prod_cases3)
      obtain b2 where b2: "limiter_ok l2" "lookup_bucket l2 key = Some b2"
        using resetWindow_spec [OF assms(5,6) Return [unfolded q]] by blast
      obtain ok b3 l3 where T: "try_serve key n b2 l2 = (ok, b3, l3)" by (rule prod_cases3)
      note S = try_serve_ledger [OF b2 amt T]
      have "allow_loop fuel E key n (IsRedisExhausted b3) False b3 l3 w2 \<noteq> None" if "\<not> ok"
        using tail_ends [OF assms(1-4)] S that by (simp add: ledger_def)
      then show ?thesis
        using True Return q b2(2) T by (simp add: allow_slow_def t Let_def current_def)
    qed (simp add: allow_slow_def t Let_def True)
  qed
qed

lemma AllowN_ends:
  assumes "e_decide E = Some decide" "grants_fit E key" "uint n < 2 ^ 62" "nat (uint n) + 2 < fuel" "limiter_ok l"
  shows "AllowN fuel E key n l w \<noteq> None"
proof -
  obtain t w1 where t: "e_clock E w = (t, w1)" by (cases "e_clock E w")
  obtain b l1 w2 where g: "getOrCreateBucket E key l w1 = (b, l1, w2)" by (rule prod_cases3)
  note G = getOrCreateBucket_spec [OF assms(5) g]
  let ?b = "updateAccess (UnixMilli t) b" and ?l = "put_bucket key (updateAccess (UnixMilli t) b) l1"
  obtain ok b2 l2 where T: "try_serve key n ?b ?l = (ok, b2, l2)" by (rule prod_cases3)
  have l: "limiter_ok ?l" "lookup_bucket ?l key = Some ?b"
    using G(1-6) by (simp_all add: limiter_ok_put lookup_put limiter_okD)
  have amt: "amount n" using assms(3) by simp
  note S = try_serve_ledger [OF l amt T]
  have "allow_slow fuel E key n b2 l2 w2 \<noteq> None" if "\<not> ok"
    using slow_ends [OF assms(1-4)] S that by (simp add: ledger_def)
  then show ?thesis by (auto simp: AllowN_def t g T Let_def)
qed

end

text \<open>
  C4. Every call of \<^verbatim>\<open>AllowN\<close> returns: with a router that keeps the contract of the two routers of
  the program (it reports no error, asks peers only when it is told there are some, asks Redis only
  while the pool is not known to be exhausted and denies only afterwards) and grants below \<open>2^62\<close>
  tokens, the loop takes at most the amount plus two rounds, whatever Redis, the peers and the
  clocks answer, errors included.
\<close>
theorem AllowN_terminates:
  assumes "router decide" "e_decide E = Some decide" "grants_fit E key" "uint n < 2 ^ 62" "limiter_ok l"
    and "nat (uint n) + 3 \<le> fuel"
  shows "\<exists>res. AllowN fuel E key n l w = Some res"
  using router.AllowN_ends [OF assms(1-4) _ assms(5), of fuel w] assms(6) by auto

subsection \<open>A run\<close>

text \<open>An instance alone with a small Redis: 20 tokens in the pool, every clock at the epoch.\<close>

definition demo_options :: options where
  "demo_options = defaultOptions\<lparr>o_instanceID := ''i1'', o_minBorrow := 10, o_maxBorrow := 30,
     o_adaptiveBorrow := False, o_emaAlpha := FFin 0\<rparr>"

definition demo_env :: "(mem_store, unit, unit) env" where
  "demo_env = \<lparr>e_oor = \<lambda>_. 0, e_redis = mem_client, e_wall = Pair 0, e_clock = Pair 0,
     e_stub = \<lambda>_ _ w. (Inl ''unavailable'', w), e_lookup = \<lambda>_. None,
     e_sched = \<lambda>_. \<lparr>sch_order = id, sch_done = None, sch_doneErr = '''', sch_ctxErr = \<lambda>_. None\<rparr>,
     e_decide = Some default_Decide, e_routerEvict = None, e_routerRemovePeer = None\<rparr>"

definition demo_limiter :: "unit limiter" where
  "demo_limiter = newLimiter demo_options ()"

lemma demo_limiter_ok: "limiter_ok demo_limiter"
  by (simp add: demo_limiter_def)

text \<open>A Redis that grants one token per borrow.\<close>

definition drip_env :: "(unit, unit, unit) env" where
  "drip_env = \<lparr>e_oor = \<lambda>_. 0, e_redis = \<lparr>EvalSha = \<lambda>_ _ _ w. (Inr (RInt 1), w), Eval = \<lambda>_ _ _ w. (Inr (RInt 1), w)\<rparr>,
     e_wall = Pair 0, e_clock = Pair 0,
     e_stub = \<lambda>_ _ w. (Inl ''unavailable'', w), e_lookup = \<lambda>_. None,
     e_sched = \<lambda>_. \<lparr>sch_order = id, sch_done = None, sch_doneErr = '''', sch_ctxErr = \<lambda>_. None\<rparr>,
     e_decide = Some default_Decide, e_routerEvict = None, e_routerRemovePeer = None\<rparr>"

theorem AllowN_terminates_witness:
  "\<exists>res. AllowN 8 drip_env ''k'' 5 demo_limiter () = Some res"
proof (rule AllowN_terminates [OF default_router.router_axioms])
  show "grants_fit drip_env ''k''"
    by (auto simp: grants_fit_def drip_env_def pool_Borrow_def runScript_def toUint64_def)
qed (simp_all add: drip_env_def demo_limiter_ok)

lemma demo_limiter_fields [simp]:
  "l_closed demo_limiter = False" "l_opts demo_limiter = demo_options" "l_gossiper demo_limiter = NewGossiper"
  "l_acquirer demo_limiter = Some \<lparr>acq_originID = ''i1'', acq_probeK = 3, acq_mode = ProbeParallel\<rparr>" "lookup_bucket demo_limiter k = None" "l_extras demo_limiter = []"
  "shards_ok shardIndex shardCount (l_shards demo_limiter)"
  using limiter_okD(1) [OF demo_limiter_ok] shardIndex_less [of k]
  by (simp_all add: demo_limiter_def newLimiter_def Let_def lookup_bucket_def demo_options_def defaultOptions_def)

abbreviation demo_world :: "mem_store \<times> int" where
  "demo_world \<equiv> ([PoolKey ''k'' \<mapsto> 20], 0)"

lemma demo_borrow_metered:
  "pool_Borrow (e_redis (meter_env ''k'' demo_env)) ''k'' ''i1'' 30 30000 0 demo_world =
     (Inr 20, (snd (pool_Borrow mem_client ''k'' ''i1'' 30 30000 0 [PoolKey ''k'' \<mapsto> 20]), 20))"
  by (simp add: pool_Borrow_def runScript_def mem_client_def mem_exec_def borrowLua_def Let_def
      split_beta toUint64_def mem_cmds_def mem_get_def meter_env_def demo_env_def delivered_reply_def)

lemma demo_window: "o_window demo_options = 60000000000" "Milliseconds 60000000000 = 60000"
  by (simp_all add: demo_options_def defaultOptions_def Milliseconds_def i64_div_def)

lemma TopK_new: "TopK oor k key t NewGossiper = Return []" if "0 \<le> k"
  using that shardIndex_less [of key]
  by (simp add: TopK_eq_sort candidates_def NewGossiper_def empty_gossipShard_def sort_desc_def)

lemma demo_Acquire:
  "\<exists>m' w'. Acquire (e_oor (meter_env ''k'' demo_env)) (e_redis (meter_env ''k'' demo_env)) (Pair 0) ''k'' 5 on_grant
     (l_borrowMgr demo_limiter) b demo_world = (Inr 20, m', on_grant 20 b, w') \<and> snd w' = 20"
proof -
  let ?E = "meter_env ''k'' demo_env"
  let ?a = "Acquire (e_oor ?E) (e_redis ?E) (e_wall ?E) ''k'' 5 on_grant (l_borrowMgr demo_limiter) b demo_world"
  have wall: "e_wall ?E = Pair 0" by (auto simp: meter_env_def demo_env_def)
  obtain r m' b' w' where a: "?a = (r, m', b', w')" by (rule prod_cases4)
  have "Milliseconds 30000000000 = 30000" by (simp add: Milliseconds_def i64_div_def)
  then have r: "r = Inr 20"
    using a demo_borrow_metered
    by (auto simp: Acquire_def acquire_flight_def acquire_finish_def demo_limiter_def newLimiter_def NewBorrowManager_def
        ComputeBorrowSize_def NewAdaptiveSizer_def demo_options_def defaultOptions_def Let_def split_beta wall
        split: sum.splits if_splits)
  show ?thesis
    using metered.Acquire_supply [OF limiter_okD(2) [OF demo_limiter_ok] a] a r unfolding wall by (auto simp: metered.got_def)
qed

lemma demo_run:
  "\<exists>l' w'. AllowN (Suc (Suc (Suc (Suc 0)))) (meter_env ''k'' demo_env) ''k'' 5 demo_limiter demo_world =
     Some (Return (Inr True, l', w')) \<and> snd w' = 20"
proof -
  let ?E = "meter_env ''k'' demo_env"
  have env [simp]: "e_clock ?E w = (0, w)" "e_wall ?E = Pair 0" for w
    by (auto simp add: meter_env_def demo_env_def split_beta)
  have dec [simp]: "e_decide ?E = Some default_Decide"
    by (auto simp: meter_env_def demo_env_def default_Decide_def fun_eq_iff)
  let ?b = "\<lparr>b_local = \<lparr>tokens = 0\<rparr>, b_window = \<lparr>windowType = o_windowType demo_options,
      limit = o_limit demo_options, windowMs = 60000, windowSize = 60000000000, windowStart = 0\<rparr>, b_key = ''k'',
     b_consumed = 0, b_lastAccess = 0, b_redisExhausted = False, b_preBorrowing = False\<rparr>"
  obtain m1 w1 where A: "Acquire (e_oor ?E) (e_redis ?E) (Pair 0) ''k'' 5 on_grant (l_borrowMgr demo_limiter) ?b demo_world
      = (Inr 20, m1, on_grant 20 ?b, w1)" "snd w1 = 20"
    using demo_Acquire by blast
  obtain v m2 w2 where B: "Borrowed (Pair 0) ''k'' m1 w1 = (v, m2, w2)" by (rule prod_cases3)
  have w2: "snd w2 = 20" using metered.Borrowed_supply(1) [of "''k''" demo_env m1 w1 v m2 w2] A(2) B by simp
  have fresh: "getOrCreateBucket ?E ''k'' demo_limiter demo_world = (?b, put_bucket ''k'' ?b demo_limiter, demo_world)"
    by (simp add: getOrCreateBucket_def newBucket_def NewLocalBucket_def NewWindow_def demo_window UnixMilli_def Let_def)
  note serve = try_serve_def tryConsume_def TryConsume_def
  show ?thesis
    using A B w2
    by (cases w2) (simp add: AllowN_def fresh Let_def serve updateAccess_def allow_slow_def needsReset_def NeedsReset_def
        UnixMilli_def default_Decide_def IsRedisExhausted_def acquireFromPeers_def acquirer_Acquire_def
        acquire_body_def TopK_new acquirer_shared_def on_grant_def ClearRedisExhausted_def refill_def Refill_def)
qed

theorem AllowN_accounts_witness:
  "\<exists>l' w'. AllowN 4 (meter_env ''k'' demo_env) ''k'' 5 demo_limiter demo_world = Some (Return (Inr True, l', w')) \<and>
     held_at l' ''k'' + pending l' ''k'' = 15"
proof -
  have fuel: "Suc (Suc (Suc (Suc 0))) = 4" by simp
  obtain l' w' where run: "AllowN 4 (meter_env ''k'' demo_env) ''k'' 5 demo_limiter demo_world
      = Some (Return (Inr True, l', w'))" "snd w' = 20"
    using demo_run unfolding fuel by blast
  have "held_at demo_limiter ''k'' = 0" "pending demo_limiter ''k'' = 0"
    by (simp_all add: held_at_def pending_def)
  with AllowN_accounts [OF metered.token_source_axioms demo_limiter_ok _ run(1)] run
  show ?thesis by (auto simp: spent_def)
qed

end
