(* ===== verification/Limiter_Peers.thy ===== *)
theory Limiter_Peers
  imports Limiter_Props
begin

text \<open>
  The limiter as a peer: its token functions are a \<open>token_ledger\<close>, so the server of
  \<^verbatim>\<open>internal/peer/server.go\<close> takes from the bucket exactly what it answers; and the reserve.
\<close>

lemma tokenAccessor_spec:
  assumes "limiter_ok l" "tokenAccessor E k n (l, w) = (r, (l', w'))"
  shows "limiter_ok l'" "held_at l' = held_at l" "pending l' = pending l" "l_opts l' = l_opts l"
    "l_borrowMgr l' = l_borrowMgr l" "l_closed l' = l_closed l" "w' = w \<or> w' = snd (e_wall E w)"
    "\<exists>s. r = Inr s \<and> (s = 0 \<or> uint s + uint (u64_of_f64 (e_oor E) (fmul (f64_of_u64 (o_limit (l_opts l)))
       (o_reservedMinimum (l_opts l)))) = held_at l k)"
proof -
  obtain b l1 w1 where g: "getOrCreateBucket E k l w = (b, l1, w1)" by (rule prod_cases3)
  note G = getOrCreateBucket_spec [OF assms(1) g]
  have "l' = l1" "w' = w1" using assms(2) g by (auto simp: tokenAccessor_def Let_def split: if_splits)
  with G show "limiter_ok l'" "held_at l' = held_at l" "pending l' = pending l" "l_opts l' = l_opts l"
    "l_borrowMgr l' = l_borrowMgr l" "l_closed l' = l_closed l" "w' = w \<or> w' = snd (e_wall E w)"
    by auto
  let ?res = "u64_of_f64 (e_oor E) (fmul (f64_of_u64 (o_limit (l_opts l))) (o_reservedMinimum (l_opts l)))"
  have h: "uint (remaining b) = held_at l k" using remaining_uint [OF G(3)] G(4) by simp
  have "r = (if remaining b \<le> ?res then Inr 0 else Inr (remaining b - ?res))"
    using assms(2) g G(9) by (auto simp: tokenAccessor_def Let_def)
  then show "\<exists>s. r = Inr s \<and> (s = 0 \<or> uint s + uint ?res = held_at l k)"
    using h by (auto simp: word_le_def uint_sub_if' split: if_splits)
qed

lemma tokenTransferer_spec:
  assumes "limiter_ok l" "tokenTransferer E k n (l, w) = (r, (l', w'))"
  shows "limiter_ok l'" "pending l' = pending l" "l_opts l' = l_opts l" "l_closed l' = l_closed l"
    "l_borrowMgr l' = l_borrowMgr l" "w' = w \<or> w' = snd (e_wall E w)"
    "\<exists>g. r = Inr g \<and> uint g = min (uint n) (held_at l k) \<and> held_at l' = (held_at l)(k := held_at l k - uint g)"
proof -
  obtain b l1 w1 where g: "getOrCreateBucket E k l w = (b, l1, w1)" by (rule prod_cases3)
  note G = getOrCreateBucket_spec [OF assms(1) g]
  define t where "t = (if remaining b < n then remaining b else n)"
  have h: "uint (remaining b) = held_at l k" using remaining_uint [OF G(3)] G(4) by simp
  have t: "uint t = min (uint n) (held_at l k)" using h by (simp add: t_def word_less_def min_def)
  let ?b = "snd (tryConsume t b)"
  have amt: "amount t" using t G(4) sint_i64_upper [of "tokens (b_local b)"] by (simp add: min_def split: if_splits)
  have ok: "fst (tryConsume t b)"
    using TryConsume_true_iff [of t "b_local b"] amt t h G(4) by (simp add: sint_small)
  have c: "bucket_ok ?b" "held ?b = held_at l k - uint t"
    using tryConsume_ok [OF G(3) amt] tryConsume_held [OF G(3) amt] ok G(4) by auto
  note sok = limiter_okD(1) [OF G(1)]
  have e: "r = Inr t" "w' = w1" "l' = l1 \<and> t = 0 \<or> l' = put_bucket k ?b l1"
    using assms(2) g ok by (auto simp: tokenTransferer_def Let_def t_def split_beta split: if_splits)
  show "limiter_ok l'" "pending l' = pending l" "l_opts l' = l_opts l" "l_closed l' = l_closed l"
    "l_borrowMgr l' = l_borrowMgr l" "w' = w \<or> w' = snd (e_wall E w)"
    using e(2,3) G(1,6,8-11) limiter_ok_put [OF G(1) c(1), of k] by (fastforce simp: fun_eq_iff)+
  have "held_at l' = (held_at l)(k := held_at l k - uint t)"
    using e(3)
  proof (elim disjE conjE)
    assume "l' = put_bucket k ?b l1"
    then show ?thesis using G(7) c(2) by (auto simp: held_at_def lookup_put [OF sok] fun_eq_iff split: option.splits)
  qed (use G(7) in \<open>auto simp: fun_eq_iff\<close>)
  then show "\<exists>g. r = Inr g \<and> uint g = min (uint n) (held_at l k) \<and> held_at l' = (held_at l)(k := held_at l k - uint g)"
    using e(1) t by blast
qed

interpretation limiter_tokens: token_ledger "tokenAccessor E" "tokenTransferer E"
  "\<lambda>(l, w). held_at l" "\<lambda>(l, w). limiter_ok l" for E :: "('w, 'r, 'c) env"
proof unfold_locales
  fix s :: "'r limiter \<times> 'w" and k n r s'
  assume "case s of (l, w) \<Rightarrow> limiter_ok l" "tokenAccessor E k n s = (r, s')"
  then show "(case s' of (l, w) \<Rightarrow> limiter_ok l) \<and> (case s' of (l, w) \<Rightarrow> held_at l) = (case s of (l, w) \<Rightarrow> held_at l)"
    using tokenAccessor_spec(1,2) by (cases s, cases s') fastforce
next
  fix s :: "'r limiter \<times> 'w" and k n g s'
  assume "case s of (l, w) \<Rightarrow> limiter_ok l" "tokenTransferer E k n s = (Inr g, s')"
  then show "(case s' of (l, w) \<Rightarrow> limiter_ok l) \<and> uint g \<le> uint n \<and> uint g \<le> (case s of (l, w) \<Rightarrow> held_at l) k \<and>
      (case s' of (l, w) \<Rightarrow> held_at l) = ((case s of (l, w) \<Rightarrow> held_at l)
        (k := (case s of (l, w) \<Rightarrow> held_at l) k - uint g))"
    using tokenTransferer_spec(1,7) by (cases s, cases s') fastforce
next
  fix s :: "'r limiter \<times> 'w" and k n e s'
  assume "case s of (l, w) \<Rightarrow> limiter_ok l" "tokenTransferer E k n s = (Inl e, s')"
  then show "(case s' of (l, w) \<Rightarrow> limiter_ok l) \<and> (case s' of (l, w) \<Rightarrow> held_at l) = (case s of (l, w) \<Rightarrow> held_at l)"
    using tokenTransferer_spec(7) by (cases s, cases s') fastforce
qed

lemma limiter_server_fields [simp]:
  "ts_tokenAccessor (limiter_server E opts) = Some (tokenAccessor E)"
  "ts_tokenTransferer (limiter_server E opts) = Some (tokenTransferer E)"
  "ts_gossipHandler (limiter_server E opts) = Some (gossipHandler E)"
  "ts_instanceID (limiter_server E opts) = o_instanceID opts"
  by (simp_all add: limiter_server_def SetGossipHandler_def SetTokenTransferer_def SetTokenAccessor_def NewTokenServer_def)

text \<open>The request answered by the server of a limiter, as one transition of the limiter.\<close>

lemma limiter_serves:
  assumes "limiter_ok l" "TransferTokens (limiter_server E opts) req (l, w) = (r, (l', w'))"
  defines "k \<equiv> tr_LimitKey req" and "got \<equiv> (case r of Inl e \<Rightarrow> 0 | Inr g \<Rightarrow> uint g)"
  shows "limiter_ok l'" "held_at l' = (held_at l)(k := held_at l k - got)" "got \<le> uint (tr_Requested req)"
    "pending l' = pending l" "l_opts l' = l_opts l" "l_borrowMgr l' = l_borrowMgr l" "l_closed l' = l_closed l"
    "got = 0 \<or> got + uint (u64_of_f64 (e_oor E) (fmul (f64_of_u64 (o_limit (l_opts l)))
       (o_reservedMinimum (l_opts l)))) \<le> held_at l k"
    "got = 0 \<or> tr_OriginId req \<noteq> o_instanceID opts \<and> ValidateTransferRequest req = None"
    "P w \<Longrightarrow> (\<And>w. P w \<Longrightarrow> P (snd (e_wall E w))) \<Longrightarrow> P w'"
proof -
  have T: "limiter_ok l' \<and> held_at l' = (held_at l)(k := held_at l k - got) \<and> got \<le> uint (tr_Requested req)"
    using limiter_tokens.TransferTokens_takes [of "limiter_server E opts" E "(l, w)" req r "(l', w')"] assms(1,2)
    by (simp add: k_def got_def limiter_tokens.granted_amount_def)
  then show "limiter_ok l'" "held_at l' = (held_at l)(k := held_at l k - got)" "got \<le> uint (tr_Requested req)" by auto
  obtain r1 l1 w1 where a: "tokenAccessor E k (tr_Requested req) (l, w) = (r1, (l1, w1))" by (rule prod_cases3)
  note A = tokenAccessor_spec [OF assms(1) a]
  obtain s where s: "r1 = Inr s" "s = 0 \<or> uint s + uint (u64_of_f64 (e_oor E) (fmul (f64_of_u64 (o_limit (l_opts l)))
       (o_reservedMinimum (l_opts l)))) = held_at l k" using A(8) by blast
  define amt where "amt = (if s < tr_Requested req then s else tr_Requested req)"
  obtain r2 l2 w2 where t: "tokenTransferer E k amt (l1, w1) = (r2, (l2, w2))" by (rule prod_cases3)
  note B = tokenTransferer_spec [OF A(1) t]
  obtain g where g: "r2 = Inr g" "uint g = min (uint amt) (held_at l1 k)" using B(7) by blast
  have c: "got = 0 \<and> (l', w') = (l, w) \<or> got = 0 \<and> (l', w') = (l1, w1) \<or>
      s \<noteq> 0 \<and> r = Inr g \<and> (l', w') = (l2, w2) \<and> tr_OriginId req \<noteq> o_instanceID opts \<and> ValidateTransferRequest req = None"
    using assms(2) a t s(1) g(1) unfolding TransferTokens_def limiter_server_fields k_def [symmetric] got_def amt_def
    by (auto simp: Let_def split: option.splits if_splits)
  show "pending l' = pending l" "l_opts l' = l_opts l" "l_borrowMgr l' = l_borrowMgr l" "l_closed l' = l_closed l"
    using c A B by auto
  show "got = 0 \<or> tr_OriginId req \<noteq> o_instanceID opts \<and> ValidateTransferRequest req = None"
    using c by auto
  have "uint g \<le> uint s" using g(2) by (simp add: amt_def word_less_def split: if_splits)
  then show "got = 0 \<or> got + uint (u64_of_f64 (e_oor E) (fmul (f64_of_u64 (o_limit (l_opts l)))
       (o_reservedMinimum (l_opts l)))) \<le> held_at l k"
    using c s(2) by (auto simp: got_def)
  show "P w'" if "P w" "\<And>w. P w \<Longrightarrow> P (snd (e_wall E w))"
    using that c A(7) B(6) by (metis prod.inject)
qed

text \<open>
  C9. What a peer is given. The server of a limiter takes from the bucket of the requested key
  exactly the tokens it answers, nothing on an error, never more than requested, and keeps the
  reserve: after a grant the bucket still holds at least the reserved share of the limit. Other
  keys and the tokens to hand back do not change; a request of the instance itself, with no key,
  no origin or no amount gets nothing.
\<close>
theorem TransferTokens_gives:
  assumes "limiter_ok l" "TransferTokens (limiter_server E opts) req (l, w) = (r, (l', w'))"
  shows "limiter_ok l' \<and>
    held_at l' = (held_at l)(tr_LimitKey req := held_at l (tr_LimitKey req) - (case r of Inl e \<Rightarrow> 0 | Inr g \<Rightarrow> uint g)) \<and>
    pending l' = pending l \<and>
    (case r of Inl e \<Rightarrow> True | Inr g \<Rightarrow> uint g \<le> uint (tr_Requested req) \<and> (0 < g \<longrightarrow>
       uint (u64_of_f64 (e_oor E) (fmul (f64_of_u64 (o_limit (l_opts l))) (o_reservedMinimum (l_opts l))))
         \<le> held_at l' (tr_LimitKey req) \<and>
       tr_OriginId req \<noteq> o_instanceID opts \<and> ValidateTransferRequest req = None))"
proof -
  note S = limiter_serves [OF assms]
  show ?thesis
  proof (cases r)
    case (Inr g)
    note S = S [unfolded Inr sum.case]
    have "held_at l' (tr_LimitKey req) = held_at l (tr_LimitKey req) - uint g" using S(2) by simp
    then show ?thesis
      using S(1-4) S(8,9) unfolding Inr sum.case by (intro conjI impI) (simp_all add: word_less_def)
  qed (use S(1,2,4) in simp)
qed

text \<open>A limiter with 20 tokens that reserves half of a limit of 10.\<close>

definition lender :: "unit limiter" where
  "lender = put_bucket ''k'' (refill 20 (newBucket 0 ''k'' 10 Fixed 60000000000))
     (newLimiter (demo_options\<lparr>o_limit := 10, o_reservedMinimum := FFin (1 / 2)\<rparr>) ())"

lemma lender_state:
  "limiter_ok lender" "lookup_bucket lender ''k'' = Some (refill 20 (newBucket 0 ''k'' 10 Fixed 60000000000))"
  "o_limit (l_opts lender) = 10" "o_reservedMinimum (l_opts lender) = FFin (1 / 2)"
proof -
  let ?b = "refill 20 (newBucket 0 ''k'' 10 Fixed 60000000000)"
  have "bucket_ok ?b" by (simp add: bucket_ok_def refill_def Refill_def newBucket_def NewLocalBucket_def lb_ok_def)
  then show "limiter_ok lender" by (simp add: lender_def limiter_ok_put)
  show "lookup_bucket lender ''k'' = Some ?b"
    by (simp add: lender_def lookup_put [OF limiter_okD(1) [OF newLimiter_ok]])
qed (simp_all add: lender_def newLimiter_def Let_def)

lemma half_of_ten: "fmul (f64_of_u64 10) (FFin (1 / 2)) = FFin 5" "u64_of_f64 oor (FFin 5) = 5"
  using f64_of_u64_exact [of 10] u64_of_f64_int [of 5 oor] rnd_of_int [of 5] by simp_all

theorem TransferTokens_gives_witness:
  "\<exists>l' w'. TransferTokens (limiter_server demo_env demo_options)
       \<lparr>tr_LimitKey = ''k'', tr_Requested = 4, tr_OriginId = ''i2''\<rparr> (lender, Map.empty) = (Inr 4, (l', w')) \<and>
     held_at l' ''k'' = 16"
proof -
  let ?req = "\<lparr>tr_LimitKey = ''k'', tr_Requested = 4, tr_OriginId = ''i2''\<rparr>"
  obtain r l' w' where run: "TransferTokens (limiter_server demo_env demo_options) ?req (lender, Map.empty) = (r, (l', w'))"
    by (rule prod_cases3)
  have b: "getOrCreateBucket E ''k'' lender w = (refill 20 (newBucket 0 ''k'' 10 Fixed 60000000000), lender, w)" for E w
    using lender_state(2) by (simp add: getOrCreateBucket_def)
  have rem: "remaining (refill 20 (newBucket 0 ''k'' 10 Fixed 60000000000)) = 20"
    by (simp add: remaining_def Remaining_def refill_def Refill_def newBucket_def NewLocalBucket_def)
  have id: "o_instanceID demo_options = ''i1''" by (simp add: demo_options_def)
  have "tokenAccessor demo_env ''k'' 4 (lender, Map.empty) = (Inr 15, lender, Map.empty)"
    by (simp add: tokenAccessor_def b rem lender_state half_of_ten Let_def)
  moreover have "fst (tokenTransferer demo_env ''k'' 4 (lender, Map.empty)) = Inr 4"
    by (simp add: tokenTransferer_def b remaining_def Remaining_def Let_def split_beta refill_def Refill_def newBucket_def NewLocalBucket_def
        TryConsume_def)
  ultimately have r: "r = Inr 4"
    using run by (cases "tokenTransferer demo_env ''k'' 4 (lender, Map.empty)")
      (auto simp: TransferTokens_def ValidateTransferRequest_def id split: prod.splits)
  have "held_at lender ''k'' = 20"
    by (simp add: held_at_def lender_state refill_def Refill_def newBucket_def NewLocalBucket_def)
  with TransferTokens_gives [OF lender_state(1) run] r run show ?thesis by auto
qed

end
