(* ===== verification/Limiter_World.thy ===== *)
theory Limiter_World
  imports Limiter_Peers
begin

text \<open>
  What a call does to the world outside the limiter. The locale \<open>world_path\<close> names a relation that
  every single access of the environment stays in (a borrow, a window reset, a request to a peer, a
  clock reading); its lemmas show that whole calls stay in it, and that a limiter keeps its
  configuration. The fleet interprets it with the bound on the tokens of all instances.
\<close>

subsection \<open>The configuration of the borrow manager\<close>

definition mgr_cfg :: "BorrowManager \<Rightarrow> string \<times> i64 \<times> u64 \<times> u64" where
  "mgr_cfg m = (bm_instanceID m, bm_leaseTTLms m, minBorrow (bm_sizer m), maxBorrow (bm_sizer m))"

lemma mgr_cfg_ops [simp]:
  "mgr_cfg (RecordConsumption key n m) = mgr_cfg m" "mgr_cfg (bm_Reset key m) = mgr_cfg m"
  "mgr_cfg (bm_EvictKeys ks m) = mgr_cfg m" "mgr_cfg (m\<lparr>bm_shards := s\<rparr>) = mgr_cfg m"
  "mgr_cfg (m\<lparr>bm_sizer := Record n (bm_sizer m)\<rparr>) = mgr_cfg m"
  by (auto simp: mgr_cfg_def RecordConsumption_def bm_Reset_def bm_EvictKeys_def Let_def split: option.splits)

lemma mgr_cfg_Borrowed: "mgr_cfg (fst (snd (Borrowed clk key m w))) = mgr_cfg m"
  by (auto simp: Borrowed_def Let_def split_beta split: option.splits)

lemma mgr_cfg_record_grant: "mgr_cfg (fst (record_grant clk key g m w)) = mgr_cfg m"
  unfolding record_grant_eq by simp

lemma mgr_cfg_Acquire: "mgr_cfg (fst (snd (Acquire oor C clk key need f m b w))) = mgr_cfg m"
  by (auto simp: Acquire_def acquire_flight_def acquire_finish_def Let_def split_beta mgr_cfg_record_grant
      split: sum.splits)

definition limiter_cfg :: "'r limiter \<Rightarrow> options \<times> string \<times> i64 \<times> u64 \<times> u64" where
  "limiter_cfg l = (l_opts l, mgr_cfg (l_borrowMgr l))"

lemma limiter_cfg_frame [simp]:
  "limiter_cfg (put_bucket key b l) = limiter_cfg l" "limiter_cfg (l\<lparr>l_router := r\<rparr>) = limiter_cfg l"
  "limiter_cfg (l\<lparr>l_extras := x\<rparr>) = limiter_cfg l" "limiter_cfg (l\<lparr>l_jobs := j\<rparr>) = limiter_cfg l"
  "limiter_cfg (l\<lparr>l_closed := c\<rparr>) = limiter_cfg l" "limiter_cfg (l\<lparr>l_gossiper := g\<rparr>) = limiter_cfg l"
  "limiter_cfg (l\<lparr>l_borrowMgr := m\<rparr>) = (l_opts l, mgr_cfg m)" "limiter_cfg (l\<lparr>l_shards := s\<rparr>) = limiter_cfg l"
  by (simp_all add: limiter_cfg_def)

lemma getOrCreate_cfg: "getOrCreateBucket E key l w = (b, l', w') \<Longrightarrow> limiter_cfg l' = limiter_cfg l"
  by (auto simp: getOrCreateBucket_def Let_def split_beta split: option.splits)

lemma try_serve_cfg: "try_serve key n b l = (ok, b', l') \<Longrightarrow> limiter_cfg l' = limiter_cfg l"
  by (auto simp: try_serve_def Let_def split_beta limiter_cfg_def split: if_splits)

lemma maybePreBorrow_cfg: "limiter_cfg (maybePreBorrow key b l) = limiter_cfg l"
  by (simp add: maybePreBorrow_def split_beta)

lemma resetWindow_cfg: "resetWindow E key nowMs l w = Return (e, l', w') \<Longrightarrow> limiter_cfg l' = limiter_cfg l"
  by (auto simp: resetWindow_def Let_def split_beta limiter_cfg_def split: if_splits option.splits)
     (use getOrCreate_cfg in \<open>metis limiter_cfg_def prod.collapse prod.inject\<close>)+

subsection \<open>Paths of the world\<close>

definition borrow_size :: "(f64 \<Rightarrow> u64) \<Rightarrow> BorrowManager \<Rightarrow> u64 \<Rightarrow> u64" where
  "borrow_size oor m need =
     (if ComputeBorrowSize oor (bm_sizer m) < need then need else ComputeBorrowSize oor (bm_sizer m))"

definition aligned :: "options \<Rightarrow> i64 \<Rightarrow> i64" where
  "aligned opts nowMs = (let ms = Milliseconds (o_window opts) in i64_div nowMs ms * ms)"

locale world_path = token_source E key income for E :: "('w, 'r, 'c) env" and key :: string and income :: "'w \<Rightarrow> int" +
  fixes R :: "'w \<Rightarrow> 'w \<Rightarrow> bool" and cfg :: "options \<times> string \<times> i64 \<times> u64 \<times> u64"
  assumes R_refl: "R w w"
    and R_trans: "R w w1 \<Longrightarrow> R w1 w2 \<Longrightarrow> R w w2"
    and R_wall: "e_wall E w = (t, w') \<Longrightarrow> R w w'"
    and R_clock: "e_clock E w = (t, w') \<Longrightarrow> R w w'"
    and R_decide: "e_decide E = Some d \<Longrightarrow> d gs rc r w = (x, r', w') \<Longrightarrow> R w w'"
    and R_stub: "tr_LimitKey q = key \<Longrightarrow> e_stub E c q w = (p, w') \<Longrightarrow> R w w'"
    and R_borrow: "mgr_cfg m = snd cfg \<Longrightarrow> uint need \<le> 2 ^ 53 \<Longrightarrow> e_wall E w0 = (t, w1) \<Longrightarrow>
      pool_Borrow (e_redis E) key (bm_instanceID m) (borrow_size (e_oor E) m need) (bm_leaseTTLms m) t w = (g, w') \<Longrightarrow> R w w'"
    and R_reset: "Milliseconds (o_window (fst cfg)) \<noteq> 0 \<Longrightarrow> e_clock E w0 = (t, w1) \<Longrightarrow>
      pool_ResetWindow (e_redis E) key (o_limit (fst cfg)) (aligned (fst cfg) (UnixMilli t)) w = (e, w') \<Longrightarrow> R w w'"

sublocale world_path \<subseteq> path: peer_rpc "e_stub E" key income "R w0" for w0
  by unfold_locales (use stub_supplies R_stub R_trans in fastforce)+

context world_path begin

lemma R_wall_snd: "R w (snd (e_wall E w))"
  by (rule R_wall [OF surjective_pairing])

lemma getOrCreate_R: "getOrCreateBucket E k l w = (b, l', w') \<Longrightarrow> R w w'"
  using R_refl R_wall_snd by (auto simp: getOrCreateBucket_def Let_def split_beta split: option.splits)

lemma record_grant_R: "record_grant (e_wall E) key g m w = (m', w') \<Longrightarrow> R w w'"
  unfolding record_grant_eq using R_refl R_wall_snd R_trans by (auto split: option.splits) blast+

lemma Borrowed_R:
  assumes "Borrowed (e_wall E) key m w = (v, m', w')"
  shows "R w w'" "mgr_cfg m' = mgr_cfg m"
  using assms mgr_cfg_Borrowed [of "e_wall E" key m w] R_refl R_wall_snd
  by (auto simp: Borrowed_def Let_def split_beta split: option.splits if_splits)

lemma Acquire_R:
  assumes "mgr_cfg m = snd cfg" "uint need \<le> 2 ^ 53"
    and "Acquire (e_oor E) (e_redis E) (e_wall E) key need f m b w = (r, m', b', w')"
  shows "R w w'" "mgr_cfg m' = snd cfg"
proof -
  show "mgr_cfg m' = snd cfg"
    using mgr_cfg_Acquire [of "e_oor E" "e_redis E" "e_wall E" key need f m b w] assms(1,3) by simp
  obtain t w0 where t: "e_wall E w = (t, w0)" by (cases "e_wall E w")
  obtain g w1 where g: "pool_Borrow (e_redis E) key (bm_instanceID m) (borrow_size (e_oor E) m need)
      (bm_leaseTTLms m) t w0 = (g, w1)" by (meson surj_pair)
  have R1: "R w w1" using R_wall [OF t] R_borrow [OF assms(1,2) t g] R_trans by blast
  obtain m1 w2 where rg: "record_grant (e_wall E) key (case g of Inr n \<Rightarrow> n | Inl e \<Rightarrow> 0) m w1 = (m1, w2)"
    by (meson surj_pair)
  have "w' = w1 \<or> w' = w2"
    using assms(3) t g rg by (auto simp: Acquire_def acquire_flight_def acquire_finish_def Let_def split_beta borrow_size_def
        split: sum.splits if_splits)
  then show "R w w'" using R1 record_grant_R [OF rg] R_trans by blast
qed

lemma acquireFromPeers_R:
  assumes "acquireFromPeers E key need b l w = Return (r, b', l', w')"
  shows "R w w'" "limiter_cfg l' = limiter_cfg l"
proof -
  obtain a where a: "l_acquirer l = Some a" using assms by (cases "l_acquirer l") (auto simp: acquireFromPeers_def)
  obtain t w1 where t: "e_wall E w = (t, w1)" by (cases "e_wall E w")
  obtain extras reps where q: "acquirer_Acquire (e_stub E) (e_lookup E) (e_sched E w1) (e_oor E) (l_gossiper l) t a key
      need refill b w1 = Return (r, extras, reps, b', w')" and l': "l' = l\<lparr>l_extras := l_extras l @ map (Pair key) extras\<rparr>"
    using assms a t
    by (cases "acquirer_Acquire (e_stub E) (e_lookup E) (e_sched E w1) (e_oor E) (l_gossiper l) t a key need refill b w1")
       (auto simp: acquireFromPeers_def split: prod.splits)
  show "R w w'" using path.acquirer_Acquire_delivers [of w w1, OF R_wall [OF t] q] by simp
  show "limiter_cfg l' = limiter_cfg l" by (simp add: l')
qed

lemma decides_R:
  assumes "decides E key n re pc l w x l1 w1"
  shows "R w w1" "limiter_cfg l1 = limiter_cfg l"
  using assms R_decide by (auto simp: decides_def)

lemma allow_loop_R:
  assumes "uint n \<le> 2 ^ 53" "allow_loop fuel E key n re pc b l w = Some (Return (r, l', w'))" "limiter_cfg l = cfg"
  shows "R w w' \<and> limiter_cfg l' = cfg"
  using assms(2,3)
proof (induction fuel arbitrary: re pc b l w)
  case (Suc fuel)
  have step: "R w w' \<and> limiter_cfg l' = cfg"
    if "R w w2" "limiter_cfg l2 = cfg" "allow_loop fuel E key n re2 pc2 b2 l2 w2 = Some (Return (r, l', w'))" for re2 pc2 b2 l2 w2
    using Suc.IH [OF that(3,2)] that(1) R_trans by blast
  from Suc.prems(1) show ?case
  proof (cases rule: allow_loop_SucE)
    case (Redis l1 w1 g m b1 w2)
    note d = decides_R [OF Redis(1)]
    have m: "mgr_cfg (l_borrowMgr l1) = snd cfg" using d(2) Suc.prems(2) by (auto simp: limiter_cfg_def)
    note A = Acquire_R [OF m assms(1) Redis(2)]
    have w2: "R w w2" using d(1) A(1) by (rule R_trans)
    let ?l = "(put_bucket key b1 l1)\<lparr>l_borrowMgr := m\<rparr>"
    have c: "limiter_cfg ?l = cfg" using d(2) Suc.prems(2) A(2) by (auto simp: limiter_cfg_def)
    have B: "R w w3 \<and> limiter_cfg (?l\<lparr>l_borrowMgr := m3\<rparr>) = cfg"
      if "Borrowed (e_wall E) key m w2 = (v, m3, w3)" for v m3 w3
      using Borrowed_R [OF that] w2 R_trans A(2) d(2) Suc.prems(2) by (auto simp: limiter_cfg_def)
    from Redis(3) show ?thesis
    proof (cases rule: redis_round.cases)
      case served
      then show ?thesis using B try_serve_cfg by fastforce
    next
      case again
      then show ?thesis using B try_serve_cfg step by metis
    next
      case empty
      show ?thesis using step [OF w2 _ empty(2)] c by simp
    qed (use w2 c in auto)
  next
    case (Peer l1 w1 p b2 l2 w2)
    note d = decides_R [OF Peer(1)] and P = acquireFromPeers_R [OF Peer(2)]
    have w2: "R w w2" using d(1) P(1) by (rule R_trans)
    have c: "limiter_cfg (put_bucket key b2 l2) = cfg" using d(2) P(2) Suc.prems(2) by simp
    from Peer(3) show ?thesis
    proof (cases rule: peer_round.cases)
      case served
      then show ?thesis using w2 c try_serve_cfg by fastforce
    next
      case again
      then show ?thesis using w2 c try_serve_cfg step by metis
    next
      case none
      show ?thesis using step [OF w2 c none(2)] .
    qed
  qed (use decides_R Suc.prems(2) in auto)
qed simp

lemma resetWindow_R:
  assumes "e_clock E w0 = (t, w1)" "limiter_cfg l = cfg" "resetWindow E key (UnixMilli t) l w = Return (e, l', w')"
  shows "R w w' \<and> limiter_cfg l' = cfg"
proof -
  obtain b l1 w2 where g: "getOrCreateBucket E key l w = (b, l1, w2)" by (rule prod_cases3)
  note w2 = getOrCreate_R [OF g]
  let ?ms = "Milliseconds (o_window (l_opts l))"
  obtain e1 w3 where r: "pool_ResetWindow (e_redis E) key (o_limit (l_opts l)) (aligned (l_opts l) (UnixMilli t)) w2 = (e1, w3)"
    by (meson surj_pair)
  have opts: "l_opts l = fst cfg" using assms(2) by (auto simp: limiter_cfg_def)
  have ms: "?ms \<noteq> 0" using assms(3) g by (auto simp: resetWindow_def Let_def)
  have "w' = w2 \<or> w' = w3"
    using assms(3) g ms r by (auto simp: resetWindow_def Let_def aligned_def split: if_splits option.splits)
  moreover have "R w2 w3" using R_reset [OF _ assms(1)] r ms unfolding opts by blast
  ultimately have "R w w'" using w2 R_trans by blast
  then show ?thesis using resetWindow_cfg [OF assms(3)] assms(2) by simp
qed

lemma AllowN_R:
  assumes "uint n \<le> 2 ^ 53" "AllowN fuel E key n l w = Some (Return (r, l', w'))" "limiter_cfg l = cfg"
  shows "R w w' \<and> limiter_cfg l' = cfg"
proof (cases "l_closed l")
  case False
  obtain t w1 where t: "e_clock E w = (t, w1)" by (cases "e_clock E w")
  obtain b l1 w2 where g: "getOrCreateBucket E key l w1 = (b, l1, w2)" by (rule prod_cases3)
  let ?b = "updateAccess (UnixMilli t) b" and ?l = "put_bucket key (updateAccess (UnixMilli t) b) l1"
  obtain ok b2 l2 where T: "try_serve key n ?b ?l = (ok, b2, l2)" by (rule prod_cases3)
  note run = assms(2) [unfolded AllowN_def t g Let_def prod.case T]
  have w2: "R w w2" using R_clock [OF t] getOrCreate_R [OF g] by (rule R_trans)
  have c: "limiter_cfg l2 = cfg" using try_serve_cfg [OF T] getOrCreate_cfg [OF g] assms(3) by simp
  obtain t' w3 where t': "e_clock E w2 = (t', w3)" by (cases "e_clock E w2")
  have w3: "R w w3" using w2 R_clock [OF t'] R_trans by blast
  have tail: "R w w' \<and> limiter_cfg l' = cfg"
    if "R w wa" "limiter_cfg la = cfg" "allow_loop fuel E key n rea False ba la wa = Some (Return (r, l', w'))" for rea ba la wa
    using allow_loop_R [OF assms(1) that(3,2)] that(1) R_trans by blast
  consider (hit) ok "w' = w2" "l' = l2 \<or> l' = maybePreBorrow key b2 l2"
    | (loop) "allow_loop fuel E key n (IsRedisExhausted b2) False b2 l2 w3 = Some (Return (r, l', w'))"
    | (reset) e la wa where "resetWindow E key (UnixMilli t') l2 w3 = Return (e, la, wa)"
        "(let (ok, b3, l3) = try_serve key n (current key b2 la) la
          in if ok then Some (Return (Inr True, l3, wa))
             else allow_loop fuel E key n (IsRedisExhausted b3) False b3 l3 wa) = Some (Return (r, l', w'))"
    using run False t' by (auto simp: allow_slow_def Let_def split: if_splits go.splits)
  then show ?thesis
  proof cases
    case hit
    then show ?thesis using w2 c maybePreBorrow_cfg by metis
  next
    case loop
    then show ?thesis using tail [OF w3 c] by blast
  next
    case reset
    obtain ok3 b3 l3 where T3: "try_serve key n (current key b2 la) la = (ok3, b3, l3)" by (rule prod_cases3)
    have "R w wa \<and> limiter_cfg la = cfg" using resetWindow_R [OF t' c reset(1)] w3 R_trans by blast
    then show ?thesis
      using reset(2) T3 try_serve_cfg [OF T3] tail by (cases ok3) auto
  qed
qed (use assms R_refl in \<open>auto simp: AllowN_def\<close>)

end

end
