(* ===== verification/Limiter_Meter.thy ===== *)
theory Limiter_Meter
  imports Limiter_World
begin

text \<open>
  Metering is transparent: a limiter in a metered environment does what it does in the environment
  itself, with the same answer, state and world. So what is proved with the count of delivered
  tokens holds of every run.
\<close>

named_theorems metered_sim "what a metered environment does, without the count"

lemma meter_clients [metered_sim]:
  "fst (EvalSha (e_redis (meter_env key E)) sc ks args W) = fst (EvalSha (e_redis E) sc ks args (fst W))"
  "fst (snd (EvalSha (e_redis (meter_env key E)) sc ks args W)) = snd (EvalSha (e_redis E) sc ks args (fst W))"
  "fst (Eval (e_redis (meter_env key E)) sc ks args W) = fst (Eval (e_redis E) sc ks args (fst W))"
  "fst (snd (Eval (e_redis (meter_env key E)) sc ks args W)) = snd (Eval (e_redis E) sc ks args (fst W))"
  "fst (e_stub (meter_env key E) cl q W) = fst (e_stub E cl q (fst W))"
  "fst (snd (e_stub (meter_env key E) cl q W)) = snd (e_stub E cl q (fst W))"
  by (simp_all add: meter_env_def split_beta)

lemma meter_clocks [metered_sim]:
  "fst (e_wall (meter_env key E) W) = fst (e_wall E (fst W))"
  "fst (snd (e_wall (meter_env key E) W)) = snd (e_wall E (fst W))"
  "fst (e_clock (meter_env key E) W) = fst (e_clock E (fst W))"
  "fst (snd (e_clock (meter_env key E) W)) = snd (e_clock E (fst W))"
  by (simp_all add: meter_env_def split_beta)

lemma meter_rest [metered_sim]:
  "e_oor (meter_env key E) = e_oor E" "e_lookup (meter_env key E) = e_lookup E"
  "sch_order (e_sched (meter_env key E) W) = sch_order (e_sched E (fst W))"
  "sch_done (e_sched (meter_env key E) W) = sch_done (e_sched E (fst W))"
  "sch_doneErr (e_sched (meter_env key E) W) = sch_doneErr (e_sched E (fst W))"
  "sch_ctxErr (e_sched (meter_env key E) W) V = sch_ctxErr (e_sched E (fst W)) (fst V)"
  by (simp_all add: meter_env_def split_beta Let_def)

lemma meter_pool [metered_sim]:
  "fst (pool_Borrow (e_redis (meter_env key E)) k i req ttl t W) = fst (pool_Borrow (e_redis E) k i req ttl t (fst W))"
  "fst (snd (pool_Borrow (e_redis (meter_env key E)) k i req ttl t W)) = snd (pool_Borrow (e_redis E) k i req ttl t (fst W))"
  "fst (pool_ResetWindow (e_redis (meter_env key E)) k lm st W) = fst (pool_ResetWindow (e_redis E) k lm st (fst W))"
  "fst (snd (pool_ResetWindow (e_redis (meter_env key E)) k lm st W)) = snd (pool_ResetWindow (e_redis E) k lm st (fst W))"
  by (auto simp: pool_Borrow_def pool_ResetWindow_def runScript_def Let_def split_beta metered_sim split: sum.splits)

lemma meter_manager [metered_sim]:
  "fst (record_grant (e_wall (meter_env key E)) k g m W) = fst (record_grant (e_wall E) k g m (fst W))"
  "fst (snd (record_grant (e_wall (meter_env key E)) k g m W)) = snd (record_grant (e_wall E) k g m (fst W))"
  "fst (Borrowed (e_wall (meter_env key E)) k m W) = fst (Borrowed (e_wall E) k m (fst W))"
  "fst (snd (Borrowed (e_wall (meter_env key E)) k m W)) = fst (snd (Borrowed (e_wall E) k m (fst W)))"
  "fst (snd (snd (Borrowed (e_wall (meter_env key E)) k m W))) = snd (snd (Borrowed (e_wall E) k m (fst W)))"
  by (simp_all add: record_grant_def Borrowed_def Let_def split_beta metered_sim split: option.split)

lemma meter_flight [metered_sim]:
  "fst (acquire_flight oor (e_redis (meter_env key E)) (e_wall (meter_env key E)) k need f m b W)
     = fst (acquire_flight oor (e_redis E) (e_wall E) k need f m b (fst W))"
  "fst (snd (acquire_flight oor (e_redis (meter_env key E)) (e_wall (meter_env key E)) k need f m b W))
     = fst (snd (acquire_flight oor (e_redis E) (e_wall E) k need f m b (fst W)))"
  "fst (snd (snd (acquire_flight oor (e_redis (meter_env key E)) (e_wall (meter_env key E)) k need f m b W)))
     = fst (snd (snd (acquire_flight oor (e_redis E) (e_wall E) k need f m b (fst W))))"
  "fst (snd (snd (snd (acquire_flight oor (e_redis (meter_env key E)) (e_wall (meter_env key E)) k need f m b W))))
     = snd (snd (snd (acquire_flight oor (e_redis E) (e_wall E) k need f m b (fst W))))"
  by (simp_all add: acquire_flight_def Let_def split_beta metered_sim split: sum.split)

lemma meter_Acquire [metered_sim]:
  "fst (Acquire oor (e_redis (meter_env key E)) (e_wall (meter_env key E)) k need f m b W)
     = fst (Acquire oor (e_redis E) (e_wall E) k need f m b (fst W))"
  "fst (snd (Acquire oor (e_redis (meter_env key E)) (e_wall (meter_env key E)) k need f m b W))
     = fst (snd (Acquire oor (e_redis E) (e_wall E) k need f m b (fst W)))"
  "fst (snd (snd (Acquire oor (e_redis (meter_env key E)) (e_wall (meter_env key E)) k need f m b W)))
     = fst (snd (snd (Acquire oor (e_redis E) (e_wall E) k need f m b (fst W))))"
  "fst (snd (snd (snd (Acquire oor (e_redis (meter_env key E)) (e_wall (meter_env key E)) k need f m b W))))
     = snd (snd (snd (Acquire oor (e_redis E) (e_wall E) k need f m b (fst W))))"
  by (simp_all add: Acquire_def split_beta metered_sim)

lemma meter_getOrCreate [metered_sim]:
  "fst (getOrCreateBucket (meter_env key E) k l W) = fst (getOrCreateBucket E k l (fst W))"
  "fst (snd (getOrCreateBucket (meter_env key E) k l W)) = fst (snd (getOrCreateBucket E k l (fst W)))"
  "fst (snd (snd (getOrCreateBucket (meter_env key E) k l W))) = snd (snd (getOrCreateBucket E k l (fst W)))"
  by (simp_all add: getOrCreateBucket_def Let_def split_beta metered_sim split: option.split)

lemma meter_probe [metered_sim]:
  "fst (probe (e_stub (meter_env key E)) lookup a k need c W) = fst (probe (e_stub E) lookup a k need c (fst W))"
  "fst (snd (probe (e_stub (meter_env key E)) lookup a k need c W)) = fst (snd (probe (e_stub E) lookup a k need c (fst W)))"
  "fst (snd (snd (probe (e_stub (meter_env key E)) lookup a k need c W))) = snd (snd (probe (e_stub E) lookup a k need c (fst W)))"
  by (simp_all add: probe_def RequestTokens_def Let_def split_beta metered_sim split: option.split sum.split)

lemma meter_probeSequential [metered_sim]:
  assumes "\<And>V. ce V = ce' (fst V)"
  shows "fst (probeSequential (e_stub (meter_env key E)) lookup ce a k need cs W)
      = fst (probeSequential (e_stub E) lookup ce' a k need cs (fst W))"
    "fst (snd (probeSequential (e_stub (meter_env key E)) lookup ce a k need cs W))
      = fst (snd (probeSequential (e_stub E) lookup ce' a k need cs (fst W)))"
    "fst (snd (snd (probeSequential (e_stub (meter_env key E)) lookup ce a k need cs W)))
      = snd (snd (probeSequential (e_stub E) lookup ce' a k need cs (fst W)))"
  by (induction cs arbitrary: W)
     (simp_all add: assms Let_def split_beta metered_sim split: option.split sum.split)

lemma meter_run_probes [metered_sim]:
  "fst (run_probes (e_stub (meter_env key E)) lookup a k need cs W) = fst (run_probes (e_stub E) lookup a k need cs (fst W))"
  "fst (snd (run_probes (e_stub (meter_env key E)) lookup a k need cs W)) = fst (snd (run_probes (e_stub E) lookup a k need cs (fst W)))"
  "fst (snd (snd (run_probes (e_stub (meter_env key E)) lookup a k need cs W))) = snd (snd (run_probes (e_stub E) lookup a k need cs (fst W)))"
  by (induction cs arbitrary: W) (simp_all add: Let_def split_beta metered_sim)

lemma meter_acquire_body:
  "acquire_body (e_stub E) lookup (e_sched E (fst V)) oor g now a k need (fst W) =
     map_go (\<lambda>(r, x, rep, W). (r, x, rep, fst W))
       (acquire_body (e_stub (meter_env key E)) lookup (e_sched (meter_env key E) V) oor g now a k need W)"
proof -
  have ce: "\<And>U. sch_ctxErr (e_sched (meter_env key E) V) U = sch_ctxErr (e_sched E (fst V)) (fst U)"
    by (simp add: metered_sim)
  note sq = meter_probeSequential [of "sch_ctxErr (e_sched (meter_env key E) V)", OF ce]
  show ?thesis
    by (cases "TopK oor (acq_probeK a) k now g")
       (simp_all add: acquire_body_def probeParallel_def Let_def split_beta metered_sim sq split: ProbeMode.split)
qed

lemma meter_acquireFromPeers:
  "acquireFromPeers E k need b l (fst W) =
     map_go (\<lambda>(r, b, l, W). (r, b, l, fst W)) (acquireFromPeers (meter_env key E) k need b l W)"
proof (cases "l_acquirer l")
  case (Some a)
  obtain t V where V: "e_wall (meter_env key E) W = (t, V)" by (cases "e_wall (meter_env key E) W")
  then have V': "e_wall E (fst W) = (t, fst V)" using meter_clocks(1,2) [of key E W] by (simp add: prod_eq_iff)
  show ?thesis
    using meter_acquire_body [of E "e_lookup E" V "e_oor E" "l_gossiper l" t a k need V key]
    by (cases "acquire_body (e_stub (meter_env key E)) (e_lookup E) (e_sched (meter_env key E) V) (e_oor E) (l_gossiper l)
          t a k need V")
       (simp_all add: acquireFromPeers_def Some V V' split_beta acquirer_Acquire_def meter_rest(1,2) Let_def)
qed (simp add: acquireFromPeers_def)

lemma meter_decide:
  "e_decide (meter_env key E) = map_option (\<lambda>d g rc r W. let (x, r', w') = d g rc r (fst W) in (x, r', (w', snd W))) (e_decide E)"
  by (cases "e_decide E") (simp_all add: meter_env_def split_beta fun_eq_iff)

abbreviation (input) erase_go :: "('x \<times> 'r limiter \<times> 'w \<times> int) go option \<Rightarrow> ('x \<times> 'r limiter \<times> 'w) go option" where
  "erase_go \<equiv> map_option (map_go (\<lambda>(x, l, W). (x, l, fst W)))"

lemma meter_loop:
  "allow_loop fuel E k n re pc b l (fst W) = erase_go (allow_loop fuel (meter_env key E) k n re pc b l W)"
proof (induction fuel arbitrary: re pc b l W)
  case (Suc fuel)
  let ?M = "meter_env key E"
  show ?case
  proof (cases "e_decide E")
    case (Some d)
    let ?rc = "\<lparr>rc_Key = k, rc_Need = n, rc_RedisExhausted = re, rc_HasPeers = (l_acquirer l \<noteq> None \<and> \<not> pc)\<rparr>"
    obtain x r1 w1 where x: "d (l_gossiper l) ?rc (l_router l) (fst W) = (x, r1, w1)" by (rule prod_cases3)
    let ?l = "l\<lparr>l_router := r1\<rparr>" and ?W = "(w1, snd W)"
    have w1: "w1 = fst ?W" by simp
    note dec = Some meter_decide [of key E, unfolded Some option.map]
    show ?thesis
    proof (cases x)
      case (Inl e)
      then show ?thesis by (simp del: not_None_eq add: Let_def dec x)
    next
      case (Inr y)
      show ?thesis
      proof (cases y)
        case DecisionDeny
        then show ?thesis by (simp del: not_None_eq add: Let_def dec x Inr)
      next
        case DecisionRedis
        obtain g m b1 V where A: "Acquire (e_oor E) (e_redis ?M) (e_wall ?M) k n on_grant (l_borrowMgr l) b ?W = (g, m, b1, V)"
          by (rule prod_cases4)
        then have A': "Acquire (e_oor E) (e_redis E) (e_wall E) k n on_grant (l_borrowMgr l) b w1 = (g, m, b1, fst V)"
          using meter_Acquire [of "e_oor E" key E k n on_grant "l_borrowMgr l" b ?W] by (simp add: prod_eq_iff)
        obtain v m3 U where B: "Borrowed (e_wall ?M) k m V = (v, m3, U)" by (rule prod_cases3)
        then have B': "Borrowed (e_wall E) k m (fst V) = (v, m3, fst U)"
          using meter_manager(3-5) [of key E k m V] by (simp add: prod_eq_iff)
        show ?thesis
          using DecisionRedis
          by (cases g) (simp_all del: not_None_eq add: Let_def dec x Inr A A' B B' meter_rest(1) Suc.IH split_beta)
      next
        case DecisionPeer
        show ?thesis
        proof (cases "acquireFromPeers ?M k n b ?l ?W")
          case (Return q)
          obtain p b2 l2 V where q: "q = (p, b2, l2, V)" by (rule prod_cases4)
          have P: "acquireFromPeers E k n b ?l w1 = Return (p, b2, l2, fst V)"
            using meter_acquireFromPeers [of E k n b ?l ?W key] Return q by simp
          show ?thesis
            using DecisionPeer by (cases p) (simp_all del: not_None_eq add: Let_def dec x Inr Return q P Suc.IH split_beta)
        next
          case (Panic msg)
          then have "acquireFromPeers E k n b ?l w1 = Panic msg"
            using meter_acquireFromPeers [of E k n b ?l ?W key] by simp
          with Panic show ?thesis using DecisionPeer by (simp del: not_None_eq add: Let_def dec x Inr)
        qed
      qed
    qed
  qed (simp add: meter_decide)
qed simp

lemma meter_resetWindow:
  "resetWindow E k nowMs l (fst W) = map_go (\<lambda>(e, l, W). (e, l, fst W)) (resetWindow (meter_env key E) k nowMs l W)"
proof -
  obtain b l1 V where g: "getOrCreateBucket (meter_env key E) k l W = (b, l1, V)" by (rule prod_cases3)
  then have g': "getOrCreateBucket E k l (fst W) = (b, l1, fst V)"
    using meter_getOrCreate [of key E k l W] by (simp add: prod_eq_iff)
  show ?thesis
    by (auto simp: resetWindow_def g g' Let_def split_beta meter_pool split: option.splits)
qed

lemma meter_slow:
  "allow_slow fuel E k n b l (fst W) = erase_go (allow_slow fuel (meter_env key E) k n b l W)"
proof -
  obtain t V where V: "e_clock (meter_env key E) W = (t, V)" by (cases "e_clock (meter_env key E) W")
  then have V': "e_clock E (fst W) = (t, fst V)" using meter_clocks(3,4) [of key E W] by (simp add: prod_eq_iff)
  show ?thesis
    by (cases "resetWindow (meter_env key E) k (UnixMilli t) l V")
       (auto simp: allow_slow_def V V' Let_def meter_loop [of _ E _ _ _ _ _ _ _ key] meter_resetWindow [of E _ _ _ _ key] split_beta)
qed

lemma meter_AllowN:
  "AllowN fuel E k n l (fst W) = erase_go (AllowN fuel (meter_env key E) k n l W)"
proof -
  obtain t V where V: "e_clock (meter_env key E) W = (t, V)" by (cases "e_clock (meter_env key E) W")
  then have V': "e_clock E (fst W) = (t, fst V)" using meter_clocks(3,4) [of key E W] by (simp add: prod_eq_iff)
  obtain b l1 U where g: "getOrCreateBucket (meter_env key E) k l V = (b, l1, U)" by (rule prod_cases3)
  then have g': "getOrCreateBucket E k l (fst V) = (b, l1, fst U)"
    using meter_getOrCreate [of key E k l V] by (simp add: prod_eq_iff)
  show ?thesis
    by (simp add: AllowN_def V V' g g' Let_def split_beta meter_slow [of _ E _ _ _ _ _ key] meter_rest(1))
qed

lemma meter_run:
  assumes "AllowN fuel E k n l w = Some (Return (r, l', w'))"
  obtains c' where "AllowN fuel (meter_env key E) k n l (w, c) = Some (Return (r, l', (w', c')))"
proof -
  have "erase_go (AllowN fuel (meter_env key E) k n l (w, c)) = Some (Return (r, l', w'))"
    using meter_AllowN [of fuel E k n l "(w, c)" key] assms by simp
  then obtain g where g: "AllowN fuel (meter_env key E) k n l (w, c) = Some g"
    "map_go (\<lambda>(x, l, W). (x, l, fst W)) g = Return (r, l', w')" by auto
  obtain q where "g = Return q" using g(2) by (cases g) auto
  with g have "AllowN fuel (meter_env key E) k n l (w, c) = Some (Return (r, l', (w', snd (snd (snd q)))))"
    by (cases q) auto
  then show ?thesis by (rule that)
qed

lemma meter_deliver_job [metered_sim]:
  "fst (preBorrow_job (meter_env key E) k l W) = fst (preBorrow_job E k l (fst W))"
  "fst (snd (preBorrow_job (meter_env key E) k l W)) = snd (preBorrow_job E k l (fst W))"
  by (simp_all add: preBorrow_job_def Let_def split_beta metered_sim split: option.split)

text \<open>A finished pre-borrow, in the ledger and in the world.\<close>

context token_source begin

lemma preBorrow_job_ledger:
  assumes "limiter_ok l" "preBorrow_job E key l w = (l', w')" "held_at l key + (income w' - income w) < 2 ^ 63"
  shows "limiter_ok l'" "held_at l' key = held_at l key + (income w' - income w)" "pending l' k = pending l k"
    "k \<noteq> key \<Longrightarrow> held_at l' k = held_at l k"
proof -
  have "limiter_ok l' \<and> held_at l' key = held_at l key + (income w' - income w) \<and> (\<forall>k. pending l' k = pending l k) \<and>
    (\<forall>k. k \<noteq> key \<longrightarrow> held_at l' k = held_at l k)"
  proof (cases "lookup_bucket l key")
    case (Some b)
    obtain r m b1 w1 where A: "Acquire (e_oor E) (e_redis E) (e_wall E) key 0 on_grant (l_borrowMgr l) b w = (r, m, b1, w1)"
      by (rule prod_cases4)
    have e: "w' = w1" "l' = (put_bucket key (ClearPreBorrowing b1) l)\<lparr>l_borrowMgr := m, l_jobs := remove1 key (l_jobs l)\<rparr>"
      using assms(2) Some A by (auto simp: preBorrow_job_def)
    have h: "held_at l key = held b" using Some by (simp add: held_at_def)
    note L = redis_ledger [OF assms(1) Some A]
    let ?l = "(put_bucket key b1 l)\<lparr>l_borrowMgr := m\<rparr>"
    have led: "ledger key (income w1 - income w) 0 b l b1 ?l" using L(1) assms(3) e(1) h by simp
    have ok: "limiter_ok ?l" "bucket_ok b1" using led limiter_okD(3) [of ?l key b1] by (auto simp: ledger_def)
    have bok: "bucket_ok (ClearPreBorrowing b1)" using ok(2) by (simp add: ClearPreBorrowing_def bucket_ok_def)
    note lok = limiter_ok_put [OF assms(1) bok, of key]
    have m: "bm_ok m" using L(2) assms(3) e(1) h by simp
    have "limiter_ok l'" using lok m unfolding e(2) by (simp add: limiter_ok_def)
    moreover have "lookup_bucket l' k = (if k = key then Some (ClearPreBorrowing b1) else lookup_bucket l k)" for k
      unfolding e(2) by (simp add: lookup_put [OF limiter_okD(1) [OF assms(1)]])
    moreover have "pending l' k = pending l k" for k unfolding e(2) by (simp add: pending_def)
    moreover have "held b1 = held b + (income w1 - income w)" using led by (simp add: ledger_def)
    ultimately show ?thesis using h e(1) by (simp add: held_at_def ClearPreBorrowing_def)
  qed (use assms in \<open>auto simp: preBorrow_job_def\<close>)
  then show "limiter_ok l'" "held_at l' key = held_at l key + (income w' - income w)" "pending l' k = pending l k"
    "k \<noteq> key \<Longrightarrow> held_at l' k = held_at l k" by blast+
qed

end

context world_path begin

lemma preBorrow_job_R:
  assumes "preBorrow_job E key l w = (l', w')" "limiter_cfg l = cfg"
  shows "R w w' \<and> limiter_cfg l' = cfg"
  using assms R_refl Acquire_R [of "l_borrowMgr l" 0] unfolding preBorrow_job_def
  by (auto simp: limiter_cfg_def split: option.splits prod.splits)

end

lemma deliver_extra_spec:
  assumes "limiter_ok l" "deliver_extra E l w = (l', w')" "\<And>k. held_at l k + pending l k < 2 ^ 63"
  shows "limiter_ok l'" "held_at l' k + pending l' k = held_at l k + pending l k" "limiter_cfg l' = limiter_cfg l"
    "w' = w \<or> w' = snd (e_wall E w)"
proof -
  have "limiter_ok l' \<and> (\<forall>k. held_at l' k + pending l' k = held_at l k + pending l k) \<and> limiter_cfg l' = limiter_cfg l \<and>
    (w' = w \<or> w' = snd (e_wall E w))"
  proof (cases "l_extras l")
    case (Cons x rest)
    obtain key n where x: "x = (key, n)" by (cases x)
    obtain b l1 w1 where g: "getOrCreateBucket E key l w = (b, l1, w1)" by (rule prod_cases3)
    note G = getOrCreateBucket_spec [OF assms(1) g]
    have e: "w' = w1" "l' = (put_bucket key (refill n b) l1)\<lparr>l_extras := rest\<rparr>"
      using assms(2) Cons x g by (auto simp: deliver_extra_def)
    have p: "pending l k = pending (l\<lparr>l_extras := rest\<rparr>) k + (if k = key then uint n else 0)" for k
      using Cons x by (auto simp: pending_def)
    have rest: "pending l' k = pending (l\<lparr>l_extras := rest\<rparr>) k" for k unfolding e(2) by (simp add: pending_def)
    have "0 \<le> pending (l\<lparr>l_extras := rest\<rparr>) key" by (auto simp: pending_def intro: sum_list_nonneg)
    then have fit: "held b + uint n < 2 ^ 63" using assms(3) [of key] p [of key] G(4) by simp
    note r = refill_ok [OF G(3) fit] refill_held [OF G(3) fit]
    have "limiter_ok l'" unfolding e(2) using limiter_ok_put [OF G(1) r(1), of key] by simp
    moreover have "lookup_bucket l' k = (if k = key then Some (refill n b) else lookup_bucket l1 k)" for k
      unfolding e(2) by (simp add: lookup_put [OF limiter_okD(1) [OF G(1)]])
    then have "held_at l' k = held_at l k + (if k = key then uint n else 0)" for k
      using G(4) G(7) [of k] r(2) by (simp add: held_at_def)
    ultimately show ?thesis
      using p rest e G(8) getOrCreate_cfg [OF g] by simp
  qed (use assms in \<open>auto simp: deliver_extra_def\<close>)
  then show "limiter_ok l'" "held_at l' k + pending l' k = held_at l k + pending l k" "limiter_cfg l' = limiter_cfg l"
    "w' = w \<or> w' = snd (e_wall E w)" by blast+
qed

end
