(* ===== verification/Limiter_Evict.thy ===== *)
theory Limiter_Evict
  imports Limiter_Ledger
begin

text \<open>
  Eviction of idle keys (\<^verbatim>\<open>evictInactiveKeys\<close>): which buckets go, and that the books kept about
  them in the borrow manager, the gossiper and the router go with them.
\<close>

lemma evict_fold:
  assumes "distinct ks" "\<forall>k \<in> set ks. \<exists>b. map_of s k = Some b \<and> evictable se now b"
  shows "fold (\<lambda>k (s, evicted). case map_of s k of
        Some b \<Rightarrow> if evictable se now b then (AList.delete k s, evicted @ [k]) else (s, evicted)
      | None \<Rightarrow> (s, evicted)) ks (s, ev) = (fold AList.delete ks s, ev @ ks)"
  using assms
proof (induction ks arbitrary: s ev)
  case (Cons k ks)
  then obtain b where b: "map_of s k = Some b" "evictable se now b" by auto
  have "\<forall>k' \<in> set ks. \<exists>b. map_of (AList.delete k s) k' = Some b \<and> evictable se now b"
    using Cons.prems by (auto simp: delete_conv')
  with Cons.IH [of "AList.delete k s" "ev @ [k]"] Cons.prems(1) b show ?case by simp
qed simp

definition idle_keys :: "(bucket \<Rightarrow> i64 \<Rightarrow> bool) \<Rightarrow> i64 \<Rightarrow> (string, bucket) gomap \<Rightarrow> string list" where
  "idle_keys se now s = map fst (filter (\<lambda>(k, b). evictable se now b) s)"

lemma idle_keys_iff:
  assumes "gomap_ok s"
  shows "k \<in> set (idle_keys se now s) \<longleftrightarrow> (\<exists>b. map_of s k = Some b \<and> evictable se now b)" "distinct (idle_keys se now s)"
  using assms by (auto simp: idle_keys_def map_of_mem_iff distinct_map_filter image_iff)

lemma evict_shard_eq:
  assumes "gomap_ok s"
  shows "evict_shard se now s = (fold AList.delete (idle_keys se now s) s, idle_keys se now s)"
proof -
  have "\<forall>k \<in> set (idle_keys se now s). \<exists>b. map_of s k = Some b \<and> evictable se now b"
    using idle_keys_iff(1) [OF assms] by blast
  from evict_fold [OF idle_keys_iff(2) [OF assms] this, of "[]"] show ?thesis
    unfolding evict_shard_def idle_keys_def [symmetric] Let_def by simp
qed

lemma fold_delete_lookup: "map_of (fold AList.delete ks s) k = (if k \<in> set ks then None else map_of s k)"
  by (induction ks arbitrary: s) (auto simp: delete_conv')

definition evicted :: "(bucket \<Rightarrow> i64 \<Rightarrow> bool) \<Rightarrow> i64 \<Rightarrow> 'r limiter \<Rightarrow> string \<Rightarrow> bool" where
  "evicted se now l k \<longleftrightarrow> (\<exists>b. lookup_bucket l k = Some b \<and> evictable se now b)"

lemma evictInactiveKeys_lookup:
  fixes l :: "'r limiter" and E :: "('w, 'r, 'c) env" and se :: "bucket \<Rightarrow> i64 \<Rightarrow> bool" and now :: i64
  assumes "shards_ok shardIndex shardCount (l_shards l)"
  defines "l' \<equiv> evictInactiveKeys E se now l"
  shows "lookup_bucket l' k = (if evicted se now l k then None else lookup_bucket l k)"
    "shards_ok shardIndex shardCount (l_shards l')"
    "set (concat (map snd (map (evict_shard se now) (l_shards l)))) = {k. evicted se now l k}"
proof -
  note sok = assms(1)
  have len: "length (l_shards l) = shardCount" using shards_okD(1) [OF sok] .
  have eq: "map (evict_shard se now) (l_shards l)
      = map (\<lambda>s. (fold AList.delete (idle_keys se now s) s, idle_keys se now s)) (l_shards l)"
    using sok by (auto simp: evict_shard_eq shards_ok_def in_set_conv_nth)
  have sh: "l_shards l' = map (\<lambda>s. fold AList.delete (idle_keys se now s) s) (l_shards l)"
    unfolding l'_def evictInactiveKeys_def eq by (simp add: Let_def comp_def)
  have nth: "l_shards l' ! i = fold AList.delete (idle_keys se now (l_shards l ! i)) (l_shards l ! i)" if "i < shardCount" for i
    using that len by (simp add: sh)
  show "lookup_bucket l' k = (if evicted se now l k then None else lookup_bucket l k)"
    unfolding lookup_bucket_def nth [OF shardIndex_less] fold_delete_lookup
      idle_keys_iff(1) [OF shards_okD(2) [OF sok shardIndex_less]] evicted_def ..
  show "shards_ok shardIndex shardCount (l_shards l')"
    unfolding shards_ok_def
  proof (intro conjI allI impI)
    fix i assume i: "i < shardCount"
    show "gomap_ok (l_shards l' ! i)" "\<forall>k\<in>fst ` set (l_shards l' ! i). shardIndex k = i"
      using shards_okD(2,3) [OF sok i] fold_delete_keys_subset [of "idle_keys se now (l_shards l ! i)" "l_shards l ! i"]
      unfolding nth [OF i] by (simp_all only: fold_delete_ok) blast
  qed (simp add: sh len)
  have "set (concat (map snd (map (evict_shard se now) (l_shards l)))) = (\<Union>s \<in> set (l_shards l). set (idle_keys se now s))"
    unfolding eq by (simp add: comp_def)
  also have "\<dots> = {k. evicted se now l k}"
  proof (intro equalityI subsetI)
    fix k assume "k \<in> (\<Union>s \<in> set (l_shards l). set (idle_keys se now s))"
    then obtain i where i: "i < shardCount" "k \<in> set (idle_keys se now (l_shards l ! i))"
      using len by (metis UN_E in_set_conv_nth)
    then obtain b where b: "map_of (l_shards l ! i) k = Some b" "evictable se now b"
      using idle_keys_iff(1) [OF shards_okD(2) [OF sok i(1)]] by blast
    then have "shardIndex k = i" using shards_okD(3) [OF sok i(1)] by (force dest: map_of_SomeD)
    then show "k \<in> {k. evicted se now l k}" using b by (auto simp: evicted_def lookup_bucket_def)
  next
    fix k assume "k \<in> {k. evicted se now l k}"
    then have "k \<in> set (idle_keys se now (l_shards l ! shardIndex k))"
      using idle_keys_iff(1) [OF shards_okD(2) [OF sok shardIndex_less]] by (auto simp: evicted_def lookup_bucket_def)
    then show "k \<in> (\<Union>s \<in> set (l_shards l). set (idle_keys se now s))"
      using shardIndex_less [of k] len by (metis UN_I nth_mem)
  qed
  finally show "set (concat (map snd (map (evict_shard se now) (l_shards l)))) = {k. evicted se now l k}" .
qed

lemma evictInactiveKeys_rest:
  assumes "limiter_ok l"
  shows "limiter_ok (evictInactiveKeys E se now l)" "l_extras (evictInactiveKeys E se now l) = l_extras l"
    "l_opts (evictInactiveKeys E se now l) = l_opts l" "l_jobs (evictInactiveKeys E se now l) = l_jobs l"
    "l_closed (evictInactiveKeys E se now l) = l_closed l"
proof -
  let ?l = "evictInactiveKeys E se now l"
  have "bm_ok (l_borrowMgr ?l)"
    using limiter_okD(2) [OF assms] by (simp add: evictInactiveKeys_def Let_def EvictKeys_ok)
  then show "limiter_ok ?l"
    using evictInactiveKeys_lookup(1,2) [OF limiter_okD(1) [OF assms], of E se now] limiter_okD(3) [OF assms] by (simp add: limiter_ok_def)
qed (simp_all add: evictInactiveKeys_def Let_def)

text \<open>
  C12. One round of the janitor removes exactly the buckets that are idle by the policy and not
  pre-borrowing, and with them what the borrow manager and the gossiper know about those keys, of
  every peer; it tells the router the same keys, once and only if there are any. Everything about
  the other keys stays.
\<close>
theorem evict_exactly:
  fixes l :: "'r limiter" and E :: "('w, 'r, 'c) env" and se :: "bucket \<Rightarrow> i64 \<Rightarrow> bool" and now :: i64
  assumes "limiter_ok l" "gossip_ok (l_gossiper l)"
  defines "l' \<equiv> evictInactiveKeys E se now l"
    and "gone k \<equiv> \<exists>b. lookup_bucket l k = Some b \<and> se b now \<and> \<not> b_preBorrowing b"
  shows "limiter_ok l' \<and>
    lookup_bucket l' k = (if gone k then None else lookup_bucket l k) \<and>
    key_state (l_borrowMgr l') k = (if gone k then None else key_state (l_borrowMgr l) k) \<and>
    gossip_cell (l_gossiper l') i k = (if gone k then no_cell else gossip_cell (l_gossiper l) i k) \<and>
    (\<exists>ks. set ks = {k. gone k} \<and> l_router l' = (case e_routerEvict E of
       Some f \<Rightarrow> if ks = [] then l_router l else f ks (l_router l) | None \<Rightarrow> l_router l))"
proof -
  note L = evictInactiveKeys_lookup(1) [OF limiter_okD(1) [OF assms(1)], of E se now] evictInactiveKeys_lookup(3) [OF limiter_okD(1) [OF assms(1)], of se now]
  have gone: "gone k \<longleftrightarrow> evicted se now l k" for k
    by (auto simp: gone_def evicted_def evictable_def isPreBorrowing_def)
  define ks where "ks = concat (map snd (map (evict_shard se now) (l_shards l)))"
  have ks: "set ks = {k. gone k}" unfolding gone ks_def by (rule L(2))
  have none: "\<not> gone k" if "ks = []" for k
  proof -
    have "{k. gone k} = {}" using ks unfolding that by simp
    then show ?thesis by blast
  qed
  have m: "l_borrowMgr l' = (if ks = [] then l_borrowMgr l else bm_EvictKeys ks (l_borrowMgr l))"
    "l_gossiper l' = (if ks = [] then l_gossiper l else gossip_EvictKeys ks (l_gossiper l))"
    "l_router l' = (case e_routerEvict E of Some f \<Rightarrow> if ks = [] then l_router l else f ks (l_router l) | None \<Rightarrow> l_router l)"
    unfolding l'_def evictInactiveKeys_def Let_def ks_def [symmetric] by (simp_all split: option.split)
  have mem: "k \<in> set ks \<longleftrightarrow> gone k" using ks by blast
  show ?thesis
  proof (intro conjI exI [of _ ks])
    show "limiter_ok l'" unfolding l'_def by (rule evictInactiveKeys_rest(1) [OF assms(1)])
    show "lookup_bucket l' k = (if gone k then None else lookup_bucket l k)" unfolding l'_def L(1) gone ..
    show "key_state (l_borrowMgr l') k = (if gone k then None else key_state (l_borrowMgr l) k)"
      using none [of k] by (auto simp: m(1) EvictKeys_lookup [OF limiter_okD(2) [OF assms(1)]] mem)
    show "gossip_cell (l_gossiper l') i k = (if gone k then no_cell else gossip_cell (l_gossiper l) i k)"
      using none [of k] by (auto simp: m(2) gossip_cell_EvictKeys [OF assms(2)] mem)
  qed (fact ks, fact m(3))
qed

text \<open>A limiter with one idle bucket and one that is pre-borrowing.\<close>

definition idle_limiter :: "unit limiter" where
  "idle_limiter = put_bucket ''b'' ((newBucket 0 ''b'' 10 Fixed 60000000000)\<lparr>b_preBorrowing := True\<rparr>)
     (put_bucket ''a'' (newBucket 0 ''a'' 10 Fixed 60000000000) (newLimiter defaultOptions ()))"

theorem evict_exactly_witness:
  "\<forall>E :: (unit, unit, unit) env.
     lookup_bucket (evictInactiveKeys E (ShouldEvict (NewIdleEvictionPolicy 60000000000)) 60001 idle_limiter) ''a'' = None \<and>
     lookup_bucket (evictInactiveKeys E (ShouldEvict (NewIdleEvictionPolicy 60000000000)) 60001 idle_limiter) ''b'' \<noteq> None"
proof
  fix E :: "(unit, unit, unit) env"
  let ?l = "evictInactiveKeys E (ShouldEvict (NewIdleEvictionPolicy 60000000000)) 60001 idle_limiter"
  let ?n = "newLimiter defaultOptions () :: unit limiter"
  let ?a = "newBucket 0 ''a'' 10 Fixed 60000000000" and ?b = "(newBucket 0 ''b'' 10 Fixed 60000000000)\<lparr>b_preBorrowing := True\<rparr>"
  have ok: "bucket_ok ?a" "bucket_ok ?b" by (simp_all add: newBucket_def NewLocalBucket_def bucket_ok_def lb_ok_def)
  have 1: "limiter_ok (put_bucket ''a'' ?a ?n)" by (rule limiter_ok_put [OF newLimiter_ok ok(1)])
  then have "limiter_ok idle_limiter" unfolding idle_limiter_def by (rule limiter_ok_put [OF _ ok(2)])
  moreover have "gossip_ok (l_gossiper idle_limiter)" by (simp add: idle_limiter_def newLimiter_def Let_def)
  ultimately have E: "lookup_bucket ?l k = (if \<exists>b. lookup_bucket idle_limiter k = Some b \<and>
      ShouldEvict (NewIdleEvictionPolicy 60000000000) b 60001 \<and> \<not> b_preBorrowing b then None else lookup_bucket idle_limiter k)" for k
    using evict_exactly [of idle_limiter E "ShouldEvict (NewIdleEvictionPolicy 60000000000)" 60001 k] by blast
  have "lookup_bucket idle_limiter ''a'' = Some ?a" "lookup_bucket idle_limiter ''b'' = Some ?b"
    by (simp_all add: idle_limiter_def lookup_put limiter_okD(1) [OF 1] limiter_okD(1) [OF newLimiter_ok])
  then show "lookup_bucket ?l ''a'' = None \<and> lookup_bucket ?l ''b'' \<noteq> None"
    unfolding E by (simp add: ShouldEvict_def NewIdleEvictionPolicy_def getLastAccess_def newBucket_def UnixMilli_def)
qed

end
