(* ===== verification/Fleet.thy ===== *)
theory Fleet
  imports Limiter_Meter Limiter_Evict
begin

text \<open>
  Several instances on one Redis: the composition of the limiter, its peers, the token server and
  the pool. An instance runs in an environment whose stubs are the servers of the other instances,
  over a network that may lose a request or a reply. The theorem is what the program is for: over
  any run of any instances, the requests admitted for a key are bounded by the tokens there were
  and one limit per window that began.
\<close>

subsection \<open>Instances as the peers of an instance\<close>

datatype delivery = Delivered | RequestLost | ReplyLost

definition peer_answer ::
    "('w, 'r, nat) env \<Rightarrow> (nat \<Rightarrow> TransferRequest \<Rightarrow> 'w \<Rightarrow> delivery) \<Rightarrow> nat \<Rightarrow> TransferRequest \<Rightarrow>
     'r limiter list \<times> 'w \<Rightarrow> (err + u64) \<times> 'r limiter list \<times> 'w" where
  "peer_answer B net j q = (\<lambda>(ls, w).
     if length ls \<le> j \<or> net j q w = RequestLost then (Inl ''unavailable'', ls, w)
     else let (r, l', w') = TransferTokens (limiter_server B (l_opts (ls ! j))) q (ls ! j, w)
          in (if net j q w = ReplyLost then Inl ''deadline exceeded''
              else (case r of Inl (code, e) \<Rightarrow> Inl e | Inr g \<Rightarrow> Inr g), ls[j := l'], w'))"

text \<open>The environment of instance \<open>i\<close>; the mesh never hands out a client to the instance itself.\<close>

definition fleet_env ::
    "('w, 'r, nat) env \<Rightarrow> (nat \<Rightarrow> TransferRequest \<Rightarrow> 'w \<Rightarrow> delivery) \<Rightarrow> (nat \<Rightarrow> string \<Rightarrow> nat option) \<Rightarrow> nat \<Rightarrow>
     ('r limiter list \<times> 'w, 'r, nat) env" where
  "fleet_env B net look i =
     \<lparr>e_oor = e_oor B,
      e_redis = \<lparr>EvalSha = (\<lambda>sc ks args (ls, w). let (r, w') = EvalSha (e_redis B) sc ks args w in (r, (ls, w'))),
                 Eval = (\<lambda>sc ks args (ls, w). let (r, w') = Eval (e_redis B) sc ks args w in (r, (ls, w')))\<rparr>,
      e_wall = (\<lambda>(ls, w). let (t, w') = e_wall B w in (t, (ls, w'))),
      e_clock = (\<lambda>(ls, w). let (t, w') = e_clock B w in (t, (ls, w'))),
      e_stub = (\<lambda>j q W. if j = i then (Inl ''cycle detected'', W) else peer_answer B net j q W),
      e_lookup = look i,
      e_sched = (\<lambda>(ls, w). let s = e_sched B w
                 in \<lparr>sch_order = sch_order s, sch_done = sch_done s, sch_doneErr = sch_doneErr s,
                     sch_ctxErr = sch_ctxErr s \<circ> snd\<rparr>),
      e_decide = map_option (\<lambda>d g rc r (ls, w). let (x, r', w') = d g rc r w in (x, r', (ls, w'))) (e_decide B),
      e_routerEvict = e_routerEvict B, e_routerRemovePeer = e_routerRemovePeer B\<rparr>"

subsection \<open>The tokens of a key\<close>

definition stock :: "'r limiter \<Rightarrow> string \<Rightarrow> int" where
  "stock l k = held_at l k + pending l k"

definition stocks :: "'r limiter list \<Rightarrow> string \<Rightarrow> int" where
  "stocks ls k = sum_list (map (\<lambda>l. stock l k) ls)"

lemma stock_frame [simp]:
  "stock (l\<lparr>l_gossiper := g\<rparr>) k = stock l k" "stock (l\<lparr>l_router := r\<rparr>) k = stock l k"
  by (simp_all add: stock_def held_at_def)

lemma stocks_update:
  "j < length ls \<Longrightarrow> stocks (ls[j := l']) k = stocks ls k + stock l' k - stock (ls ! j) k"
proof (induction ls arbitrary: j)
  case (Cons l ls)
  then show ?case by (cases j) (auto simp: stocks_def)
qed simp

lemma pending_nonneg: "0 \<le> pending l k"
  by (auto simp: pending_def intro: sum_list_nonneg)

lemma stock_nonneg: "limiter_ok l \<Longrightarrow> 0 \<le> stock l k"
  using limiter_okD(4) [of l k] pending_nonneg [of l k] by (simp add: stock_def)

lemma stocks_ge: "\<forall>l \<in> set ls. limiter_ok l \<Longrightarrow> j < length ls \<Longrightarrow> stock (ls ! j) k \<le> stocks ls k"
  unfolding stocks_def by (rule member_le_sum_list) (auto simp: stock_nonneg)

definition cfg_ok :: "u64 \<Rightarrow> i64 \<Rightarrow> options \<times> string \<times> i64 \<times> u64 \<times> u64 \<Rightarrow> bool" where
  "cfg_ok L ms c \<longleftrightarrow> (case c of (opts, ident, ttl, minB, maxB) \<Rightarrow>
     o_limit opts = L \<and> Milliseconds (o_window opts) = ms \<and> id_safe ident \<and> lua_exact (sint ttl) \<and>
     uint minB \<le> 2 ^ 53 \<and> uint maxB \<le> 2 ^ 53)"

lemma borrow_size_le:
  assumes "uint (minBorrow (bm_sizer m)) \<le> b" "uint (maxBorrow (bm_sizer m)) \<le> b" "uint need \<le> b"
  shows "uint (borrow_size oor m need) \<le> b"
  using assms by (auto simp: borrow_size_def ComputeBorrowSize_def Let_def word_less_def)

lemma aligned_multiple:
  assumes "0 < sint (Milliseconds (o_window opts))" "lua_exact (sint t)" "0 \<le> sint t"
  shows "lua_exact (sint (aligned opts t))"
    "sint (aligned opts t) = sint (Milliseconds (o_window opts)) * (sint t div sint (Milliseconds (o_window opts)))"
proof -
  define d where "d = sint (Milliseconds (o_window opts))"
  define q where "q = sint t div d"
  have d: "0 < d" using assms(1) by (simp add: d_def)
  have le: "q * d \<le> sint t" "0 \<le> q * d"
    using d assms(3) by (auto simp: q_def minus_mod_eq_div_mult [symmetric] pos_imp_zdiv_nonneg_iff zmod_le_nonneg_dividend)
  then have b: "\<bar>q * d\<bar> \<le> 2 ^ 53" using assms(2,3) unfolding lua_exact_def by linarith
  have "aligned opts t = word_of_int (q * d)"
    using d assms(3) by (auto simp: aligned_def Let_def i64_div_def q_def d_def sgn_if)
  moreover have "sint (word_of_int (q * d) :: i64) = q * d"
    using b by (intro sint_of_int_exact) auto
  ultimately have e: "sint (aligned opts t) = q * d" by simp
  show "lua_exact (sint (aligned opts t))" using b by (simp add: e lua_exact_def)
  show "sint (aligned opts t) = sint (Milliseconds (o_window opts)) * (sint t div sint (Milliseconds (o_window opts)))"
    unfolding e d_def [symmetric] q_def by (rule mult.commute)
qed

lemma fleet_pool:
  "pool_Borrow (e_redis (fleet_env B net look i)) k ident req ttl t (ls, w) =
     (fst (pool_Borrow (e_redis B) k ident req ttl t w), (ls, snd (pool_Borrow (e_redis B) k ident req ttl t w)))"
  "pool_ResetWindow (e_redis (fleet_env B net look i)) k lm st (ls, w) =
     (fst (pool_ResetWindow (e_redis B) k lm st w), (ls, snd (pool_ResetWindow (e_redis B) k lm st w)))"
  by (auto simp: pool_Borrow_def pool_ResetWindow_def runScript_def fleet_env_def Let_def split_beta split: sum.splits)

lemma fleet_accessors [simp]:
  "e_oor (fleet_env B net look i) = e_oor B"
  "e_wall (fleet_env B net look i) W = (fst (e_wall B (snd W)), (fst W, snd (e_wall B (snd W))))"
  "e_clock (fleet_env B net look i) W = (fst (e_clock B (snd W)), (fst W, snd (e_clock B (snd W))))"
  "e_stub (fleet_env B net look i) j q W = (if j = i then (Inl ''cycle detected'', W) else peer_answer B net j q W)"
  "e_decide (fleet_env B net look i) = map_option (\<lambda>d g rc r W. let (x, r', w') = d g rc r (snd W) in (x, r', (fst W, w'))) (e_decide B)"
  by (simp_all add: fleet_env_def split_beta, cases "e_decide B", simp_all add: fun_eq_iff split_beta)

text \<open>Serving a transfer changes nothing an instance is configured with, and only reads the wall clock.\<close>

lemma getOrCreateBucket_world: "getOrCreateBucket E k l w = (b, l', w') \<Longrightarrow> w' = w \<or> w' = snd (e_wall E w)"
  by (auto simp: getOrCreateBucket_def Let_def split_beta split: option.splits)

lemma token_functions_frame:
  assumes "tokenAccessor E k n (l, w) = (r, (l', w')) \<or> tokenTransferer E k n (l, w) = (r, (l', w'))"
  shows "limiter_cfg l' = limiter_cfg l" "w' = w \<or> w' = snd (e_wall E w)"
proof -
  obtain b l1 w1 where g: "getOrCreateBucket E k l w = (b, l1, w1)" by (rule prod_cases3)
  have "limiter_cfg l' = limiter_cfg l1" "w' = w1"
    using assms g by (auto simp: tokenAccessor_def tokenTransferer_def Let_def split_beta split: if_splits)
  then show "limiter_cfg l' = limiter_cfg l" "w' = w \<or> w' = snd (e_wall E w)"
    using getOrCreate_cfg [OF g] getOrCreateBucket_world [OF g] by auto
qed

lemma TransferTokens_frame:
  assumes "TransferTokens (limiter_server E opts) q (l, w) = (r, (l', w'))"
  shows "limiter_cfg l' = limiter_cfg l" "\<And>P. P w \<Longrightarrow> (\<And>w. P w \<Longrightarrow> P (snd (e_wall E w))) \<Longrightarrow> P w'"
proof -
  obtain r1 l1 w1 where a: "tokenAccessor E (tr_LimitKey q) (tr_Requested q) (l, w) = (r1, (l1, w1))" by (rule prod_cases3)
  have "(l', w') = (l, w) \<or> (l', w') = (l1, w1) \<or> (\<exists>n r2. tokenTransferer E (tr_LimitKey q) n (l1, w1) = (r2, (l', w')))"
    using assms a unfolding TransferTokens_def limiter_server_fields
    by (auto simp: Let_def split_beta prod_eq_iff split: option.splits sum.splits if_splits)
  then have "limiter_cfg l' = limiter_cfg l \<and>
      (w' = w \<or> w' = snd (e_wall E w) \<or> w' = snd (e_wall E (snd (e_wall E w))))"
    using token_functions_frame [OF disjI1 [OF a]] token_functions_frame [OF disjI2] by (metis prod.inject)
  then show "limiter_cfg l' = limiter_cfg l" "\<And>P. P w \<Longrightarrow> (\<And>w. P w \<Longrightarrow> P (snd (e_wall E w))) \<Longrightarrow> P w'" by auto
qed

subsection \<open>The base every instance runs on\<close>

text \<open>
  The laws of what the instances share: the Redis server, clocks whose readings Lua can represent
  and that do not write to Redis, and routers that do not either. The clock is never before the
  window number \<open>epoch\<close>, so a key that has no window yet counts as one before it.
\<close>

locale fleet_base = redis_server R "e_redis B" view
  for R :: "'s redis_cmds" and B :: "('w, 'r, nat) env" and view :: "'w \<Rightarrow> 's" +
  fixes L :: u64 and ms :: i64 and epoch :: int
  assumes limit_exact: "uint L \<le> 2 ^ 53" and ms_pos: "0 < sint ms" and epoch_pos: "0 \<le> epoch"
    and wall_laws: "e_wall B w = (t, w') \<Longrightarrow> view w' = view w \<and> lua_exact (sint (UnixMilli t))"
    and clock_laws: "e_clock B w = (t, w') \<Longrightarrow>
      view w' = view w \<and> lua_exact (sint (UnixMilli t)) \<and> epoch * sint ms \<le> sint (UnixMilli t)"
    and decide_view: "e_decide B = Some d \<Longrightarrow> d gs rc r w = (x, r', w') \<Longrightarrow> view w' = view w"
begin

definition windows :: "string \<Rightarrow> 'w \<Rightarrow> int" where
  "windows k w = max (epoch - 1) (started k w div sint ms)"

definition budget :: "string \<Rightarrow> 'r limiter list \<times> 'w \<Rightarrow> int" where
  "budget k W = pool k (snd W) + stocks (fst W) k - uint L * windows k (snd W)"

definition shared_ok :: "'r limiter list \<times> 'w \<Rightarrow> bool" where
  "shared_ok W \<longleftrightarrow> (\<forall>l \<in> set (fst W). cfg_ok L ms (limiter_cfg l)) \<and>
     (\<forall>k. 0 \<le> pool k (snd W) \<and> pool k (snd W) \<le> 2 ^ 53 \<and> lua_exact (started k (snd W)))"

definition world_ok :: "'r limiter list \<times> 'w \<Rightarrow> bool" where
  "world_ok W \<longleftrightarrow> shared_ok W \<and> (\<forall>l \<in> set (fst W). limiter_ok l)"

text \<open>
  What an access by instance \<open>i\<close> on behalf of key \<open>k\<close> may do to the rest of the fleet: windows only
  move forward, the tokens it delivers come out of the budget of \<open>k\<close>, and no other budget grows.
  The second part needs the counters of the instances in range, the first does not.
\<close>

definition fleet_path :: "nat \<Rightarrow> string \<Rightarrow> ('r limiter list \<times> 'w) \<times> int \<Rightarrow> ('r limiter list \<times> 'w) \<times> int \<Rightarrow> bool" where
  "fleet_path i k V V' \<longleftrightarrow> (shared_ok (fst V) \<longrightarrow> shared_ok (fst V') \<and>
     length (fst (fst V')) = length (fst (fst V)) \<and>
     (i < length (fst (fst V)) \<longrightarrow> fst (fst V') ! i = fst (fst V) ! i) \<and>
     (\<forall>k'. started k' (snd (fst V)) \<le> started k' (snd (fst V'))) \<and>
     (world_ok (fst V) \<longrightarrow> world_ok (fst V') \<and>
       (\<forall>k'. budget k' (fst V') + (if k' = k then snd V' - snd V else 0) \<le> budget k' (fst V))))"

lemma fleet_pathI:
  assumes "length ls' = length ls" "i < length ls \<Longrightarrow> ls' ! i = ls ! i"
    and "shared_ok (ls, w) \<Longrightarrow> shared_ok (ls', w') \<and> (\<forall>k'. started k' w \<le> started k' w')"
    and "world_ok (ls, w) \<Longrightarrow> shared_ok (ls', w') \<Longrightarrow> world_ok (ls', w') \<and>
      (\<forall>k'. budget k' (ls', w') + (if k' = k then c' - c else 0) \<le> budget k' (ls, w))"
  shows "fleet_path i k ((ls, w), c) ((ls', w'), c')"
  using assms unfolding fleet_path_def fst_conv snd_conv by blast

lemma fleet_pathD:
  assumes "fleet_path i k ((ls, w), c) ((ls', w'), c')" "world_ok (ls, w)"
  shows "world_ok (ls', w')" "length ls' = length ls" "i < length ls \<Longrightarrow> ls' ! i = ls ! i"
    "started k' w \<le> started k' w'" "budget k' (ls', w') + (if k' = k then c' - c else 0) \<le> budget k' (ls, w)"
  using assms unfolding fleet_path_def world_ok_def fst_conv snd_conv by blast+

lemma fleet_path_refl: "fleet_path i k V V"
  by (simp add: fleet_path_def)

lemma fleet_path_trans: "fleet_path i k V V1 \<Longrightarrow> fleet_path i k V1 V2 \<Longrightarrow> fleet_path i k V V2"
proof -
  assume a: "fleet_path i k V V1" "fleet_path i k V1 V2"
  show "fleet_path i k V V2"
    unfolding fleet_path_def
  proof (intro impI)
    assume w: "shared_ok (fst V)"
    note 1 = a(1) [unfolded fleet_path_def, rule_format, OF w]
    note 2 = a(2) [unfolded fleet_path_def, rule_format, OF conjunct1 [OF 1]]
    have "budget k' (fst V2) + (if k' = k then snd V2 - snd V else 0) \<le> budget k' (fst V)"
      if "world_ok (fst V)" for k'
    proof -
      have "budget k' (fst V1) + (if k' = k then snd V1 - snd V else 0) \<le> budget k' (fst V)"
        "budget k' (fst V2) + (if k' = k then snd V2 - snd V1 else 0) \<le> budget k' (fst V1)"
        using 1 2 that by blast+
      then show ?thesis by (cases "k' = k") auto
    qed
    moreover have "started k' (snd (fst V)) \<le> started k' (snd (fst V2))" for k'
      using 1 2 order_trans by blast
    moreover have "world_ok (fst V) \<longrightarrow> world_ok (fst V2)" using 1 2 by blast
    ultimately show "shared_ok (fst V2) \<and> length (fst (fst V2)) = length (fst (fst V)) \<and>
      (i < length (fst (fst V)) \<longrightarrow> fst (fst V2) ! i = fst (fst V) ! i) \<and>
      (\<forall>k'. started k' (snd (fst V)) \<le> started k' (snd (fst V2))) \<and>
      (world_ok (fst V) \<longrightarrow> world_ok (fst V2) \<and>
        (\<forall>k'. budget k' (fst V2) + (if k' = k then snd V2 - snd V else 0) \<le> budget k' (fst V)))"
      using 1 2 by simp
  qed
qed

lemma path_view:
  assumes "view w' = view w"
  shows "fleet_path i k ((ls, w), c) ((ls, w'), c)"
  using assms by (auto simp: fleet_path_def world_ok_def shared_ok_def budget_def windows_def)

lemma path_borrow:
  assumes cfg: "cfg_ok L ms cfg" "mgr_cfg m = snd cfg" and need: "uint need \<le> 2 ^ 53"
    and t: "lua_exact (sint (UnixMilli t))"
    and b: "pool_Borrow (e_redis B) k (bm_instanceID m) (borrow_size oor m need) (bm_leaseTTLms m) t w = (g, w')"
    and c': "c' = c + (case g of Inl e \<Rightarrow> 0 | Inr n \<Rightarrow> uint n)"
  shows "fleet_path i k ((ls, w), c) ((ls, w'), c')"
proof -
  have m: "id_safe (bm_instanceID m)" "lua_exact (sint (bm_leaseTTLms m))"
    "uint (minBorrow (bm_sizer m)) \<le> 2 ^ 53" "uint (maxBorrow (bm_sizer m)) \<le> 2 ^ 53"
    using cfg by (auto simp: cfg_ok_def mgr_cfg_def split: prod.splits)
  have size: "uint (borrow_size oor m need) \<le> 2 ^ 53" using borrow_size_le [OF m(3,4) need] .
  have step: "shared_ok (ls, w') \<and> pool k w' + (c' - c) \<le> pool k w \<and>
      (\<forall>k'. (k' \<noteq> k \<longrightarrow> pool k' w' = pool k' w) \<and> started k' w' = started k' w)" if ok: "shared_ok (ls, w)"
  proof -
    have pw: "0 \<le> pool k w" "pool k w \<le> 2 ^ 53" using ok by (auto simp: shared_ok_def)
    then have "lua_exact (pool k w)" by (simp add: lua_exact_def)
    note S = pool_Borrow_spec [OF b m(1) size m(2) t this]
    let ?g = "if pool k w \<le> 0 then 0 else min (uint (borrow_size oor m need)) (pool k w)"
    have g: "0 \<le> ?g" "?g \<le> pool k w" using pw uint_ge_0 [of "borrow_size oor m need"] by auto
    have p: "pool k w' + (c' - c) \<le> pool k w" "0 \<le> pool k w'" "pool k w' \<le> pool k w"
      using S g by (cases g; auto simp: c')+
    have other: "k' \<noteq> k \<Longrightarrow> pool k' w' = pool k' w" "started k' w' = started k' w" for k' using S by blast+
    have "shared_ok (ls, w')"
      using ok p pw other unfolding shared_ok_def by (metis fst_conv snd_conv order_trans)
    then show ?thesis using p(1) other by blast
  qed
  show ?thesis
  proof (rule fleet_pathI)
    assume "world_ok (ls, w)" "shared_ok (ls, w')"
    moreover have "budget k' (ls, w') + (if k' = k then c' - c else 0) \<le> budget k' (ls, w)" for k'
      using step calculation(1) by (auto simp: budget_def windows_def world_ok_def)
    ultimately show "world_ok (ls, w') \<and>
      (\<forall>k'. budget k' (ls, w') + (if k' = k then c' - c else 0) \<le> budget k' (ls, w))"
      by (simp add: world_ok_def)
  qed (use step in auto)
qed

text \<open>A reset fills the pool at most by one limit, and only together with a later window.\<close>

lemma path_reset:
  assumes t: "lua_exact (sint (UnixMilli t))" "epoch * sint ms \<le> sint (UnixMilli t)" and cfg: "cfg_ok L ms cfg"
    and b: "pool_ResetWindow (e_redis B) k (o_limit (fst cfg)) (aligned (fst cfg) (UnixMilli t)) w = (e, w')"
  shows "fleet_path i k ((ls, w), c) ((ls, w'), c)"
proof -
  have step: "shared_ok (ls, w') \<and> (\<forall>k'. started k' w \<le> started k' w') \<and>
      (\<forall>k'. budget k' (ls, w') \<le> budget k' (ls, w))" if ok: "shared_ok (ls, w)"
  proof -
    have c: "o_limit (fst cfg) = L" "Milliseconds (o_window (fst cfg)) = ms"
      using cfg by (auto simp: cfg_ok_def split: prod.splits)
    let ?st = "sint (aligned (fst cfg) (UnixMilli t))"
    define j where "j = sint (UnixMilli t) div sint ms"
    have "0 \<le> epoch * sint ms" using epoch_pos ms_pos by simp
    then have "0 \<le> sint (UnixMilli t)" using t(2) by linarith
    then have j: "lua_exact ?st" "?st = sint ms * j"
      using aligned_multiple [of "fst cfg" "UnixMilli t"] ms_pos c t(1) by (simp_all add: j_def)
    have "epoch * sint ms div sint ms \<le> j" unfolding j_def by (rule zdiv_mono1 [OF t(2) ms_pos])
    then have ej: "epoch \<le> j" using ms_pos by simp
    have pw: "0 \<le> pool k w" "lua_exact (started k w)" using ok by (auto simp: shared_ok_def)
    note S = pool_ResetWindow_spec [OF b [unfolded c] limit_exact j(1) pw(2)]
    have cases: "pool k w' = pool k w \<and> started k w' = started k w \<or>
        started k w < ?st \<and> pool k w' = uint L \<and> started k w' = ?st"
      using S by (cases e) (auto simp: max_def split: if_splits)
    have other: "k' \<noteq> k \<Longrightarrow> pool k' w' = pool k' w \<and> started k' w' = started k' w" for k' using S by blast
    have bud: "pool k w' - uint L * windows k w' \<le> pool k w - uint L * windows k w"
      using cases
    proof (elim disjE conjE)
      assume a: "started k w < ?st" "pool k w' = uint L" "started k w' = ?st"
      have "windows k w' = j" using a(3) ms_pos ej by (simp add: windows_def j)
      moreover have "started k w div sint ms < j"
      proof (rule ccontr)
        assume "\<not> started k w div sint ms < j"
        then have "j * sint ms \<le> started k w div sint ms * sint ms" using ms_pos by (intro mult_right_mono) auto
        moreover have "started k w div sint ms * sint ms \<le> started k w"
          using ms_pos by (simp add: minus_mod_eq_div_mult [symmetric])
        ultimately show False using a(1) j(2) by (simp add: mult.commute)
      qed
      then have "windows k w < j" using ej by (simp add: windows_def)
      ultimately have "uint L * (windows k w + 1) \<le> uint L * windows k w'"
        using uint_ge_0 [of L] by (intro mult_left_mono) auto
      then show ?thesis using a(2) pw(1) by (simp add: distrib_left)
    qed (simp add: windows_def)
    have mono: "started k' w \<le> started k' w'" for k' using cases other by (cases "k' = k") auto
    have "0 \<le> pool k' w' \<and> pool k' w' \<le> 2 ^ 53 \<and> lua_exact (started k' w')" for k'
      using ok cases other [of k'] j(1) limit_exact uint_ge_0 [of L] unfolding shared_ok_def by (cases "k' = k") auto
    then have "shared_ok (ls, w')" using ok by (simp add: shared_ok_def)
    moreover have "budget k' (ls, w') \<le> budget k' (ls, w)" for k'
      using bud other [of k'] by (cases "k' = k") (auto simp: budget_def windows_def)
    ultimately show ?thesis using mono by blast
  qed
  show ?thesis by (rule fleet_pathI) (use step in \<open>auto simp: world_ok_def\<close>)
qed

lemma path_stub:
  assumes a: "peer_answer B net j q (ls, w) = (p, (ls', w'))" and ji: "j \<noteq> i" and k: "tr_LimitKey q = k"
    and c': "c' = c + (case p of Inl e \<Rightarrow> 0 | Inr n \<Rightarrow> uint n)"
  shows "fleet_path i k ((ls, w), c) ((ls', w'), c')"
proof (cases "length ls \<le> j \<or> net j q w = RequestLost")
  case True
  then show ?thesis using a c' by (auto simp: peer_answer_def fleet_path_refl)
next
  case False
  obtain r l' w1 where T: "TransferTokens (limiter_server B (l_opts (ls ! j))) q (ls ! j, w) = (r, (l', w1))"
    by (rule prod_cases3)
  let ?got = "case r of Inl e \<Rightarrow> 0 | Inr g \<Rightarrow> uint g"
  have e: "ls' = ls[j := l']" "w' = w1" "c' - c \<le> ?got"
    using a False T c' by (auto simp: peer_answer_def split: sum.splits if_splits)
  have j: "j < length ls" using False by simp
  note F = TransferTokens_frame [OF T]
  have v: "view w' = view w" unfolding e(2) by (rule F(2)) (use wall_laws [OF surjective_pairing] in auto)
  show ?thesis
  proof (rule fleet_pathI)
    assume "shared_ok (ls, w)"
    then show "shared_ok (ls', w') \<and> (\<forall>k'. started k' w \<le> started k' w')"
      using v F(1) j set_update_subset_insert [of ls j l'] unfolding shared_ok_def e(1) by (auto simp: v)
  next
    assume ok: "world_ok (ls, w)" and ok': "shared_ok (ls', w')"
    then have lok: "limiter_ok (ls ! j)" using j by (simp add: world_ok_def)
    note S = limiter_serves [OF lok T, unfolded k]
    have st: "stock l' k' = stock (ls ! j) k' - (if k' = k then ?got else 0)" for k'
      using S(2,4) by (simp add: stock_def)
    have "world_ok (ls', w')"
      using ok ok' S(1) set_update_subset_insert [of ls j l'] unfolding world_ok_def e(1) by auto
    moreover have "budget k' (ls', w') + (if k' = k then c' - c else 0) \<le> budget k' (ls, w)" for k'
      using e(3) st [of k'] j by (simp add: budget_def windows_def v e(1) stocks_update)
    ultimately show "world_ok (ls', w') \<and>
      (\<forall>k'. budget k' (ls', w') + (if k' = k then c' - c else 0) \<le> budget k' (ls, w))" by blast
  qed (use e(1) ji in auto)
qed

lemma fleet_world_path:
  assumes cfg: "cfg_ok L ms cfg"
  shows "world_path (meter_env k (fleet_env B net look i)) k snd (fleet_path i k) cfg"
proof (rule world_path.intro [OF metered.token_source_axioms])
  let ?M = "meter_env k (fleet_env B net look i)"
  show "world_path_axioms ?M k (fleet_path i k) cfg"
  proof unfold_locales
    fix V V1 V2
    show "fleet_path i k V V" by (rule fleet_path_refl)
    show "fleet_path i k V V1 \<Longrightarrow> fleet_path i k V1 V2 \<Longrightarrow> fleet_path i k V V2" by (rule fleet_path_trans)
  next
    fix V V' t assume "e_wall ?M V = (t, V')"
    then show "fleet_path i k V V'"
      using wall_laws [of "snd (fst V)", OF surjective_pairing] by (cases V) (auto simp: meter_env_def split_beta intro!: path_view)
  next
    fix V V' t assume "e_clock ?M V = (t, V')"
    then show "fleet_path i k V V'"
      using clock_laws [of "snd (fst V)", OF surjective_pairing] by (cases V) (auto simp: meter_env_def split_beta intro!: path_view)
  next
    fix d gs rc r V x r' V' assume "e_decide ?M = Some d" "d gs rc r V = (x, r', V')"
    then show "fleet_path i k V V'"
      using decide_view by (cases V) (auto simp: meter_decide split_beta intro!: path_view, metis prod.collapse)
  next
    fix q j V p V' assume q: "tr_LimitKey q = k" and s: "e_stub ?M j q V = (p, V')"
    obtain ls w c where V: "V = ((ls, w), c)" by (cases V) auto
    show "fleet_path i k V V'"
    proof (cases "j = i")
      case True
      then show ?thesis using s q V by (auto simp: meter_env_def fleet_path_refl)
    next
      case False
      obtain p1 ls' w' where a: "peer_answer B net j q (ls, w) = (p1, (ls', w'))" by (rule prod_cases3)
      then show ?thesis using s q V False path_stub [OF a False q refl, of c] by (auto simp: meter_env_def)
    qed
  next
    fix m need V0 t V1 V g V'
    assume m: "mgr_cfg m = snd cfg" and need: "uint need \<le> 2 ^ 53" and t: "e_wall ?M V0 = (t, V1)"
      and b: "pool_Borrow (e_redis ?M) k (bm_instanceID m) (borrow_size (e_oor ?M) m need) (bm_leaseTTLms m) t V = (g, V')"
    obtain ls w c where V: "V = ((ls, w), c)" by (cases V) auto
    have "t = fst (e_wall B (snd (fst V0)))" using t by (cases V0) (auto simp: meter_env_def)
    then have tex: "lua_exact (sint (UnixMilli t))" using wall_laws [OF surjective_pairing] by simp
    let ?P = "pool_Borrow (e_redis B) k (bm_instanceID m) (borrow_size (e_oor ?M) m need) (bm_leaseTTLms m) t w"
    have "g = fst ?P" "fst V' = (ls, snd ?P)"
      using b meter_pool(1,2) [of k "fleet_env B net look i" k "bm_instanceID m" "borrow_size (e_oor ?M) m need" "bm_leaseTTLms m" t V]
      by (simp_all add: V fleet_pool)
    moreover have "snd V' = c + (case g of Inl e \<Rightarrow> 0 | Inr n \<Rightarrow> uint n)" using metered.borrow_supplies [OF b] V by simp
    ultimately show "fleet_path i k V V'"
      using path_borrow [OF cfg m need tex surjective_pairing refl, where oor = "e_oor ?M" and k = k and w = w and c = c and i = i and ls = ls] V
      by (cases V') simp
  next
    fix V0 t V1 V e V'
    assume t: "e_clock ?M V0 = (t, V1)"
      and b: "pool_ResetWindow (e_redis ?M) k (o_limit (fst cfg)) (aligned (fst cfg) (UnixMilli t)) V = (e, V')"
    obtain ls w c where V: "V = ((ls, w), c)" by (cases V) auto
    have "t = fst (e_clock B (snd (fst V0)))" using t by (cases V0) (auto simp: meter_env_def)
    then have tex: "lua_exact (sint (UnixMilli t))" and tep: "epoch * sint ms \<le> sint (UnixMilli t)"
      using clock_laws [OF surjective_pairing] by simp_all
    let ?P = "pool_ResetWindow (e_redis B) k (o_limit (fst cfg)) (aligned (fst cfg) (UnixMilli t)) w"
    have "fst V' = (ls, snd ?P)"
      using b meter_pool(3,4) [of k "fleet_env B net look i" k "o_limit (fst cfg)" "aligned (fst cfg) (UnixMilli t)" V]
      by (simp_all add: V fleet_pool)
    moreover have "snd V' = c" using metered.reset_supplies [OF b] V by simp
    ultimately show "fleet_path i k V V'"
      using path_reset [OF tex tep cfg surjective_pairing, where k = k and w = w and i = i and ls = ls and c = c] V by (cases V') simp
  qed
qed

end

subsection \<open>Runs of the fleet\<close>

text \<open>
  The state: the instances, the world they share, and per key the tokens admitted so far. A step is
  one call or one background action of one instance, with everything it does to its peers and to
  Redis on the way; calls of different instances happen in any order. Requests ask for at most
  \<open>2^53\<close> tokens.
\<close>

type_synonym ('w, 'r) fleet = "'r limiter list \<times> 'w \<times> (string \<Rightarrow> int)"

inductive fleet_step ::
    "('w, 'r, nat) env \<Rightarrow> (nat \<Rightarrow> TransferRequest \<Rightarrow> 'w \<Rightarrow> delivery) \<Rightarrow> (nat \<Rightarrow> string \<Rightarrow> nat option) \<Rightarrow>
     ('w, 'r) fleet \<Rightarrow> ('w, 'r) fleet \<Rightarrow> bool"
  for B net look where
  call: "i < length ls \<Longrightarrow> uint n \<le> 2 ^ 53 \<Longrightarrow>
     AllowN fuel (fleet_env B net look i) k n (ls ! i) (ls, w) = Some (Return (r, l', (ls', w'))) \<Longrightarrow>
     fleet_step B net look (ls, w, adm) (ls'[i := l'], w', adm(k := adm k + spent n r))"
| prejob: "i < length ls \<Longrightarrow> k \<in> set (l_jobs (ls ! i)) \<Longrightarrow>
     preBorrow_job (fleet_env B net look i) k (ls ! i) (ls, w) = (l', (ls', w')) \<Longrightarrow>
     fleet_step B net look (ls, w, adm) (ls'[i := l'], w', adm)"
| extra: "i < length ls \<Longrightarrow> deliver_extra B (ls ! i) w = (l', w') \<Longrightarrow>
     fleet_step B net look (ls, w, adm) (ls[i := l'], w', adm)"
| evict: "i < length ls \<Longrightarrow>
     fleet_step B net look (ls, w, adm) (ls[i := evictInactiveKeys B se now (ls ! i)], w, adm)"
| gossip: "i < length ls \<Longrightarrow>
     server_Gossip (limiter_server B (l_opts (ls ! i))) origin consumed borrowed (ls ! i, w) = (st, (l', w')) \<Longrightarrow>
     fleet_step B net look (ls, w, adm) (ls[i := l'], w', adm)"
| removed: "i < length ls \<Longrightarrow>
     fleet_step B net look (ls, w, adm) (ls[i := peer_removed B p (ls ! i)], w, adm)"

definition fleet_tokens :: "'s redis_cmds \<Rightarrow> ('w \<Rightarrow> 's) \<Rightarrow> string \<Rightarrow> ('w, 'r) fleet \<Rightarrow> int" where
  \<comment> \<open>the tokens of a key in the pool and at the instances\<close>
  "fleet_tokens R view k F = (case F of (ls, w, adm) \<Rightarrow> avail R (PoolKey k) (view w) + stocks ls k)"

definition fleet_windows :: "'s redis_cmds \<Rightarrow> ('w \<Rightarrow> 's) \<Rightarrow> i64 \<Rightarrow> int \<Rightarrow> string \<Rightarrow> ('w, 'r) fleet \<Rightarrow> int" where
  \<comment> \<open>the number of the window of a key, by the start stored in Redis\<close>
  "fleet_windows R view ms epoch k F =
     (case F of (ls, w, adm) \<Rightarrow> max (epoch - 1) (avail R (WindowStartKey k) (view w) div sint ms))"

context fleet_base begin

lemma step_own:
  assumes "i < length ls" "world_ok (ls, w)" "fleet_path i k ((ls, w), 0) ((ls', w'), c)"
    and "limiter_ok l'" "limiter_cfg l' = limiter_cfg (ls ! i)"
    and "\<And>k'. stock l' k' + a k' \<le> stock (ls ! i) k' + (if k' = k then c else 0)"
  shows "world_ok (ls'[i := l'], w')" "started k' w \<le> started k' w'"
    "budget k' (ls'[i := l'], w') + a k' \<le> budget k' (ls, w)"
proof -
  note P = fleet_pathD [OF assms(3,2)]
  have i: "i < length ls'" "ls' ! i = ls ! i" using P assms(1) by auto
  have "cfg_ok L ms (limiter_cfg l')" using assms(1,2,5) by (auto simp: world_ok_def shared_ok_def)
  then show "world_ok (ls'[i := l'], w')"
    using P assms(4) set_update_subset_insert [of ls' i l'] unfolding world_ok_def shared_ok_def by auto
  show "started k' w \<le> started k' w'" using P(4) .
  have "budget k' (ls'[i := l'], w') = budget k' (ls', w') + stock l' k' - stock (ls ! i) k'"
    using i by (simp add: budget_def stocks_update)
  moreover have "budget k' (ls', w') + (if k' = k then c - 0 else 0) \<le> budget k' (ls, w)" using P(5) .
  ultimately show "budget k' (ls'[i := l'], w') + a k' \<le> budget k' (ls, w)"
    using assms(6) [of k'] by (cases "k' = k") auto
qed

lemma delivered_fits:
  assumes "i < length ls" "world_ok (ls, w)" "fleet_path i k ((ls, w), 0) ((ls', w'), c)"
    and "pool k w + stocks ls k + uint L * (windows k w' - windows k w) < 2 ^ 63"
  shows "held_at (ls ! i) k + c < 2 ^ 63"
proof -
  note P = fleet_pathD [OF assms(3,2)]
  have i: "i < length ls'" "ls' ! i = ls ! i" using P assms(1) by auto
  have ok': "world_ok (ls', w')" using P by simp
  then have "stock (ls' ! i) k \<le> stocks ls' k" "0 \<le> pool k w'"
    using stocks_ge [OF _ i(1)] by (auto simp: world_ok_def shared_ok_def)
  moreover have "held_at (ls ! i) k \<le> stock (ls ! i) k" using pending_nonneg [of "ls ! i" k] by (simp add: stock_def)
  moreover have "budget k (ls', w') + (if k = k then c - 0 else 0) \<le> budget k (ls, w)" using P(5) .
  ultimately show ?thesis using assms(4) i(2) by (simp add: budget_def right_diff_distrib)
qed

lemma deliver_extra_world: "deliver_extra E l v = (l', v') \<Longrightarrow> v' = v \<or> v' = snd (e_wall E v)"
  by (auto simp: deliver_extra_def getOrCreateBucket_def Let_def split_beta split: list.splits option.splits)

lemma deliver_extra_cfg: "deliver_extra E l v = (l', v') \<Longrightarrow> limiter_cfg l' = limiter_cfg l"
  by (auto simp: deliver_extra_def Let_def split: list.splits prod.splits dest: getOrCreate_cfg)

lemma server_Gossip_frame:
  assumes "server_Gossip (limiter_server E opts) origin consumed borrowed (l, v) = (st, (l', v'))"
  shows "\<exists>g. l' = l\<lparr>l_gossiper := g\<rparr>" "v' = snd (e_wall E v)"
  using assms
  by (auto simp: server_Gossip_def limiter_server_def gossipHandler_def SetGossipHandler_def Let_def split_beta)

lemma evict_cfg [simp]: "limiter_cfg (evictInactiveKeys E se now l) = limiter_cfg l"
  by (simp add: evictInactiveKeys_def Let_def limiter_cfg_def)

lemma own_fits:
  assumes "i < length ls" "world_ok (ls, w)" "pool k w + stocks ls k + uint L * (windows k w' - windows k w) < 2 ^ 63"
    and "view w' = view w"
  shows "stock (ls ! i) k < 2 ^ 63"
proof -
  have "0 \<le> pool k w" "stock (ls ! i) k \<le> stocks ls k"
    using assms(2) stocks_ge [OF _ assms(1), of k] by (auto simp: world_ok_def shared_ok_def)
  then show ?thesis using assms(3) by (simp add: windows_def assms(4))
qed

lemma step_local:
  assumes "i < length ls" "world_ok (ls, w)" "limiter_ok l'" "limiter_cfg l' = limiter_cfg (ls ! i)"
    and "\<And>k. stock l' k \<le> stock (ls ! i) k" "view w' = view w"
  shows "world_ok (ls[i := l'], w') \<and> (\<forall>k. started k w \<le> started k w') \<and>
    (\<forall>k. budget k (ls[i := l'], w') \<le> budget k (ls, w))"
  using step_own [OF assms(1,2) path_view [OF assms(6)] assms(3,4), of "\<lambda>_. 0"] assms(5) by simp

lemma windows_mono: "started k w \<le> started k w' \<Longrightarrow> windows k w \<le> windows k w'"
  unfolding windows_def using ms_pos by (intro max.mono zdiv_mono1) auto

lemma step_shared:
  assumes "i < length ls" "shared_ok (ls, w)" "fleet_path i k ((ls, w), 0) ((ls', w'), c)"
    and "limiter_cfg l' = limiter_cfg (ls ! i)"
  shows "shared_ok (ls'[i := l'], w') \<and> (\<forall>k. started k w \<le> started k w')"
proof -
  note P = assms(3) [unfolded fleet_path_def fst_conv snd_conv, rule_format, OF assms(2)]
  have "cfg_ok L ms (limiter_cfg l')" using assms(1,2,4) by (auto simp: shared_ok_def)
  then show ?thesis
    using P set_update_subset_insert [of ls' i l'] unfolding shared_ok_def by auto
qed

lemma fleet_step_shared:
  assumes "fleet_step B net look (ls, w, adm) (ls2, w2, adm2)" "shared_ok (ls, w)"
  shows "shared_ok (ls2, w2) \<and> (\<forall>k. started k w \<le> started k w2)"
  using assms(1)
proof (cases rule: fleet_step.cases)
  case (call i n fuel k r l' ls')
  have cfg: "cfg_ok L ms (limiter_cfg (ls ! i))" using assms(2) call(3) by (auto simp: shared_ok_def)
  obtain c where run: "AllowN fuel (meter_env k (fleet_env B net look i)) k n (ls ! i) ((ls, w), 0) =
      Some (Return (r, l', ((ls', w2), c)))"
    using meter_run [OF call(5)] call(1) by blast
  note R = world_path.AllowN_R [OF fleet_world_path [OF cfg] call(4) run refl]
  show ?thesis using step_shared [OF call(3) assms(2) conjunct1 [OF R] conjunct2 [OF R]] call(1) by simp
next
  case (prejob i k l' ls')
  have cfg: "cfg_ok L ms (limiter_cfg (ls ! i))" using assms(2) prejob(3) by (auto simp: shared_ok_def)
  let ?M = "meter_env k (fleet_env B net look i)"
  define c where "c = snd (snd (preBorrow_job ?M k (ls ! i) ((ls, w), 0)))"
  have run: "preBorrow_job ?M k (ls ! i) ((ls, w), 0) = (l', ((ls', w2), c))"
    using meter_deliver_job [of k "fleet_env B net look i" k "ls ! i" "((ls, w), 0)"] prejob(5)
    by (simp add: c_def prod_eq_iff)
  note R = world_path.preBorrow_job_R [OF fleet_world_path [OF cfg] run refl]
  show ?thesis using step_shared [OF prejob(3) assms(2) conjunct1 [OF R] conjunct2 [OF R]] prejob(1) by simp
next
  case (extra i l')
  have v: "view w2 = view w" using deliver_extra_world [OF extra(4)] wall_laws [of w, OF surjective_pairing] by auto
  show ?thesis
    using step_shared [OF extra(3) assms(2) path_view [OF v] deliver_extra_cfg [OF extra(4)]] extra(1) by simp
next
  case (evict i se now)
  then show ?thesis using step_shared [OF evict(4) assms(2) path_view [OF refl] evict_cfg] by simp
next
  case (gossip i origin consumed borrowed st l')
  note G = server_Gossip_frame [OF gossip(4)]
  have v: "view w2 = view w" using G(2) wall_laws [of w, OF surjective_pairing] by simp
  have c: "limiter_cfg l' = limiter_cfg (ls ! i)" using G(1) by auto
  show ?thesis using step_shared [OF gossip(3) assms(2) path_view [OF v] c] gossip(1) by simp
next
  case (removed i p)
  then show ?thesis
    using step_shared [OF removed(4) assms(2) path_view [OF refl], of "peer_removed B p (ls ! i)"]
    by (simp add: peer_removed_def)
qed

lemma fleet_step_budget:
  assumes "fleet_step B net look (ls, w, adm) (ls2, w2, adm2)" "world_ok (ls, w)"
    and "\<And>k. pool k w + stocks ls k + uint L * (windows k w2 - windows k w) < 2 ^ 63"
  shows "world_ok (ls2, w2) \<and> (\<forall>k. started k w \<le> started k w2) \<and>
    (\<forall>k. budget k (ls2, w2) + adm2 k \<le> budget k (ls, w) + adm k) \<and> (\<forall>k. adm k \<le> adm2 k)"
  using assms(1)
proof (cases rule: fleet_step.cases)
  case (call i n fuel k r l' ls')
  let ?M = "meter_env k (fleet_env B net look i)" and ?l = "ls ! i"
  have l: "limiter_ok ?l" "cfg_ok L ms (limiter_cfg ?l)" using assms(2) call(3) by (auto simp: world_ok_def shared_ok_def)
  obtain c where run: "AllowN fuel ?M k n ?l ((ls, w), 0) = Some (Return (r, l', ((ls', w2), c)))"
    using meter_run [OF call(5)] call(1) by blast
  note R = world_path.AllowN_R [OF fleet_world_path [OF l(2)] call(4) run refl]
  have fit: "held_at ?l k + c < 2 ^ 63"
    using delivered_fits [OF call(3) assms(2) conjunct1 [OF R]] assms(3) by blast
  have amt: "amount n" using call(4) by simp
  have C: "limiter_ok l'" "\<exists>lost. 0 \<le> lost \<and> held_at l' k + pending l' k + spent n r + lost = held_at ?l k + pending ?l k + c"
    "\<And>k'. k' \<noteq> k \<Longrightarrow> held_at l' k' = held_at ?l k' \<and> pending l' k' = pending ?l k'"
    using AllowN_conserves [OF metered.token_source_axioms l(1) amt run] fit by auto
  have st: "stock l' k' + (if k' = k then spent n r else 0) \<le> stock ?l k' + (if k' = k then c else 0)" for k'
    using C(2) C(3) [of k'] by (auto simp: stock_def)
  note S = step_own [OF call(3) assms(2) conjunct1 [OF R] C(1) conjunct2 [OF R] st]
  have "0 \<le> spent n r" by (simp add: spent_def)
  moreover have "budget k' (ls2, w2) + adm2 k' \<le> budget k' (ls, w) + adm k'" for k'
    using S(3) [of k'] call(2) by (cases "k' = k") (simp_all add: call(1))
  ultimately show ?thesis using S(1,2) call(1,2) by simp
next
  case (prejob i k l' ls')
  let ?M = "meter_env k (fleet_env B net look i)" and ?l = "ls ! i"
  have l: "limiter_ok ?l" "cfg_ok L ms (limiter_cfg ?l)" using assms(2) prejob(3) by (auto simp: world_ok_def shared_ok_def)
  define c where "c = snd (snd (preBorrow_job ?M k ?l ((ls, w), 0)))"
  have run: "preBorrow_job ?M k ?l ((ls, w), 0) = (l', ((ls', w2), c))"
    using meter_deliver_job [of k "fleet_env B net look i" k ?l "((ls, w), 0)"] prejob(5) by (simp add: c_def prod_eq_iff)
  note R = world_path.preBorrow_job_R [OF fleet_world_path [OF l(2)] run refl]
  have fit: "held_at ?l k + c < 2 ^ 63"
    using delivered_fits [OF prejob(3) assms(2) conjunct1 [OF R]] assms(3) by blast
  note C = token_source.preBorrow_job_ledger [OF metered.token_source_axioms l(1) run, unfolded snd_conv diff_0_right, OF fit]
  have st: "stock l' k' + 0 \<le> stock ?l k' + (if k' = k then c else 0)" for k'
    using C(2) C(3,4) [of k'] by (cases "k' = k") (auto simp: stock_def)
  note S = step_own [OF prejob(3) assms(2) conjunct1 [OF R] C(1) conjunct2 [OF R] st]
  then show ?thesis using prejob(1,2) by simp
next
  case (extra i l')
  have l: "limiter_ok (ls ! i)" using assms(2) extra(3) by (auto simp: world_ok_def)
  have "w2 = w \<or> w2 = snd (e_wall B w)" using deliver_extra_world [OF extra(4)] .
  then have v: "view w2 = view w" using wall_laws [of w, OF surjective_pairing] by auto
  have fit: "held_at (ls ! i) k + pending (ls ! i) k < 2 ^ 63" for k
    using own_fits [OF extra(3) assms(2) assms(3) v, of k] by (simp add: stock_def)
  note D = deliver_extra_spec [OF l extra(4) fit]
  show ?thesis
    using step_local [OF extra(3) assms(2) D(1,3) _ v] D(2) extra(1,2) by (simp add: stock_def)
next
  case (evict i se now)
  have l: "limiter_ok (ls ! i)" using assms(2) evict(4) by (auto simp: world_ok_def)
  note E = evictInactiveKeys_rest [OF l, of B se now]
  have h: "held_at (evictInactiveKeys B se now (ls ! i)) k \<le> held_at (ls ! i) k" for k
    using evictInactiveKeys_lookup(1) [OF limiter_okD(1) [OF l], of B se now k] limiter_okD(4) [OF l, of k] by (simp add: held_at_def)
  show ?thesis
    using step_local [OF evict(4) assms(2) E(1) _ _ refl] h E(2) evict(1-3) by (simp add: stock_def pending_def)
next
  case (gossip i origin consumed borrowed st l')
  have l: "limiter_ok (ls ! i)" using assms(2) gossip(3) by (auto simp: world_ok_def)
  note e = server_Gossip_frame [OF gossip(4)]
  have v: "view w2 = view w" using e(2) wall_laws [of w, OF surjective_pairing] by simp
  show ?thesis
    using step_local [OF gossip(3) assms(2) _ _ _ v, of l'] e(1) l gossip(1,2) by auto
next
  case (removed i p)
  have l: "limiter_ok (ls ! i)" using assms(2) removed(4) by (auto simp: world_ok_def)
  show ?thesis
    using step_local [OF removed(4) assms(2) _ _ _ refl, of "peer_removed B p (ls ! i)"] l removed(1-3)
    by (simp add: peer_removed_def)
qed

lemma fleet_run:
  assumes "(fleet_step B net look)\<^sup>*\<^sup>* (ls0, w0, adm0) (ls, w, adm)" "world_ok (ls0, w0)"
  shows "shared_ok (ls, w) \<and> (\<forall>k. started k w0 \<le> started k w) \<and>
    ((\<forall>k. pool k w0 + stocks ls0 k + uint L * (windows k w - windows k w0) < 2 ^ 63) \<longrightarrow>
      world_ok (ls, w) \<and> (\<forall>k. budget k (ls, w) + adm k \<le> budget k (ls0, w0) + adm0 k) \<and> (\<forall>k. adm0 k \<le> adm k))"
  using assms(1)
proof (induction "(ls, w, adm)" arbitrary: ls w adm rule: rtranclp_induct)
  case base
  then show ?case using assms(2) by (simp add: world_ok_def)
next
  case (step F ls2 w2 adm2)
  obtain ls1 w1 adm1 where F: "F = (ls1, w1, adm1)" by (rule prod_cases3)
  note IH = step.hyps(3) [OF F] and last = step.hyps(2) [unfolded F]
  have s1: "shared_ok (ls1, w1)" and m1: "\<And>k. started k w0 \<le> started k w1" using IH by blast+
  have s2: "shared_ok (ls2, w2)" and m2: "\<And>k. started k w1 \<le> started k w2"
    using fleet_step_shared [OF last s1] by blast+
  have win: "windows k w1 \<le> windows k w2" for k using windows_mono [OF m2] .
  have "world_ok (ls2, w2) \<and> (\<forall>k. budget k (ls2, w2) + adm2 k \<le> budget k (ls0, w0) + adm0 k) \<and> (\<forall>k. adm0 k \<le> adm2 k)"
    if fit: "\<forall>k. pool k w0 + stocks ls0 k + uint L * (windows k w2 - windows k w0) < 2 ^ 63"
  proof -
    have part: "uint L * (windows k w1 - windows k w0) \<le> uint L * (windows k w2 - windows k w0)" for k
      using win [of k] uint_ge_0 [of L] by (intro mult_left_mono) auto
    then have one: "world_ok (ls1, w1)" "\<And>k. budget k (ls1, w1) + adm1 k \<le> budget k (ls0, w0) + adm0 k" "\<And>k. adm0 k \<le> adm1 k"
      using IH fit order.strict_trans1 [OF add_left_mono] by blast+
    have "pool k w1 + stocks ls1 k + uint L * (windows k w2 - windows k w1) < 2 ^ 63" for k
      using one(2,3) [of k] fit [rule_format, of k] by (simp add: budget_def right_diff_distrib)
    note S = fleet_step_budget [OF last one(1) this]
    have "budget k (ls2, w2) + adm2 k \<le> budget k (ls0, w0) + adm0 k" "adm0 k \<le> adm2 k" for k
      using S one(2,3) [of k] by (meson order_trans)+
    then show ?thesis using S by blast
  qed
  moreover have "started k w0 \<le> started k w2" for k using m1 m2 order_trans by blast
  ultimately show ?case using s2 by blast
qed

end

text \<open>What a fleet must satisfy: counters in range at every instance, one configuration, a sane pool.\<close>

definition fleet_ok :: "'s redis_cmds \<Rightarrow> ('w \<Rightarrow> 's) \<Rightarrow> u64 \<Rightarrow> i64 \<Rightarrow> ('w, 'r) fleet \<Rightarrow> bool" where
  "fleet_ok R view L ms F = (case F of (ls, w, adm) \<Rightarrow>
     (\<forall>l \<in> set ls. limiter_ok l \<and> cfg_ok L ms (limiter_cfg l)) \<and>
     (\<forall>k. 0 \<le> avail R (PoolKey k) (view w) \<and> avail R (PoolKey k) (view w) \<le> 2 ^ 53 \<and>
          lua_exact (avail R (WindowStartKey k) (view w))))"

definition admitted :: "string \<Rightarrow> ('w, 'r) fleet \<Rightarrow> int" where
  "admitted k F = (case F of (ls, w, adm) \<Rightarrow> adm k)"

context fleet_base begin

lemma fleet_ok_iff: "fleet_ok R view L ms (ls, w, adm) \<longleftrightarrow> world_ok (ls, w)"
  by (auto simp: fleet_ok_def world_ok_def shared_ok_def)

lemma fleet_conserves:
  assumes "fleet_ok R view L ms F0" "(fleet_step B net look)\<^sup>*\<^sup>* F0 F"
    and "\<And>k. fleet_tokens R view k F0 + uint L * (fleet_windows R view ms epoch k F - fleet_windows R view ms epoch k F0) < 2 ^ 63"
  shows "fleet_ok R view L ms F" "admitted k F0 \<le> admitted k F"
    "fleet_windows R view ms epoch k F0 \<le> fleet_windows R view ms epoch k F"
    "admitted k F - admitted k F0 + fleet_tokens R view k F \<le>
       fleet_tokens R view k F0 + uint L * (fleet_windows R view ms epoch k F - fleet_windows R view ms epoch k F0)"
proof -
  obtain ls0 w0 adm0 ls w adm where F: "F0 = (ls0, w0, adm0)" "F = (ls, w, adm)" by (metis prod_cases3)
  have fit: "\<forall>k. pool k w0 + stocks ls0 k + uint L * (windows k w - windows k w0) < 2 ^ 63"
    using assms(3) by (simp add: F fleet_tokens_def fleet_windows_def windows_def)
  note R = fleet_run [OF assms(2) [unfolded F] assms(1) [unfolded F fleet_ok_iff]]
  show "fleet_ok R view L ms F" "admitted k F0 \<le> admitted k F" using R fit by (simp_all add: F fleet_ok_iff admitted_def)
  show "fleet_windows R view ms epoch k F0 \<le> fleet_windows R view ms epoch k F"
    using R windows_mono [of k w0 w] by (simp add: F fleet_windows_def windows_def)
  have "budget k (ls, w) + adm k \<le> budget k (ls0, w0) + adm0 k" using R fit by blast
  then show "admitted k F - admitted k F0 + fleet_tokens R view k F \<le>
       fleet_tokens R view k F0 + uint L * (fleet_windows R view ms epoch k F - fleet_windows R view ms epoch k F0)"
    by (simp add: F admitted_def fleet_tokens_def fleet_windows_def budget_def windows_def right_diff_distrib)
qed

end

text \<open>
  C1. The system keeps the rate limit. Any instances share one Redis; calls, pre-borrows, extra
  tokens, evictions, gossip and removals of peers happen in any order, with transfers between
  the instances over a network that loses requests and replies. Then for every key the requests
  admitted, plus the tokens still in the pool and at the instances, are at most the tokens there
  were and one limit for every window that has passed; the state stays well-formed.
\<close>
theorem fleet_bound:
  assumes "fleet_base R B view L ms epoch" "fleet_ok R view L ms F0" "(fleet_step B net look)\<^sup>*\<^sup>* F0 F"
    and "\<And>k. fleet_tokens R view k F0 + uint L * (fleet_windows R view ms epoch k F - fleet_windows R view ms epoch k F0) < 2 ^ 63"
  shows "fleet_ok R view L ms F \<and> (\<forall>k. admitted k F - admitted k F0 + fleet_tokens R view k F \<le>
    fleet_tokens R view k F0 + uint L * (fleet_windows R view ms epoch k F - fleet_windows R view ms epoch k F0))"
  using fleet_base.fleet_conserves [OF assms] by blast

subsection \<open>A run of two instances\<close>

definition duo_env :: "(mem_store, unit, nat) env" where
  "duo_env = \<lparr>e_oor = \<lambda>_. 0, e_redis = mem_client, e_wall = Pair 0, e_clock = Pair 0,
     e_stub = \<lambda>_ _ w. (Inl ''unavailable'', w), e_lookup = \<lambda>_. None,
     e_sched = \<lambda>_. \<lparr>sch_order = id, sch_done = None, sch_doneErr = '''', sch_ctxErr = \<lambda>_. None\<rparr>,
     e_decide = Some default_Decide, e_routerEvict = None, e_routerRemovePeer = None\<rparr>"

interpretation duo: fleet_base mem_cmds duo_env "\<lambda>w. w" 10000 60000 0
  by unfold_locales (auto simp: duo_env_def default_Decide_def mem_client_def mem_exec_def split_beta lua_exact_def UnixMilli_def
      split: if_splits)

definition duo :: "(mem_store, unit) fleet" where
  "duo = ([demo_limiter, newLimiter (demo_options\<lparr>o_instanceID := ''i2''\<rparr>) ()], [PoolKey ''k'' \<mapsto> 20], \<lambda>_. 0)"

lemma duo_ids: "id_safe ''i1''" "id_safe ''i2''"
  by code_simp+

lemma stock_new: "stock (newLimiter opts r) k = 0"
  using shardIndex_less [of k]
  by (simp add: stock_def held_at_def pending_def newLimiter_def Let_def lookup_bucket_def)

lemma duo_cfg:
  "id_safe i \<Longrightarrow> cfg_ok 10000 60000 (limiter_cfg (newLimiter (demo_options\<lparr>o_instanceID := i\<rparr>) ()))"
  "cfg_ok 10000 60000 (limiter_cfg (newLimiter demo_options ()))"
  using duo_ids demo_window
  by (auto simp: cfg_ok_def limiter_cfg_def mgr_cfg_def newLimiter_def NewBorrowManager_def NewAdaptiveSizer_def
      demo_options_def defaultOptions_def Let_def lua_exact_def Milliseconds_def i64_div_def)

lemma duo_call:
  assumes "\<And>W. e_clock E W = (0, W)" "e_wall E = Pair 0" "e_decide E = Some default_Decide"
    and "pool_Borrow (e_redis E) ''k'' ''i1'' 30 30000 0 W = (Inr 20, W')"
  shows "\<exists>l'. AllowN (Suc (Suc (Suc (Suc 0)))) E ''k'' 5 demo_limiter W = Some (Return (Inr True, l', W'))"
proof -
  let ?b = "\<lparr>b_local = \<lparr>tokens = 0\<rparr>, b_window = \<lparr>windowType = o_windowType demo_options,
      limit = o_limit demo_options, windowMs = 60000, windowSize = 60000000000, windowStart = 0\<rparr>, b_key = ''k'',
     b_consumed = 0, b_lastAccess = 0, b_redisExhausted = False, b_preBorrowing = False\<rparr>"
  have "Milliseconds 30000000000 = 30000" by (simp add: Milliseconds_def i64_div_def)
  then have "\<exists>m. Acquire (e_oor E) (e_redis E) (Pair 0) ''k'' 5 on_grant (l_borrowMgr demo_limiter) ?b W
      = (Inr 20, m, on_grant 20 ?b, W')"
    using assms(4)
    by (auto simp: Acquire_def acquire_flight_def acquire_finish_def record_grant_def demo_limiter_def newLimiter_def
        NewBorrowManager_def ComputeBorrowSize_def NewAdaptiveSizer_def demo_options_def defaultOptions_def Let_def
        split: option.splits)
  then obtain m where A: "Acquire (e_oor E) (e_redis E) (Pair 0) ''k'' 5 on_grant (l_borrowMgr demo_limiter) ?b W
      = (Inr 20, m, on_grant 20 ?b, W')" by blast
  have "snd (snd (Borrowed (Pair 0) ''k'' m W')) = W'"
    by (auto simp: Borrowed_def Let_def split_beta split: option.splits)
  then obtain v m2 where B: "Borrowed (Pair 0) ''k'' m W' = (v, m2, W')" by (metis prod.collapse)
  have fresh: "getOrCreateBucket E ''k'' demo_limiter W = (?b, put_bucket ''k'' ?b demo_limiter, W)"
    by (simp add: getOrCreateBucket_def newBucket_def NewLocalBucket_def NewWindow_def demo_window UnixMilli_def Let_def assms(2))
  show ?thesis
    using A B
    by (simp add: AllowN_def fresh Let_def try_serve_def tryConsume_def TryConsume_def updateAccess_def allow_slow_def
        needsReset_def NeedsReset_def UnixMilli_def default_Decide_def IsRedisExhausted_def acquireFromPeers_def
        acquirer_Acquire_def acquire_body_def TopK_new acquirer_shared_def on_grant_def ClearRedisExhausted_def
        refill_def Refill_def assms(1-3))
qed

lemma duo_step:
  "\<exists>ls w. fleet_step duo_env net (\<lambda>_ _. None) duo (ls, w, (\<lambda>_. 0)(''k'' := 5)) \<and>
     (\<forall>k. avail mem_cmds (WindowStartKey k) w = 0)"
proof -
  obtain w where P: "pool_Borrow mem_client ''k'' ''i1'' 30 30000 0 [PoolKey ''k'' \<mapsto> 20] = (Inr 20, w)"
    by (simp add: pool_Borrow_def runScript_def mem_client_def mem_exec_def borrowLua_def Let_def
      split_beta toUint64_def mem_cmds_def mem_get_def)
  let ?E = "fleet_env duo_env net (\<lambda>_ _. None) 0" and ?W = "(fst duo, [PoolKey ''k'' \<mapsto> 20])"
  have "\<exists>l'. AllowN (Suc (Suc (Suc (Suc 0)))) ?E ''k'' 5 demo_limiter ?W = Some (Return (Inr True, l', (fst duo, w)))"
  proof (rule duo_call)
    show "pool_Borrow (e_redis ?E) ''k'' ''i1'' 30 30000 0 ?W = (Inr 20, (fst duo, w))"
      using P by (simp add: fleet_pool) (simp add: duo_env_def)
  qed (auto simp: duo_env_def default_Decide_def fun_eq_iff)
  then obtain l' where A: "AllowN 4 ?E ''k'' 5 demo_limiter ?W = Some (Return (Inr True, l', (fst duo, w)))"
    by (auto simp: numeral_eq_Suc)
  have "fleet_step duo_env net (\<lambda>_ _. None) (fst duo, [PoolKey ''k'' \<mapsto> 20], \<lambda>_. 0)
      ((fst duo)[0 := l'], w, (\<lambda>_. 0)(''k'' := (\<lambda>_. 0) ''k'' + spent 5 (Inr True)))"
    using A by (intro fleet_step.call [where fuel = 4]) (simp_all add: duo_def)
  moreover have "avail mem_cmds (WindowStartKey k) w = 0" for k
    using mem_srv.pool_Borrow_spec [OF P] duo_ids
    by (auto simp: lua_exact_def UnixMilli_def mem_cmds_def mem_get_def)
  ultimately show ?thesis by (auto simp: duo_def spent_def)
qed

theorem fleet_bound_witness:
  "\<exists>F. (fleet_step duo_env (\<lambda>_ _ _. Delivered) (\<lambda>_ _. None))\<^sup>*\<^sup>* duo F \<and> admitted ''k'' F = 5 \<and>
     5 + fleet_tokens mem_cmds (\<lambda>w. w) ''k'' F \<le> 20"
proof -
  obtain ls w where s: "fleet_step duo_env (\<lambda>_ _ _. Delivered) (\<lambda>_ _. None) duo (ls, w, (\<lambda>_. 0)(''k'' := 5))"
    "\<And>k. avail mem_cmds (WindowStartKey k) w = 0"
    using duo_step by blast
  let ?F = "(ls, w, (\<lambda>_. 0)(''k'' := 5))"
  have win: "fleet_windows mem_cmds (\<lambda>w. w) 60000 0 k ?F = 0" "fleet_windows mem_cmds (\<lambda>w. w) 60000 0 k duo = 0" for k
    using s(2) by (simp_all add: fleet_windows_def duo_def mem_cmds_def mem_get_def)
  have tok: "fleet_tokens mem_cmds (\<lambda>w. w) k duo = (if k = ''k'' then 20 else 0)" for k
    by (simp add: fleet_tokens_def duo_def demo_limiter_def mem_cmds_def mem_get_def stocks_def stock_new)
  have run: "(fleet_step duo_env (\<lambda>_ _ _. Delivered) (\<lambda>_ _. None))\<^sup>*\<^sup>* duo ?F" using s(1) by blast
  have ok: "fleet_ok mem_cmds (\<lambda>w. w) 10000 60000 duo"
    using duo_cfg duo_ids by (auto simp: fleet_ok_def duo_def demo_limiter_def mem_cmds_def mem_get_def lua_exact_def)
  have "\<forall>k. admitted k ?F - admitted k duo + fleet_tokens mem_cmds (\<lambda>w. w) k ?F \<le> (if k = ''k'' then 20 else 0)"
    using fleet_bound [OF duo.fleet_base_axioms ok run] by (simp add: win tok)
  then have "admitted ''k'' ?F - admitted ''k'' duo + fleet_tokens mem_cmds (\<lambda>w. w) ''k'' ?F \<le> 20"
    by (rule allE [of _ "''k''"]) simp
  then have "admitted ''k'' ?F + fleet_tokens mem_cmds (\<lambda>w. w) ''k'' ?F \<le> 20"
    by (simp add: admitted_def duo_def)
  then show ?thesis using run by (intro exI [of _ ?F]) (simp add: admitted_def)
qed

interpretation duo_path: world_path "meter_env ''k'' (fleet_env duo_env (\<lambda>_ _ _. Delivered) (\<lambda>_ _. None) 0)" "''k''" snd
  "duo.fleet_path 0 ''k''" "limiter_cfg demo_limiter"
  unfolding demo_limiter_def by (rule duo.fleet_world_path [OF duo_cfg(2)])

end
