(* ===== verification/Cluster.thy ===== *)
theory Cluster
  imports Redis_Pool
begin

text \<open>
  Membership (\<^verbatim>\<open>internal/cluster\<close>): every instance keeps an entry in one Redis hash, renewed by a
  heartbeat, and discovers the others there; entries older than the time to live are left out and
  deleted by a goroutine of its own, \<open>expire_members\<close>. The hash commands and the JSON encoder are
  parameters; a clock reading is an argument threaded like the world.
\<close>

record MemberInfo =
  mi_ID :: string
  mi_GossipAddr :: string
  mi_GRPCAddr :: string
  mi_Metadata :: "(string, string) gomap"
  mi_RegisteredAt :: i64

record ('w, 'v) hash_client =
  HSet :: "string \<Rightarrow> string \<Rightarrow> 'v \<Rightarrow> 'w \<Rightarrow> err option \<times> 'w"
  HDel :: "string \<Rightarrow> string list \<Rightarrow> 'w \<Rightarrow> err option \<times> 'w"
  HGetAll :: "string \<Rightarrow> 'w \<Rightarrow> (err + (string, 'v) gomap) \<times> 'w"

record 'v json =
  Marshal :: "MemberInfo \<Rightarrow> err + 'v"
  Unmarshal :: "'v \<Rightarrow> err + MemberInfo"

record ('w, 'v) Membership =
  mb_client :: "('w, 'v) hash_client"
  mb_json :: "'v json"
  mb_wall :: "'w \<Rightarrow> gtime \<times> 'w"
  mb_ttl :: duration
  mb_prefix :: string

definition NewMembership ::
    "('w, 'v) hash_client \<Rightarrow> 'v json \<Rightarrow> ('w \<Rightarrow> gtime \<times> 'w) \<Rightarrow> duration \<Rightarrow> ('w, 'v) Membership" where
  "NewMembership C J clk ttl =
     \<lparr>mb_client = C, mb_json = J, mb_wall = clk, mb_ttl = ttl, mb_prefix = ''krate:cluster:''\<rparr>"

definition hashKey :: "('w, 'v) Membership \<Rightarrow> string" where
  "hashKey M = mb_prefix M @ ''members''"

definition RedisNil :: err where
  "RedisNil = ''redis: nil''"

definition Register :: "('w, 'v) Membership \<Rightarrow> MemberInfo \<Rightarrow> 'w \<Rightarrow> err option \<times> 'w" where
  "Register M info w =
     (let (info, w) = (if mi_RegisteredAt info = 0
            then (let (t, w') = mb_wall M w in (info\<lparr>mi_RegisteredAt := UnixMilli t\<rparr>, w')) else (info, w))
      in case Marshal (mb_json M) info of
           Inl e \<Rightarrow> (Some (''marshal member info: '' @ e), w)
         | Inr data \<Rightarrow>
             (case HSet (mb_client M) (hashKey M) (mi_ID info) data w of
                (Some e, w') \<Rightarrow> (Some (''register member '' @ mi_ID info @ '': '' @ e), w')
              | (None, w') \<Rightarrow> (None, w')))"

definition Deregister :: "('w, 'v) Membership \<Rightarrow> string \<Rightarrow> 'w \<Rightarrow> err option \<times> 'w" where
  "Deregister M i w =
     (case HDel (mb_client M) (hashKey M) [i] w of
        (Some e, w') \<Rightarrow> if e \<noteq> RedisNil then (Some (''deregister member '' @ i @ '': '' @ e), w') else (None, w')
      | (None, w') \<Rightarrow> (None, w'))"

definition member_expired :: "i64 \<Rightarrow> i64 \<Rightarrow> MemberInfo \<Rightarrow> bool" where
  "member_expired ttlMs now info \<longleftrightarrow> sint ttlMs < sint (now - mi_RegisteredAt info)"

fun discover_loop ::
    "'v json \<Rightarrow> i64 \<Rightarrow> i64 \<Rightarrow> (string, 'v) gomap \<Rightarrow> MemberInfo list \<times> string list \<Rightarrow> MemberInfo list \<times> string list" where
  "discover_loop J ttlMs now [] acc = acc"
| "discover_loop J ttlMs now ((i, s) # vals) (members, toDelete) =
     discover_loop J ttlMs now vals
       (case Unmarshal J s of
          Inl e \<Rightarrow> (members, toDelete)
        | Inr info \<Rightarrow> if member_expired ttlMs now info then (members, toDelete @ [i])
                      else (members @ [info], toDelete))"

text \<open>The second component is what the goroutine that deletes expired entries is started with.\<close>

definition Discover :: "('w, 'v) Membership \<Rightarrow> 'w \<Rightarrow> (err + MemberInfo list) \<times> string list \<times> 'w" where
  "Discover M w =
     (case HGetAll (mb_client M) (hashKey M) w of
        (Inl e, w1) \<Rightarrow> (Inl (''hgetall members: '' @ e), [], w1)
      | (Inr vals, w1) \<Rightarrow>
          if vals = [] then (Inr [], [], w1)
          else let (t, w2) = mb_wall M w1;
                   (members, toDelete) = discover_loop (mb_json M) (Milliseconds (mb_ttl M)) (UnixMilli t) vals ([], [])
               in (Inr members, toDelete, w2))"

definition expire_members :: "('w, 'v) Membership \<Rightarrow> string list \<Rightarrow> 'w \<Rightarrow> 'w" where
  "expire_members M toDelete w =
     (if toDelete = [] then w else snd (HDel (mb_client M) (hashKey M) toDelete w))"

definition Refresh :: "('w, 'v) Membership \<Rightarrow> MemberInfo \<Rightarrow> 'w \<Rightarrow> err option \<times> 'w" where
  "Refresh M info w = (let (t, w1) = mb_wall M w in Register M (info\<lparr>mi_RegisteredAt := UnixMilli t\<rparr>) w1)"

subsection \<open>Heartbeat\<close>

text \<open>
  The registration and then one renewal per tick, until the heartbeat is stopped or its context
  cancelled. The list collects the errors given to \<^verbatim>\<open>OnFail\<close>.
\<close>

datatype heartbeat_event = HTick | HStop | HDone

fun heartbeat_loop ::
    "('w, 'v) Membership \<Rightarrow> MemberInfo \<Rightarrow> heartbeat_event list \<Rightarrow> err list \<Rightarrow> 'w \<Rightarrow> err list \<times> 'w" where
  "heartbeat_loop M info [] fails w = (fails, w)"
| "heartbeat_loop M info (HTick # es) fails w =
     (case Refresh M info w of
        (Some e, w') \<Rightarrow> heartbeat_loop M info es (fails @ [e]) w'
      | (None, w') \<Rightarrow> heartbeat_loop M info es fails w')"
| "heartbeat_loop M info (HStop # es) fails w = (fails, w)"
| "heartbeat_loop M info (HDone # es) fails w = (fails, w)"

definition heartbeat_Start ::
    "('w, 'v) Membership \<Rightarrow> MemberInfo \<Rightarrow> heartbeat_event list \<Rightarrow> 'w \<Rightarrow> err list \<times> 'w" where
  "heartbeat_Start M info es w =
     (let (e, w1) = Register M info w
      in heartbeat_loop M info es (case e of Some msg \<Rightarrow> [msg] | None \<Rightarrow> []) w1)"

subsection \<open>What membership relies on\<close>

text \<open>
  The hash of the members as the server holds it. A command that reports an error may still have
  been executed. The encoder is asked for entries of ASCII text only (JSON replaces bytes that are
  not UTF-8).
\<close>

definition ascii :: "string \<Rightarrow> bool" where
  "ascii str \<longleftrightarrow> (\<forall>c \<in> set str. of_char c < (128 :: nat))"

definition plain_info :: "MemberInfo \<Rightarrow> bool" where
  "plain_info info \<longleftrightarrow> ascii (mi_ID info) \<and> ascii (mi_GossipAddr info) \<and> ascii (mi_GRPCAddr info) \<and> mi_Metadata info = []"

lemma plain_info_time [simp]: "plain_info (info\<lparr>mi_RegisteredAt := t\<rparr>) = plain_info info"
  by (simp add: plain_info_def)

lemma discover_loop_spec:
  "discover_loop J ttlMs now vals (ms, ds) =
     (ms @ [info. (i, v) \<leftarrow> vals, info \<leftarrow> (case Unmarshal J v of Inl e \<Rightarrow> [] | Inr x \<Rightarrow> [x]), \<not> member_expired ttlMs now info],
      ds @ [i. (i, v) \<leftarrow> vals, info \<leftarrow> (case Unmarshal J v of Inl e \<Rightarrow> [] | Inr x \<Rightarrow> [x]), member_expired ttlMs now info])"
  by (induction J ttlMs now vals "(ms, ds)" arbitrary: ms ds rule: discover_loop.induct) (auto split: sum.splits)

lemma heartbeat_fails_grow: "\<exists>more. fst (heartbeat_loop M info es fails w) = fails @ more"
proof (induction M info es fails w rule: heartbeat_loop.induct)
  case (2 M info es fails w)
  then show ?case by (cases "Refresh M info w") (auto split: option.splits)
qed auto

definition member_at :: "('w, 'v) Membership \<Rightarrow> (string \<rightharpoonup> 'v) \<Rightarrow> string \<Rightarrow> MemberInfo option" where
  \<comment> \<open>the entry of an instance, if it can be decoded\<close>
  "member_at M h i = (case h i of None \<Rightarrow> None | Some v \<Rightarrow>
     (case Unmarshal (mb_json M) v of Inl e \<Rightarrow> None | Inr info \<Rightarrow> Some info))"

abbreviation ttl_ms :: "('w, 'v) Membership \<Rightarrow> i64" where
  "ttl_ms M \<equiv> Milliseconds (mb_ttl M)"

abbreviation wall_ms :: "('w, 'v) Membership \<Rightarrow> 'w \<Rightarrow> i64" where
  "wall_ms M w \<equiv> UnixMilli (fst (mb_wall M w))"

definition discover_ms :: "('w, 'v) Membership \<Rightarrow> 'w \<Rightarrow> i64" where
  \<comment> \<open>the time against which \<^verbatim>\<open>Discover\<close> compares the entries\<close>
  "discover_ms M w = wall_ms M (snd (HGetAll (mb_client M) (hashKey M) w))"

locale member_store =
  fixes M :: "('w, 'v) Membership" and entries :: "'w \<Rightarrow> (string \<rightharpoonup> 'v)"
  assumes hset_ok: "HSet (mb_client M) (hashKey M) f v w = (None, w') \<Longrightarrow> entries w' = (entries w)(f \<mapsto> v)"
    and hset_error: "HSet (mb_client M) (hashKey M) f v w = (Some e, w') \<Longrightarrow>
      entries w' = entries w \<or> entries w' = (entries w)(f \<mapsto> v)"
    and hdel_ok: "HDel (mb_client M) (hashKey M) fs w = (None, w') \<Longrightarrow> entries w' = (entries w) |` (- set fs)"
    and hdel_error: "HDel (mb_client M) (hashKey M) fs w = (Some e, w') \<Longrightarrow>
      entries w' = entries w \<or> entries w' = (entries w) |` (- set fs)"
    and hgetall: "HGetAll (mb_client M) (hashKey M) w = (Inr vals, w') \<Longrightarrow>
      gomap_ok vals \<and> map_of vals = entries w \<and> entries w' = entries w"
    and hgetall_error: "HGetAll (mb_client M) (hashKey M) w = (Inl e, w') \<Longrightarrow> entries w' = entries w"
    and json: "plain_info info \<Longrightarrow> Marshal (mb_json M) info = Inr v \<Longrightarrow> Unmarshal (mb_json M) v = Inr info"
    and wall: "mb_wall M w = (t, w') \<Longrightarrow> entries w' = entries w"
begin

lemma Discover_spec:
  assumes "Discover M w = (r, ds, w')"
  shows "entries w' = entries w"
    "r = Inr ms \<Longrightarrow>
       set ms = {info. \<exists>i. member_at M (entries w) i = Some info \<and> \<not> member_expired (ttl_ms M) (discover_ms M w) info} \<and>
       set ds = {i. \<exists>info. member_at M (entries w) i = Some info \<and> member_expired (ttl_ms M) (discover_ms M w) info}"
    "r = Inl e \<Longrightarrow> ds = []"
proof -
  obtain a w1 where h: "HGetAll (mb_client M) (hashKey M) w = (a, w1)" by (cases "HGetAll (mb_client M) (hashKey M) w")
  obtain t w2 where t: "mb_wall M w1 = (t, w2)" by (cases "mb_wall M w1")
  have w2: "entries w2 = entries w1" using wall [OF t] .
  have "entries w' = entries w \<and> (\<forall>e. r = Inl e \<longrightarrow> ds = []) \<and> (\<forall>ms. r = Inr ms \<longrightarrow>
       set ms = {info. \<exists>i. member_at M (entries w) i = Some info \<and> \<not> member_expired (ttl_ms M) (discover_ms M w) info} \<and>
       set ds = {i. \<exists>info. member_at M (entries w) i = Some info \<and> member_expired (ttl_ms M) (discover_ms M w) info})"
  proof (cases a)
    case (Inl e)
    then show ?thesis using assms h hgetall_error by (auto simp: Discover_def)
  next
    case (Inr vals)
    note H = hgetall [OF h [unfolded Inr]]
    have mem: "member_at M (entries w) i = Some info \<longleftrightarrow> (\<exists>v. (i, v) \<in> set vals \<and> Unmarshal (mb_json M) v = Inr info)" for i info
    proof -
      have m: "(i, v) \<in> set vals \<longleftrightarrow> entries w i = Some v" for v using H map_of_mem_iff [of vals i v] by simp
      show ?thesis unfolding m by (auto simp: member_at_def split: option.splits sum.splits)
    qed
    show ?thesis
    proof (cases "vals = []")
      case True
      then show ?thesis using assms h Inr H by (auto simp: Discover_def mem)
    next
      case False
      have e: "w' = w2" "r = Inr (fst (discover_loop (mb_json M) (ttl_ms M) (UnixMilli t) vals ([], [])))"
        "ds = snd (discover_loop (mb_json M) (ttl_ms M) (UnixMilli t) vals ([], []))"
        using assms h Inr t False by (simp_all add: Discover_def split_beta)
      show ?thesis
        using e w2 H t h unfolding discover_loop_spec mem
        by (intro conjI allI impI) (auto simp: discover_ms_def split: sum.splits, force+)
    qed
  qed
  then show "entries w' = entries w" "r = Inl e \<Longrightarrow> ds = []"
    "r = Inr ms \<Longrightarrow>
       set ms = {info. \<exists>i. member_at M (entries w) i = Some info \<and> \<not> member_expired (ttl_ms M) (discover_ms M w) info} \<and>
       set ds = {i. \<exists>info. member_at M (entries w) i = Some info \<and> member_expired (ttl_ms M) (discover_ms M w) info}" by blast+
qed

text \<open>A renewal that reports no error leaves the entry of the instance, and only that entry, renewed.\<close>

lemma Refresh_spec:
  assumes "plain_info info" "Refresh M info w = (None, w')"
  shows "\<exists>v s. entries v = entries w \<and>
      entries w' = (entries w)(mi_ID info \<mapsto> s) \<and> Unmarshal (mb_json M) s = Inr (info\<lparr>mi_RegisteredAt := wall_ms M v\<rparr>)"
proof -
  obtain t w1 where t: "mb_wall M w = (t, w1)" by (cases "mb_wall M w")
  obtain t2 w2 where t2: "mb_wall M w1 = (t2, w2)" by (cases "mb_wall M w1")
  have e: "entries w1 = entries w" "entries w2 = entries w" using wall [OF t] wall [OF t2] by simp_all
  let ?i = "if UnixMilli t = 0 then info\<lparr>mi_RegisteredAt := UnixMilli t2\<rparr> else info\<lparr>mi_RegisteredAt := UnixMilli t\<rparr>"
  let ?w = "if UnixMilli t = 0 then w2 else w1"
  obtain s where s: "Marshal (mb_json M) ?i = Inr s" "HSet (mb_client M) (hashKey M) (mi_ID info) s ?w = (None, w')"
    using assms(2) t t2 by (cases "UnixMilli t = 0") (auto simp: Refresh_def Register_def split: sum.splits option.splits prod.splits)
  have "Unmarshal (mb_json M) s = Inr ?i" by (rule json [OF _ s(1)]) (use assms(1) in simp)
  then show ?thesis
    using hset_ok [OF s(2)] e t t2 by (auto split: if_splits intro!: exI [of _ s])
qed

lemma expire_members_spec:
  "entries (expire_members M ds w) = entries w \<or> entries (expire_members M ds w) = entries w |` (- set ds)"
  using hdel_ok hdel_error by (auto simp: expire_members_def) (metis prod.collapse option.exhaust)

lemma Register_spec:
  assumes "plain_info info" "Register M info w = (None, w')"
  shows "\<exists>r s. entries w' = (entries w)(mi_ID info \<mapsto> s) \<and>
      Unmarshal (mb_json M) s = Inr (info\<lparr>mi_RegisteredAt := r\<rparr>) \<and> (mi_RegisteredAt info \<noteq> 0 \<longrightarrow> r = mi_RegisteredAt info)"
proof -
  obtain t w1 where t: "mb_wall M w = (t, w1)" by (cases "mb_wall M w")
  let ?i = "if mi_RegisteredAt info = 0 then info\<lparr>mi_RegisteredAt := UnixMilli t\<rparr> else info"
  obtain s where s: "Marshal (mb_json M) ?i = Inr s"
    "HSet (mb_client M) (hashKey M) (mi_ID info) s (if mi_RegisteredAt info = 0 then w1 else w) = (None, w')"
    using assms(2) t by (cases "mi_RegisteredAt info = 0") (auto simp: Register_def split: sum.splits option.splits prod.splits)
  have "Unmarshal (mb_json M) s = Inr ?i" by (rule json [OF _ s(1)]) (use assms(1) in simp)
  then show ?thesis
    using hset_ok [OF s(2)] wall [OF t]
    by (intro exI [of _ "mi_RegisteredAt ?i"] exI [of _ s]) (auto split: if_splits)
qed

lemma heartbeat_loop_keeps:
  assumes "plain_info info" "heartbeat_loop M info es [] w = ([], w')"
    and "member_at M (entries w) (mi_ID info) = Some (info\<lparr>mi_RegisteredAt := r\<rparr>)"
  shows "(\<exists>r. member_at M (entries w') (mi_ID info) = Some (info\<lparr>mi_RegisteredAt := r\<rparr>)) \<and>
    (\<forall>i. i \<noteq> mi_ID info \<longrightarrow> entries w' i = entries w i)"
  using assms(2,3)
proof (induction es arbitrary: w r)
  case (Cons e es)
  show ?case
  proof (cases e)
    case HTick
    obtain x w1 where R: "Refresh M info w = (x, w1)" by (cases "Refresh M info w")
    have "x = None"
    proof (rule ccontr)
      assume "x \<noteq> None"
      then obtain msg where "heartbeat_loop M info es [msg] w1 = ([], w')"
        using Cons.prems(1) R by (auto simp: HTick)
      then show False using heartbeat_fails_grow [of M info es "[msg]" w1] by simp
    qed
    with R Cons.prems(1) have R: "Refresh M info w = (None, w1)" and L: "heartbeat_loop M info es [] w1 = ([], w')"
      by (simp_all add: HTick)
    obtain v s where "entries w1 = (entries w)(mi_ID info \<mapsto> s)"
      "Unmarshal (mb_json M) s = Inr (info\<lparr>mi_RegisteredAt := wall_ms M v\<rparr>)"
      using Refresh_spec [OF assms(1) R] by blast
    then have "member_at M (entries w1) (mi_ID info) = Some (info\<lparr>mi_RegisteredAt := wall_ms M v\<rparr>)"
      "\<And>i. i \<noteq> mi_ID info \<Longrightarrow> entries w1 i = entries w i"
      by (simp_all add: member_at_def)
    then show ?thesis using Cons.IH [OF L] by simp
  qed (use Cons.prems in auto)
qed auto

end

text \<open>
  Discovery is exact: without an error it returns the members whose entry can be decoded and
  is not older than the time to live, and hands the identifiers of the expired ones, and no
  others, to the goroutine that deletes them; it changes nothing itself.
\<close>
theorem Discover_exact:
  assumes "member_store M entries" "Discover M w = (Inr ms, ds, w')"
  shows "entries w' = entries w \<and>
       set ms = {info. \<exists>i. member_at M (entries w) i = Some info \<and> \<not> member_expired (ttl_ms M) (discover_ms M w) info} \<and>
       set ds = {i. \<exists>info. member_at M (entries w) i = Some info \<and> member_expired (ttl_ms M) (discover_ms M w) info}"
  using member_store.Discover_spec(1,2) [OF assms] by blast

text \<open>
  A heartbeat keeps an instance registered: whatever the ticks, as long as no renewal fails,
  the hash holds its entry, with some registration time, and the entries of the others are as
  they were.
\<close>
theorem heartbeat_keeps:
  assumes "member_store M entries" "plain_info info" "heartbeat_Start M info es w = ([], w')"
  shows "(\<exists>r. member_at M (entries w') (mi_ID info) = Some (info\<lparr>mi_RegisteredAt := r\<rparr>)) \<and>
    (\<forall>i. i \<noteq> mi_ID info \<longrightarrow> entries w' i = entries w i)"
proof -
  obtain e w1 where R: "Register M info w = (e, w1)" by (cases "Register M info w")
  then have e: "e = None" using assms(3) heartbeat_fails_grow [of M info es "[the e]" w1]
    by (cases e) (auto simp: heartbeat_Start_def)
  obtain r s where S: "entries w1 = (entries w)(mi_ID info \<mapsto> s)" "Unmarshal (mb_json M) s = Inr (info\<lparr>mi_RegisteredAt := r\<rparr>)"
    using member_store.Register_spec [OF assms(1,2) R [unfolded e]] by blast
  have "heartbeat_loop M info es [] w1 = ([], w')" using assms(3) R e by (simp add: heartbeat_Start_def)
  then show ?thesis
    using member_store.heartbeat_loop_keeps [OF assms(1,2)] S by (auto simp: member_at_def)
qed


subsection \<open>A reference hash\<close>

text \<open>A server with one hash and a clock that shows a fixed time, moved by hand.\<close>

type_synonym mem_members = "(string, MemberInfo) gomap \<times> gtime"

definition mem_hash :: "(mem_members, MemberInfo) hash_client" where
  "mem_hash = \<lparr>HSet = \<lambda>h f v (m, t). (None, (AList.update f v m, t)),
     HDel = \<lambda>h fs (m, t). (None, (filter (\<lambda>(k, v). k \<notin> set fs) m, t)),
     HGetAll = \<lambda>h (m, t). (Inr (map (\<lambda>k. (k, the (map_of m k))) (remdups (map fst m))), (m, t))\<rparr>"

definition mem_membership :: "(mem_members, MemberInfo) Membership" where
  "mem_membership = NewMembership mem_hash \<lparr>Marshal = Inr, Unmarshal = Inr\<rparr> (\<lambda>(m, t). (t, (m, t))) 5000000000"

lemma map_of_filter_keys: "map_of (filter (\<lambda>(k, v). P k) m) k = (if P k then map_of m k else None)"
  by (induction m) auto

lemma map_of_listed: "map_of (map (\<lambda>k. (k, the (map_of m k))) (remdups (map fst m))) = map_of m"
proof
  fix k
  show "map_of (map (\<lambda>k. (k, the (map_of m k))) (remdups (map fst m))) k = map_of m k"
    using map_of_eq_None_iff [of m k] by (cases "map_of m k") (simp_all add: map_of_map_restrict restrict_map_def)
qed

interpretation mem_members: member_store mem_membership "\<lambda>(m, t). map_of m"
proof (unfold_locales, goal_cases)
  case (5 w vals w')
  then show ?case by (cases w) (auto simp: mem_membership_def NewMembership_def mem_hash_def map_of_listed comp_def)
qed (auto simp: mem_membership_def NewMembership_def mem_hash_def update_conv' split: prod.splits,
     auto simp: restrict_map_def map_of_filter_keys)

definition demo_info :: "string \<Rightarrow> i64 \<Rightarrow> MemberInfo" where
  "demo_info i t = \<lparr>mi_ID = i, mi_GossipAddr = ''a:1'', mi_GRPCAddr = ''a:1'', mi_Metadata = [], mi_RegisteredAt = t\<rparr>"

definition demo_members :: mem_members where
  \<comment> \<open>at 10 s, with 5 s to live: one entry renewed at 7 s, one not renewed since 1 s\<close>
  "demo_members = ([(''i1'', demo_info ''i1'' 7000), (''i2'', demo_info ''i2'' 1000)], 10000000000)"

lemmas demo_member_defs = mem_membership_def NewMembership_def mem_hash_def demo_members_def demo_info_def
  UnixMilli_def Milliseconds_def i64_div_def member_expired_def

lemma demo_Discover: "Discover mem_membership demo_members = (Inr [demo_info ''i1'' 7000], [''i2''], demo_members)"
  by (simp add: Discover_def demo_member_defs)

theorem Discover_exact_witness:
  "{demo_info ''i1'' 7000} = {info. \<exists>i. member_at mem_membership (map_of (fst demo_members)) i = Some info \<and>
      \<not> member_expired (ttl_ms mem_membership) (discover_ms mem_membership demo_members) info}"
  using Discover_exact [OF mem_members.member_store_axioms demo_Discover]
  by (auto simp: demo_members_def)

lemma demo_Refresh: "Refresh mem_membership (demo_info ''i2'' 0) demo_members
    = (None, ([(''i1'', demo_info ''i1'' 7000), (''i2'', demo_info ''i2'' 10000)], 10000000000))"
  by (simp add: Refresh_def Register_def demo_member_defs)

lemma demo_plain: "plain_info (demo_info ''i1'' t)" "plain_info (demo_info ''i2'' t)"
  unfolding plain_info_def ascii_def demo_info_def by simp_all

theorem heartbeat_keeps_witness:
  "\<exists>w'. heartbeat_Start mem_membership (demo_info ''i2'' 0) [HTick, HTick, HStop, HTick] demo_members = ([], w') \<and>
     (\<exists>r. member_at mem_membership (map_of (fst w')) ''i2'' = Some (demo_info ''i2'' r))"
proof -
  obtain w' where r: "heartbeat_Start mem_membership (demo_info ''i2'' 0) [HTick, HTick, HStop, HTick] demo_members = ([], w')"
    by (simp add: heartbeat_Start_def Refresh_def Register_def demo_member_defs)
  show ?thesis
    using heartbeat_keeps [OF mem_members.member_store_axioms demo_plain(2) r] r
    by (auto simp: split_beta demo_info_def)
qed


end
