(* ===== verification/Mesh.thy ===== *)
theory Mesh
  imports Cluster
begin

text \<open>
  The mesh (\<^verbatim>\<open>internal/peer/mesh.go\<close>): the peers an instance knows, with a connection to each. Every
  tick it discovers the members, drops the peers that are gone and dials the new ones. Dialling
  and discovery are parameters; a connection doubles as the client made from it. Closed
  connections and the peers handed to the removal callback are results.
\<close>

record 'c Peer =
  p_ID :: string
  p_GRPCAddr :: string
  p_GossipAddr :: string
  p_Client :: "'c option"
  p_LastSeen :: gtime
  p_Healthy :: bool

record 'c Mesh =
  m_instanceID :: string
  m_peers :: "(string, 'c Peer) gomap"
  m_conns :: "(string, 'c) gomap"
  m_interval :: duration
  m_gzipEnabled :: bool

definition NewMesh :: "string \<Rightarrow> duration \<Rightarrow> bool \<Rightarrow> 'c Mesh" where
  "NewMesh i iv gz = \<lparr>m_instanceID = i, m_peers = [], m_conns = [], m_interval = iv, m_gzipEnabled = gz\<rparr>"

definition current_members :: "string \<Rightarrow> MemberInfo list \<Rightarrow> (string, MemberInfo) gomap" where
  "current_members self members =
     fold (\<lambda>member out. if mi_ID member = self then out else AList.update (mi_ID member) member out) members []"

text \<open>The first loop of \<^verbatim>\<open>refresh\<close>: its result lists the closed connections and the removed peers.\<close>

definition drop_peer ::
    "(string, MemberInfo) gomap \<Rightarrow> string \<times> 'c Peer \<Rightarrow> 'c Mesh \<times> 'c list \<times> string list \<Rightarrow> 'c Mesh \<times> 'c list \<times> string list" where
  "drop_peer current = (\<lambda>(i, p) (m, closed, removed).
     if map_of current i = None
     then let (m1, closed1) = (case map_of (m_conns m) i of
                  Some conn \<Rightarrow> (m\<lparr>m_conns := AList.delete i (m_conns m)\<rparr>, closed @ [conn])
                | None \<Rightarrow> (m, closed))
          in (m1\<lparr>m_peers := AList.delete i (m_peers m1)\<rparr>, closed1, removed @ [i])
     else (m, closed, removed))"

definition drop_gone ::
    "(string, MemberInfo) gomap \<Rightarrow> 'c Mesh \<Rightarrow> 'c Mesh \<times> 'c list \<times> string list" where
  "drop_gone current m = fold (drop_peer current) (m_peers m) (m, [], [])"

definition peer_address :: "MemberInfo \<Rightarrow> string" where
  "peer_address member = (if mi_GRPCAddr member = '''' then mi_GossipAddr member else mi_GRPCAddr member)"

text \<open>One round of the second loop.\<close>

definition join_peer ::
    "(string \<Rightarrow> 'w \<Rightarrow> (err + 'c) \<times> 'w) \<Rightarrow> ('w \<Rightarrow> gtime \<times> 'w) \<Rightarrow> string \<times> MemberInfo \<Rightarrow> 'c Mesh \<times> 'w \<Rightarrow> 'c Mesh \<times> 'w" where
  "join_peer dial clk = (\<lambda>(i, member) (m, w).
     case map_of (m_peers m) i of
       Some p \<Rightarrow>
         let (t, w1) = clk w; p1 = p\<lparr>p_LastSeen := t\<rparr> in
         if p_Healthy p then (m\<lparr>m_peers := AList.update i p1 (m_peers m)\<rparr>, w1)
         else (case dial (p_GRPCAddr p) w1 of
             (Inr conn, w2) \<Rightarrow>
               (m\<lparr>m_peers := AList.update i (p1\<lparr>p_Client := Some conn, p_Healthy := True\<rparr>) (m_peers m),
                  m_conns := AList.update i conn (m_conns m)\<rparr>, w2)
           | (Inl e, w2) \<Rightarrow> (m\<lparr>m_peers := AList.update i p1 (m_peers m)\<rparr>, w2))
     | None \<Rightarrow>
         let (r, w1) = dial (peer_address member) w;
             (t, w2) = clk w1;
             p = \<lparr>p_ID = i, p_GRPCAddr = peer_address member, p_GossipAddr = mi_GossipAddr member,
                  p_Client = None, p_LastSeen = t, p_Healthy = False\<rparr>
         in (case r of
             Inl e \<Rightarrow> (m\<lparr>m_peers := AList.update i p (m_peers m)\<rparr>, w2)
           | Inr conn \<Rightarrow>
               (m\<lparr>m_peers := AList.update i (p\<lparr>p_Client := Some conn, p_Healthy := True\<rparr>) (m_peers m),
                  m_conns := AList.update i conn (m_conns m)\<rparr>, w2)))"

definition refresh ::
    "('w \<Rightarrow> (err + MemberInfo list) \<times> 'w) \<Rightarrow> (string \<Rightarrow> 'w \<Rightarrow> (err + 'c) \<times> 'w) \<Rightarrow> ('w \<Rightarrow> gtime \<times> 'w) \<Rightarrow>
     'c Mesh \<Rightarrow> 'w \<Rightarrow> 'c Mesh \<times> 'c list \<times> string list \<times> 'w" where
  "refresh discover dial clk m w =
     (case discover w of
        (Inl e, w1) \<Rightarrow> (m, [], [], w1)
      | (Inr members, w1) \<Rightarrow>
          let current = current_members (m_instanceID m) members;
              (m1, closed, removed) = drop_gone current m;
              (m2, w2) = fold (join_peer dial clk) current (m1, w1)
          in (m2, closed, removed, w2))"

definition mesh_Stop :: "'c Mesh \<Rightarrow> 'c Mesh \<times> 'c list" where
  "mesh_Stop m = (m\<lparr>m_conns := []\<rparr>, map snd (m_conns m))"

datatype mesh_event = MTick | MDone

fun mesh_loop ::
    "('w \<Rightarrow> (err + MemberInfo list) \<times> 'w) \<Rightarrow> (string \<Rightarrow> 'w \<Rightarrow> (err + 'c) \<times> 'w) \<Rightarrow> ('w \<Rightarrow> gtime \<times> 'w) \<Rightarrow>
     (string \<Rightarrow> 's \<Rightarrow> 's) \<Rightarrow> mesh_event list \<Rightarrow> 'c Mesh \<Rightarrow> 's \<Rightarrow> 'w \<Rightarrow> 'c Mesh \<times> 's \<times> 'w" where
  "mesh_loop discover dial clk onPeerRemoved [] m s w = (m, s, w)"
| "mesh_loop discover dial clk onPeerRemoved (MDone # es) m s w = (m, s, w)"
| "mesh_loop discover dial clk onPeerRemoved (MTick # es) m s w =
     (let (m1, closed, removed, w1) = refresh discover dial clk m w
      in mesh_loop discover dial clk onPeerRemoved es m1 (fold onPeerRemoved removed s) w1)"

text \<open>\<^verbatim>\<open>loop\<close> refreshes once before its first tick.\<close>

definition mesh_run ::
    "('w \<Rightarrow> (err + MemberInfo list) \<times> 'w) \<Rightarrow> (string \<Rightarrow> 'w \<Rightarrow> (err + 'c) \<times> 'w) \<Rightarrow> ('w \<Rightarrow> gtime \<times> 'w) \<Rightarrow>
     (string \<Rightarrow> 's \<Rightarrow> 's) \<Rightarrow> mesh_event list \<Rightarrow> 'c Mesh \<Rightarrow> 's \<Rightarrow> 'w \<Rightarrow> 'c Mesh \<times> 's \<times> 'w" where
  "mesh_run discover dial clk onPeerRemoved es m s w =
     mesh_loop discover dial clk onPeerRemoved (MTick # es) m s w"

subsection \<open>Queries\<close>

definition GetPeer :: "string \<Rightarrow> 'c Mesh \<Rightarrow> 'c Peer option" where
  "GetPeer i m = map_of (m_peers m) i"

definition GetPeers :: "'c Mesh \<Rightarrow> 'c Peer list" where
  "GetPeers m = filter p_Healthy (map snd (m_peers m))"

definition GetPeerClient :: "'c Mesh \<Rightarrow> string \<Rightarrow> 'c option" where
  "GetPeerClient m i =
     (case map_of (m_peers m) i of
        None \<Rightarrow> None
      | Some p \<Rightarrow> if \<not> p_Healthy p then None else p_Client p)"

definition GossipAddrs :: "'c Mesh \<Rightarrow> string list" where
  "GossipAddrs m = map p_GossipAddr (filter (\<lambda>p. p_GossipAddr p \<noteq> '''') (map snd (m_peers m)))"

definition PeerCount :: "'c Mesh \<Rightarrow> nat" where
  "PeerCount m = length (filter p_Healthy (map snd (m_peers m)))"

subsection \<open>The invariant\<close>

text \<open>
  The maps agree: a peer is filed under its own identifier, never the instance itself; it is
  healthy exactly when it has a client; and the open connections are exactly the clients that
  \<^verbatim>\<open>GetPeerClient\<close> hands out, so none is lost.
\<close>

definition peer_ok :: "string \<Rightarrow> 'c Peer \<Rightarrow> bool" where
  "peer_ok i p \<longleftrightarrow> p_ID p = i \<and> (p_Healthy p \<longleftrightarrow> p_Client p \<noteq> None)"

definition mesh_ok :: "'c Mesh \<Rightarrow> bool" where
  "mesh_ok m \<longleftrightarrow> gomap_ok (m_peers m) \<and> gomap_ok (m_conns m) \<and>
     (\<forall>i p. map_of (m_peers m) i = Some p \<longrightarrow> i \<noteq> m_instanceID m \<and> peer_ok i p) \<and>
     (\<forall>i. map_of (m_conns m) i = GetPeerClient m i)"

lemma mesh_ok_new [simp]: "mesh_ok (NewMesh i iv gz)"
  by (simp add: mesh_ok_def NewMesh_def GetPeerClient_def)

lemma current_members_ok: "gomap_ok (current_members self members)"
proof -
  have "gomap_ok out \<Longrightarrow> gomap_ok (fold (\<lambda>member out. if mi_ID member = self then out
      else AList.update (mi_ID member) member out) members out)" for out
    by (induction members arbitrary: out) auto
  then show ?thesis by (simp add: current_members_def)
qed

lemma current_members_lookup:
  "map_of (current_members self members) i =
     (if i = self then None else map_of (rev (map (\<lambda>m. (mi_ID m, m)) members)) i)"
proof -
  have "map_of (fold (\<lambda>member out. if mi_ID member = self then out
      else AList.update (mi_ID member) member out) members out) i =
      (if i = self then map_of out i else (map_of out ++ map_of (rev (map (\<lambda>m. (mi_ID m, m)) members))) i)" for out
    by (induction members arbitrary: out) (auto simp: update_conv' map_add_def split: option.splits)
  then show ?thesis by (simp add: current_members_def)
qed

lemma current_members_dom: "map_of (current_members self members) i \<noteq> None \<longleftrightarrow> i \<noteq> self \<and> i \<in> mi_ID ` set members"
  by (simp add: current_members_lookup map_of_eq_None_iff image_image del: not_None_eq)

subsection \<open>Refreshing\<close>

definition gone_peers :: "(string, MemberInfo) gomap \<Rightarrow> 'c Mesh \<Rightarrow> string list" where
  "gone_peers current m = filter (\<lambda>i. map_of current i = None) (keys (m_peers m))"

lemma delete_absent: "map_of m k = None \<Longrightarrow> AList.delete k m = m"
  by (simp add: map_of_eq_None_iff)

lemma drop_fold:
  assumes "gomap_ok xs"
  shows "fold (drop_peer current) xs (m, closed, removed) =
     (let gone = filter (\<lambda>i. map_of current i = None) (keys xs)
      in (m\<lparr>m_conns := fold AList.delete gone (m_conns m), m_peers := fold AList.delete gone (m_peers m)\<rparr>,
          closed @ List.map_filter (map_of (m_conns m)) gone, removed @ gone))"
  using assms
proof (induction xs arbitrary: m closed removed)
  case (Cons x xs)
  obtain i p where x: "x = (i, p)" by (cases x)
  show ?case
  proof (cases "map_of current i = None")
    case False
    then have "drop_peer current x (m, closed, removed) = (m, closed, removed)" by (simp add: x drop_peer_def del: not_None_eq)
    then show ?thesis using Cons False by (auto simp: x)
  next
    case True
    let ?m = "m\<lparr>m_conns := AList.delete i (m_conns m), m_peers := AList.delete i (m_peers m)\<rparr>"
    have one: "drop_peer current x (m, closed, removed) =
        (?m, closed @ List.map_filter (map_of (m_conns m)) [i], removed @ [i])"
      using True by (auto simp: x drop_peer_def delete_absent split: option.splits)
    have "i \<notin> set (keys xs)" using Cons.prems by (simp add: x)
    then have "List.map_filter (map_of (AList.delete i (m_conns m))) (filter (\<lambda>i. map_of current i = None) (keys xs)) =
        List.map_filter (map_of (m_conns m)) (filter (\<lambda>i. map_of current i = None) (keys xs))"
      by (induction xs) (auto simp: delete_conv' split: option.splits)
    then show ?thesis
      using Cons.IH [of ?m] Cons.prems True one by (simp add: x Let_def split: option.splits)
  qed
qed simp

lemma drop_gone_eq:
  assumes "mesh_ok m"
  shows "drop_gone current m =
     (let gone = gone_peers current m
      in (m\<lparr>m_conns := fold AList.delete gone (m_conns m), m_peers := fold AList.delete gone (m_peers m)\<rparr>,
          List.map_filter (map_of (m_conns m)) gone, gone))"
  using assms drop_fold [of "m_peers m" current m "[]" "[]"] by (simp add: drop_gone_def mesh_ok_def gone_peers_def Let_def)

lemma drop_gone_ok:
  assumes "mesh_ok m" "drop_gone current m = (m', closed, removed)"
  shows "mesh_ok m'" "removed = gone_peers current m" "closed = List.map_filter (GetPeerClient m) removed"
    "map_of (m_peers m') i = (if i \<in> set removed then None else map_of (m_peers m) i)" "m_instanceID m' = m_instanceID m"
proof -
  have e: "m' = m\<lparr>m_conns := fold AList.delete removed (m_conns m), m_peers := fold AList.delete removed (m_peers m)\<rparr>"
    "removed = gone_peers current m" "closed = List.map_filter (map_of (m_conns m)) removed"
    using assms(2) drop_gone_eq [OF assms(1), of current] by (auto simp: Let_def)
  have "map_of (m_conns m) = GetPeerClient m" using assms(1) by (auto simp: mesh_ok_def)
  then show "removed = gone_peers current m" "closed = List.map_filter (GetPeerClient m) removed" using e by simp_all
  show look: "map_of (m_peers m') i = (if i \<in> set removed then None else map_of (m_peers m) i)" for i
    by (simp add: e(1) fold_delete_map_of)
  show "m_instanceID m' = m_instanceID m" by (simp add: e(1))
  show "mesh_ok m'"
    using assms(1) unfolding mesh_ok_def GetPeerClient_def look
    by (auto simp: e(1) fold_delete_map_of)
qed

text \<open>
  What joining does to one peer: a peer already known keeps its identity and its addresses, and
  its client if it was healthy; a new one takes the addresses of its entry.
\<close>

definition joins :: "string \<Rightarrow> MemberInfo \<Rightarrow> 'c Peer option \<Rightarrow> 'c Peer \<Rightarrow> bool" where
  "joins i member old p' \<longleftrightarrow> (case old of
     Some p \<Rightarrow> p_ID p' = p_ID p \<and> p_GRPCAddr p' = p_GRPCAddr p \<and> p_GossipAddr p' = p_GossipAddr p \<and>
       (p_Healthy p \<longrightarrow> p_Healthy p' \<and> p_Client p' = p_Client p)
   | None \<Rightarrow> p_ID p' = i \<and> p_GRPCAddr p' = peer_address member \<and> p_GossipAddr p' = mi_GossipAddr member)"

lemma mesh_ok_put:
  assumes "mesh_ok m" "i \<noteq> m_instanceID m" "peer_ok i p'"
    and "m_peers m' = AList.update i p' (m_peers m)" "m_instanceID m' = m_instanceID m" "gomap_ok (m_conns m')"
    and "\<And>j. map_of (m_conns m') j = (if j = i then p_Client p' else map_of (m_conns m) j)"
  shows "mesh_ok m'"
proof -
  have look: "map_of (m_peers m') j = (if j = i then Some p' else map_of (m_peers m) j)" for j
    by (simp add: assms(4) update_conv')
  have c: "map_of (m_conns m') j = GetPeerClient m' j" for j
    using assms(1,3) assms(7) [of j] by (cases "j = i") (auto simp: GetPeerClient_def look mesh_ok_def peer_ok_def)
  have "map_of (m_peers m') j = Some p \<Longrightarrow> j \<noteq> m_instanceID m \<and> peer_ok j p" for j p
    unfolding look using assms(1-3) by (cases "j = i") (simp_all add: mesh_ok_def)
  then show ?thesis
    using assms(1,6) c unfolding mesh_ok_def assms(5) by (simp add: assms(4) distinct_update)
qed

lemma join_peer_ok:
  assumes "mesh_ok m" "i \<noteq> m_instanceID m" "join_peer dial clk (i, member) (m, w) = (m', w')"
  shows "mesh_ok m' \<and> m_instanceID m' = m_instanceID m \<and>
    (\<exists>p'. map_of (m_peers m') i = Some p' \<and> joins i member (map_of (m_peers m) i) p') \<and>
    (\<forall>j. j \<noteq> i \<longrightarrow> map_of (m_peers m') j = map_of (m_peers m) j)"
proof (cases "map_of (m_peers m) i")
  case (Some p)
  obtain t w1 where t: "clk w = (t, w1)" by (cases "clk w")
  obtain r w2 where d: "dial (p_GRPCAddr p) w1 = (r, w2)" by (cases "dial (p_GRPCAddr p) w1")
  have p: "peer_ok i p" "map_of (m_conns m) i = (if p_Healthy p then p_Client p else None)"
    using assms(1) Some by (auto simp: mesh_ok_def GetPeerClient_def)
  define p' where "p' = (case r of Inr conn \<Rightarrow> if p_Healthy p then p\<lparr>p_LastSeen := t\<rparr>
      else p\<lparr>p_LastSeen := t, p_Client := Some conn, p_Healthy := True\<rparr> | Inl e \<Rightarrow> p\<lparr>p_LastSeen := t\<rparr>)"
  have e: "m_peers m' = AList.update i p' (m_peers m)" "m_instanceID m' = m_instanceID m"
    "m_conns m' = (if p_Healthy p then m_conns m else case r of Inl e \<Rightarrow> m_conns m | Inr conn \<Rightarrow> AList.update i conn (m_conns m))"
    using assms(3) by (cases r; simp add: join_peer_def p'_def Some t d Let_def split: if_splits; force)+
  have ok: "peer_ok i p'" "gomap_ok (m_conns m')"
    using p(1) assms(1) by (auto simp: p'_def peer_ok_def e(3) mesh_ok_def split: sum.split)
  have "map_of (m_conns m') j = (if j = i then p_Client p' else map_of (m_conns m) j)" for j
    using p by (cases r; cases "p_Healthy p") (simp_all add: p'_def e(3) update_conv' peer_ok_def)
  then have "mesh_ok m'" by (rule mesh_ok_put [OF assms(1,2) ok(1) e(1,2) ok(2)])
  moreover have "joins i member (Some p) p'" by (auto simp: joins_def p'_def split: sum.splits)
  ultimately show ?thesis using e Some by (simp add: update_conv')
next
  case None
  obtain r w1 where d: "dial (peer_address member) w = (r, w1)" by (cases "dial (peer_address member) w")
  obtain t w2 where t: "clk w1 = (t, w2)" by (cases "clk w1")
  have c: "map_of (m_conns m) i = None" using assms(1) None by (simp add: mesh_ok_def GetPeerClient_def)
  define p' where "p' = \<lparr>p_ID = i, p_GRPCAddr = peer_address member, p_GossipAddr = mi_GossipAddr member,
      p_Client = (case r of Inl e \<Rightarrow> None | Inr conn \<Rightarrow> Some conn), p_LastSeen = t,
      p_Healthy = (case r of Inl e \<Rightarrow> False | Inr conn \<Rightarrow> True)\<rparr>"
  have e: "m_peers m' = AList.update i p' (m_peers m)" "m_instanceID m' = m_instanceID m"
    "m_conns m' = (case r of Inl e \<Rightarrow> m_conns m | Inr conn \<Rightarrow> AList.update i conn (m_conns m))"
    using assms(3) by (cases r; simp add: join_peer_def p'_def None t d Let_def; force)+
  have ok: "peer_ok i p'" "gomap_ok (m_conns m')"
    using assms(1) by (auto simp: p'_def peer_ok_def e(3) mesh_ok_def split: sum.split)
  have "map_of (m_conns m') j = (if j = i then p_Client p' else map_of (m_conns m) j)" for j
    using c by (cases r) (simp_all add: p'_def e(3) update_conv')
  then have "mesh_ok m'" by (rule mesh_ok_put [OF assms(1,2) ok(1) e(1,2) ok(2)])
  moreover have "joins i member None p'" by (simp add: joins_def p'_def)
  ultimately show ?thesis using e None by (simp add: update_conv')
qed

lemma join_fold:
  assumes "mesh_ok m" "gomap_ok current" "m_instanceID m \<notin> set (keys current)"
    and "fold (join_peer dial clk) current (m, w) = (m', w')"
  shows "mesh_ok m' \<and> m_instanceID m' = m_instanceID m \<and>
    (\<forall>i. case map_of current i of
       None \<Rightarrow> map_of (m_peers m') i = map_of (m_peers m) i
     | Some member \<Rightarrow> \<exists>p'. map_of (m_peers m') i = Some p' \<and> joins i member (map_of (m_peers m) i) p')"
  using assms
proof (induction current arbitrary: m w)
  case (Cons x xs)
  obtain i member where x: "x = (i, member)" by (cases x)
  obtain m1 w1 where one: "join_peer dial clk (i, member) (m, w) = (m1, w1)" by (cases "join_peer dial clk (i, member) (m, w)")
  have i: "i \<noteq> m_instanceID m" "i \<notin> set (keys xs)" using Cons.prems(2,3) x by auto
  note S = join_peer_ok [OF Cons.prems(1) i(1) one]
  have IH: "mesh_ok m' \<and> m_instanceID m' = m_instanceID m1 \<and>
    (\<forall>i. case map_of xs i of
       None \<Rightarrow> map_of (m_peers m') i = map_of (m_peers m1) i
     | Some member \<Rightarrow> \<exists>p'. map_of (m_peers m') i = Some p' \<and> joins i member (map_of (m_peers m1) i) p')"
    by (rule Cons.IH) (use S Cons.prems one x in auto)
  have fresh: "map_of xs i = None" using i(2) by (simp add: map_of_eq_None_iff)
  have "case map_of (x # xs) j of
       None \<Rightarrow> map_of (m_peers m') j = map_of (m_peers m) j
     | Some member \<Rightarrow> \<exists>p'. map_of (m_peers m') j = Some p' \<and> joins j member (map_of (m_peers m) j) p'" for j
    using IH [THEN conjunct2, THEN conjunct2, rule_format, of j] S fresh
    by (cases "j = i") (auto simp: x split: option.splits)
  then show ?case using IH S by simp
qed simp

lemma refresh_spec:
  assumes "mesh_ok m" "refresh discover dial clk m w = (m', closed, removed, w')"
  shows "mesh_ok m' \<and> m_instanceID m' = m_instanceID m \<and> (case fst (discover w) of
     Inl e \<Rightarrow> m' = m \<and> closed = [] \<and> removed = []
   | Inr members \<Rightarrow>
       set (keys (m_peers m')) = mi_ID ` set members - {m_instanceID m} \<and>
       distinct removed \<and> set removed = set (keys (m_peers m)) - mi_ID ` set members \<and>
       closed = List.map_filter (GetPeerClient m) removed \<and>
       (\<forall>i member. map_of (current_members (m_instanceID m) members) i = Some member \<longrightarrow>
          (\<exists>p'. map_of (m_peers m') i = Some p' \<and> joins i member (map_of (m_peers m) i) p')))"
proof (cases "fst (discover w)")
  case (Inl e)
  then show ?thesis using assms by (auto simp: refresh_def split: prod.splits)
next
  case (Inr members)
  let ?cur = "current_members (m_instanceID m) members"
  obtain w1 where d: "discover w = (Inr members, w1)" using Inr by (cases "discover w") auto
  obtain m1 c1 r1 where drop: "drop_gone ?cur m = (m1, c1, r1)" by (rule prod_cases3)
  have e: "fold (join_peer dial clk) ?cur (m1, w1) = (m', w')" "closed = c1" "removed = r1"
    using assms(2) d drop by (auto simp: refresh_def Let_def split: prod.splits)
  note D = drop_gone_ok [OF assms(1) drop]
  have ok: "gomap_ok ?cur" "m_instanceID m1 \<notin> set (keys ?cur)"
    using current_members_ok current_members_dom [of "m_instanceID m" members "m_instanceID m"] D(5)
    by (auto simp: map_of_eq_None_iff)
  note J = join_fold [OF D(1) ok e(1)]
  have self: "m_instanceID m \<notin> set (keys (m_peers m))"
    using assms(1) unfolding mesh_ok_def by (metis map_of_eq_None_iff not_None_eq set_map)
  have gen: "{i \<in> A. i = a \<or> i \<notin> B} = A - B" if "a \<notin> A" for a :: string and A B using that by blast
  have gone: "set removed = set (keys (m_peers m)) - mi_ID ` set members"
  proof -
    have "map_of ?cur i = None \<longleftrightarrow> i = m_instanceID m \<or> i \<notin> mi_ID ` set members" for i
      using current_members_dom [of "m_instanceID m" members i] by argo
    then have "set removed = {i \<in> set (keys (m_peers m)). i = m_instanceID m \<or> i \<notin> mi_ID ` set members}"
      by (simp add: e(3) D(2) gone_peers_def)
    also have "\<dots> = set (keys (m_peers m)) - mi_ID ` set members" by (rule gen [OF self])
    finally show ?thesis .
  qed
  have stay: "map_of (m_peers m1) i = map_of (m_peers m) i" if "map_of ?cur i \<noteq> None" for i
    using that D(2) D(4) [of i] by (auto simp: gone_peers_def)
  have "map_of (m_peers m') i = None \<longleftrightarrow> map_of ?cur i = None" for i
  proof (cases "map_of ?cur i")
    case None
    then have "map_of (m_peers m1) i = None"
      using D(2) D(4) [of i] by (auto simp: gone_peers_def map_of_eq_None_iff)
    then show ?thesis using J [THEN conjunct2, THEN conjunct2, rule_format, of i] None by simp
  next
    case (Some member)
    then show ?thesis using J [THEN conjunct2, THEN conjunct2, rule_format, of i] by auto
  qed
  then have "i \<in> set (keys (m_peers m')) \<longleftrightarrow> i \<in> mi_ID ` set members - {m_instanceID m}" for i
    using current_members_dom [of "m_instanceID m" members i] by (auto simp: map_of_eq_None_iff simp del: not_None_eq)
  moreover have "distinct removed" using assms(1) D(2) e(3) by (simp add: gone_peers_def mesh_ok_def)
  moreover have "\<exists>p'. map_of (m_peers m') i = Some p' \<and> joins i member (map_of (m_peers m) i) p'"
    if "map_of ?cur i = Some member" for i member
    using J [THEN conjunct2, THEN conjunct2, rule_format, of i] stay [of i] that by simp
  ultimately show ?thesis using J D(3,5) e gone Inr by (simp add: set_eq_iff)
qed

text \<open>
  C15. A refresh makes the mesh follow the membership. When discovery succeeds, the peers are exactly
  the discovered members other than the instance itself; the peers that are gone, and no others,
  are reported removed, once each, and their open connections, and no others, are closed; peers that stay keep
  their connection. When discovery fails nothing changes. The maps agree throughout: the open
  connections are the clients handed out.
\<close>
theorem refresh_follows:
  assumes "mesh_ok m" "refresh discover dial clk m w = (m', closed, removed, w')"
  shows "mesh_ok m' \<and> (case discover w of
     (Inl e, w1) \<Rightarrow> m' = m \<and> closed = [] \<and> removed = []
   | (Inr members, w1) \<Rightarrow>
       set (keys (m_peers m')) = mi_ID ` set members - {m_instanceID m} \<and>
       distinct removed \<and> set removed = set (keys (m_peers m)) - mi_ID ` set members \<and>
       closed = List.map_filter (GetPeerClient m) removed \<and>
       (\<forall>i \<in> mi_ID ` set members. GetPeerClient m i \<noteq> None \<longrightarrow> GetPeerClient m' i = GetPeerClient m i))"
proof (cases "discover w")
  case (Pair r w1)
  show ?thesis
  proof (cases r)
    case (Inl e)
    then show ?thesis using refresh_spec [OF assms] Pair by auto
  next
    case (Inr members)
    note R = refresh_spec [OF assms, unfolded Pair Inr fst_conv sum.case]
    have "GetPeerClient m' i = GetPeerClient m i" if i: "i \<in> mi_ID ` set members" "GetPeerClient m i \<noteq> None" for i
    proof -
      obtain p where p: "map_of (m_peers m) i = Some p" "p_Healthy p" using i(2) by (auto simp: GetPeerClient_def split: option.splits if_splits)
      then have "i \<noteq> m_instanceID m" using assms(1) by (auto simp: mesh_ok_def simp del: map_of_eq_Some_iff)
      then obtain member where "map_of (current_members (m_instanceID m) members) i = Some member"
        using current_members_dom [of "m_instanceID m" members i] i(1) by blast
      then obtain p' where "map_of (m_peers m') i = Some p'" "joins i member (Some p) p'" using R p(1) by metis
      then show ?thesis using p by (simp add: GetPeerClient_def joins_def)
    qed
    then show ?thesis using R Pair Inr by simp
  qed
qed

text \<open>
  C36. A peer that comes back under its old name with another address is not found. As long as the
  name stays in the membership, a refresh keeps the address (and the connection, if it was made)
  of the first discovery, also when it dials an unhealthy peer again.
\<close>
theorem refresh_keeps_address:
  assumes "mesh_ok m" "refresh discover dial clk m w = (m', closed, removed, w')"
    and "discover w = (Inr members, w1)" "i \<in> mi_ID ` set members" "GetPeer i m = Some p"
  shows "\<exists>p'. GetPeer i m' = Some p' \<and> p_GRPCAddr p' = p_GRPCAddr p \<and> p_GossipAddr p' = p_GossipAddr p \<and>
     (p_Healthy p \<longrightarrow> GetPeerClient m' i = p_Client p)"
proof -
  have p: "map_of (m_peers m) i = Some p" using assms(5) by (simp add: GetPeer_def)
  then have "i \<noteq> m_instanceID m" using assms(1) by (auto simp: mesh_ok_def simp del: map_of_eq_Some_iff)
  then obtain member where "map_of (current_members (m_instanceID m) members) i = Some member"
    using current_members_dom [of "m_instanceID m" members i] assms(4) by blast
  then obtain p' where "map_of (m_peers m') i = Some p'" "joins i member (Some p) p'"
    using refresh_spec [OF assms(1,2), unfolded assms(3) fst_conv sum.case] p by metis
  then show ?thesis by (auto simp: GetPeer_def GetPeerClient_def joins_def)
qed

subsection \<open>A refresh\<close>

definition demo_peer :: "string \<Rightarrow> string \<Rightarrow> string Peer" where
  "demo_peer i a = \<lparr>p_ID = i, p_GRPCAddr = a, p_GossipAddr = a, p_Client = Some a, p_LastSeen = 0, p_Healthy = True\<rparr>"

definition demo_mesh :: "string Mesh" where
  \<comment> \<open>the client of an address is the address; \<open>i2\<close> was at \<open>b:1\<close>\<close>
  "demo_mesh = \<lparr>m_instanceID = ''i1'', m_peers = [(''i2'', demo_peer ''i2'' ''b:1''), (''i3'', demo_peer ''i3'' ''c:1'')],
     m_conns = [(''i2'', ''b:1''), (''i3'', ''c:1'')], m_interval = 0, m_gzipEnabled = False\<rparr>"

definition demo_members_now :: "unit \<Rightarrow> (err + MemberInfo list) \<times> unit" where
  "demo_members_now w = (Inr [demo_info ''i1'' 0, demo_info ''i2'' 0, demo_info ''i4'' 0], w)"

definition demo_refresh :: "string Mesh \<times> string list \<times> string list \<times> unit" where
  "demo_refresh = refresh demo_members_now (\<lambda>a w. (Inr a, w)) (\<lambda>w. (0, w)) demo_mesh ()"

lemma demo_mesh_ok: "mesh_ok demo_mesh"
  by (auto simp: mesh_ok_def demo_mesh_def demo_peer_def peer_ok_def GetPeerClient_def)

theorem refresh_follows_witness:
  "\<exists>m'. demo_refresh = (m', [''c:1''], [''i3''], ()) \<and> set (keys (m_peers m')) = {''i2'', ''i4''}"
proof -
  obtain m' closed removed where r: "demo_refresh = (m', closed, removed, ())"
    by (cases demo_refresh) auto
  have "closed = [''c:1'']" "removed = [''i3'']"
    using r by (simp_all add: demo_refresh_def refresh_def demo_members_now_def current_members_def demo_info_def drop_gone_def drop_peer_def
        demo_mesh_def demo_peer_def join_peer_def Let_def)
  then show ?thesis
    using refresh_follows [OF demo_mesh_ok r [unfolded demo_refresh_def]] r
    by (auto simp: demo_members_now_def demo_info_def demo_mesh_def)
qed

theorem refresh_keeps_address_witness:
  "\<exists>p'. GetPeer ''i2'' (fst demo_refresh) = Some p' \<and> p_GRPCAddr p' = ''b:1''"
proof -
  obtain m' closed removed where r: "demo_refresh = (m', closed, removed, ())"
    by (cases demo_refresh) auto
  have p: "GetPeer ''i2'' demo_mesh = Some (demo_peer ''i2'' ''b:1'')" by (simp add: GetPeer_def demo_mesh_def)
  have i: "''i2'' \<in> mi_ID ` set [demo_info ''i1'' 0, demo_info ''i2'' 0, demo_info ''i4'' 0]" by (simp add: demo_info_def)
  show ?thesis
    using refresh_keeps_address [OF demo_mesh_ok r [unfolded demo_refresh_def] demo_members_now_def i p] unfolding r
    by (simp add: demo_peer_def) metis
qed

end
