(* ===== verification/Gossip_Sync.thy ===== *)
theory Gossip_Sync
  imports Limiter_Evict Mesh
begin

text \<open>
  The gossip round of the limiter (\<^verbatim>\<open>gossipOnce\<close> in \<^verbatim>\<open>limiter.go\<close>): what each peer is sent is the
  difference between the amounts now and those the peer acknowledged last. The call to a peer runs
  in a goroutine of its own: \<open>gossipOnce\<close> returns the messages, \<open>gossip_send\<close> is one goroutine.
\<close>

definition map_delta :: "(string, u64) gomap \<Rightarrow> (string, u64) gomap \<Rightarrow> (string, u64) gomap" where
  \<comment> \<open>the two loops that fill \<^verbatim>\<open>deltaBorrowed\<close> and \<^verbatim>\<open>deltaConsumed\<close>\<close>
  "map_delta amounts known =
     fold (\<lambda>(k, v) d. if map_of amounts k = None then AList.update k 0 d else d) known
       (fold (\<lambda>(k, v) d. if get0 known k \<noteq> v then AList.update k v d else d) amounts [])"

definition apply_delta :: "(string, u64) gomap \<Rightarrow> (string, u64) gomap \<Rightarrow> (string, u64) gomap" where
  "apply_delta delta known =
     fold (\<lambda>(k, v) m. if v = 0 then AList.delete k m else AList.update k v m) delta known"

record 'c gossip_msg =
  gm_peer :: string
  gm_client :: 'c
  gm_originID :: string
  gm_consumed :: "(string, u64) gomap"
  gm_borrowed :: "(string, u64) gomap"

definition gossip_peer ::
    "string \<Rightarrow> (string, u64) gomap \<Rightarrow> (string, u64) gomap \<Rightarrow> 'c Peer \<Rightarrow>
     (string, peerState) gomap \<times> 'c gossip_msg list \<Rightarrow> (string, peerState) gomap \<times> 'c gossip_msg list" where
  "gossip_peer origin currentBorrowed currentConsumed p = (\<lambda>(states, msgs).
     case p_Client p of
       None \<Rightarrow> (states, msgs)
     | Some client \<Rightarrow>
         if \<not> p_Healthy p then (states, msgs)
         else
           let (ps, states1) = (case map_of states (p_ID p) of
                   Some ps \<Rightarrow> (ps, states)
                 | None \<Rightarrow> (newPeerState, AList.update (p_ID p) newPeerState states));
               deltaBorrowed = map_delta currentBorrowed (pst_borrowed ps);
               deltaConsumed = map_delta currentConsumed (pst_consumed ps)
           in if deltaBorrowed = [] \<and> currentBorrowed = [] \<and> deltaConsumed = [] \<and> currentConsumed = []
              then (states1, msgs)
              else (states1, msgs @ [\<lparr>gm_peer = p_ID p, gm_client = client, gm_originID = origin,
                                      gm_consumed = deltaConsumed, gm_borrowed = deltaBorrowed\<rparr>]))"

definition gossipOnce :: "gtime \<Rightarrow> 'c Peer list \<Rightarrow> 'r limiter \<Rightarrow> 'r limiter \<times> 'c gossip_msg list" where
  "gossipOnce now peers l =
     (let (currentBorrowed, m) = AllBorrowed (o_maxGossipKeys (l_opts l)) now (l_borrowMgr l);
          currentConsumed = getBucketsConsumed (keys currentBorrowed) l;
          (states, msgs) = fold (gossip_peer (o_instanceID (l_opts l)) currentBorrowed currentConsumed) peers
             (l_peerStates l, [])
      in (l\<lparr>l_borrowMgr := m, l_peerStates := states\<rparr>, msgs))"

definition gossip_ack :: "'c gossip_msg \<Rightarrow> 'r limiter \<Rightarrow> 'r limiter" where
  "gossip_ack msg l =
     (case map_of (l_peerStates l) (gm_peer msg) of
        None \<Rightarrow> l
      | Some ps \<Rightarrow> l\<lparr>l_peerStates := AList.update (gm_peer msg)
          (ps\<lparr>pst_borrowed := apply_delta (gm_borrowed msg) (pst_borrowed ps),
              pst_consumed := apply_delta (gm_consumed msg) (pst_consumed ps)\<rparr>) (l_peerStates l)\<rparr>)"

definition gossip_send ::
    "('c \<Rightarrow> 'c gossip_msg \<Rightarrow> 'w \<Rightarrow> err option \<times> 'w) \<Rightarrow> 'c gossip_msg \<Rightarrow> 'r limiter \<Rightarrow> 'w \<Rightarrow> 'r limiter \<times> 'w" where
  "gossip_send call msg l w =
     (case call (gm_client msg) msg w of
        (Some e, w') \<Rightarrow> (l, w')
      | (None, w') \<Rightarrow> (gossip_ack msg l, w'))"

definition gossip_interval :: "options \<Rightarrow> duration" where
  "gossip_interval o' = (if sint (o_gossipInterval o') < 100000000 then 100000000 else o_gossipInterval o')"

datatype gossip_event = GTick gtime | GDone

fun gossipLoop ::
    "'c Mesh \<Rightarrow> gossip_event list \<Rightarrow> 'r limiter \<Rightarrow> 'c gossip_msg list \<Rightarrow> 'r limiter \<times> 'c gossip_msg list" where
  "gossipLoop mesh [] l sent = (l, sent)"
| "gossipLoop mesh (GDone # es) l sent = (l, sent)"
| "gossipLoop mesh (GTick now # es) l sent =
     (let (l', msgs) = gossipOnce now (GetPeers mesh) l in gossipLoop mesh es l' (sent @ msgs))"

subsection \<open>Differences\<close>

lemma fold_cond_update:
  assumes "gomap_ok xs"
  shows "map_of (fold (\<lambda>(k, v) d. if P k v then AList.update k (h v) d else d) xs d) k =
    (case map_of xs k of None \<Rightarrow> map_of d k | Some v \<Rightarrow> if P k v then Some (h v) else map_of d k)"
  using assms
proof (induction xs arbitrary: d)
  case (Cons x xs)
  obtain k1 v1 where x: "x = (k1, v1)" by (cases x)
  have fresh: "map_of xs k1 = None" using Cons.prems by (simp add: x map_of_eq_None_iff)
  then show ?case using Cons by (cases "k = k1") (auto simp: x update_conv' split: option.splits)
qed simp

lemma map_delta_lookup:
  assumes "gomap_ok amounts" "gomap_ok known"
  shows "map_of (map_delta amounts known) k = (case map_of amounts k of
     Some v \<Rightarrow> if get0 known k \<noteq> v then Some v else None
   | None \<Rightarrow> if map_of known k \<noteq> None then Some 0 else None)"
proof -
  define d where "d = fold (\<lambda>(k, v) d. if get0 known k \<noteq> v then AList.update k v d else d) amounts []"
  have 1: "map_of d k = (case map_of amounts k of None \<Rightarrow> None | Some v \<Rightarrow> if get0 known k \<noteq> v then Some v else None)"
    unfolding d_def fold_cond_update [OF assms(1)] by (cases "map_of amounts k") simp_all
  have 2: "map_of (map_delta amounts known) k = (case map_of known k of None \<Rightarrow> map_of d k
      | Some v \<Rightarrow> if map_of amounts k = None then Some 0 else map_of d k)"
    unfolding map_delta_def d_def [symmetric] fold_cond_update [OF assms(2)] ..
  show ?thesis unfolding 2 1 by (cases "map_of amounts k"; cases "map_of known k") simp_all
qed

lemma fold_cond_ok:
  "gomap_ok d \<Longrightarrow> gomap_ok (fold (\<lambda>(k, v) d. if P k v then AList.update k (h v) d else d) xs d)"
proof (induction xs arbitrary: d)
  case (Cons x xs)
  obtain k v where x: "x = (k, v)" by (cases x)
  show ?case using Cons.IH [of "if P k v then AList.update k (h v) d else d"] Cons.prems by (simp add: x)
qed simp

lemma map_delta_ok [simp]: "gomap_ok (map_delta amounts known)"
  unfolding map_delta_def by (intro fold_cond_ok) simp

lemma apply_delta_lookup:
  assumes "gomap_ok delta"
  shows "map_of (apply_delta delta known) k =
     (case map_of delta k of None \<Rightarrow> map_of known k | Some v \<Rightarrow> if v = 0 then None else Some v)"
  unfolding apply_delta_def
  by (subst fold_keywise [OF assms, where obs = map_of and f = "\<lambda>v old. if v = 0 then None else Some v"])
     (auto simp: gomap_simps split: option.splits)

lemma apply_delta_ok: "gomap_ok known \<Longrightarrow> gomap_ok (apply_delta delta known)"
proof -
  have "gomap_ok m \<Longrightarrow> gomap_ok (fold (\<lambda>(k, v) m. if v = 0 then AList.delete k m else AList.update k v m) delta m)" for m
  proof (induction delta arbitrary: m)
    case (Cons x xs)
    obtain k v where x: "x = (k, v)" by (cases x)
    show ?case using Cons.IH [of "if v = 0 then AList.delete k m else AList.update k v m"] Cons.prems by (simp add: x)
  qed simp
  then show "gomap_ok known \<Longrightarrow> gomap_ok (apply_delta delta known)" by (simp add: apply_delta_def)
qed

abbreviation no_zeros :: "(string, u64) gomap \<Rightarrow> bool" where
  "no_zeros m \<equiv> \<forall>k. map_of m k \<noteq> Some 0"

text \<open>An acknowledged difference leaves exactly the current amounts.\<close>

lemma delta_applied:
  assumes "gomap_ok amounts" "gomap_ok known" "no_zeros amounts" "no_zeros known"
  shows "map_of (apply_delta (map_delta amounts known) known) k = map_of amounts k"
  using assms(3,4) by (auto simp: apply_delta_lookup map_delta_lookup [OF assms(1,2)] get0_def split: option.splits)

lemma delta_update:
  \<comment> \<open>what the difference does to a table that agrees with the acknowledged amounts\<close>
  assumes "gomap_ok amounts" "gomap_ok known" "no_zeros amounts" "no_zeros known"
    and "\<And>v. f (Some v) = (if v = 0 then None else Some v)" "f None = map_of known k"
  shows "f (map_of (map_delta amounts known) k) = map_of amounts k"
  using assms(3-6) by (auto simp: map_delta_lookup [OF assms(1,2)] get0_def split: option.splits)

subsection \<open>The amounts of a round\<close>

definition round_borrowed :: "gtime \<Rightarrow> 'r limiter \<Rightarrow> (string, u64) gomap" where
  "round_borrowed now l = fst (AllBorrowed (o_maxGossipKeys (l_opts l)) now (l_borrowMgr l))"

definition round_consumed :: "gtime \<Rightarrow> 'r limiter \<Rightarrow> (string, u64) gomap" where
  "round_consumed now l = getBucketsConsumed (keys (round_borrowed now l)) l"

lemma fold_update_entries: "set (fold (\<lambda>(k, v) d. AList.update k v d) xs d) \<subseteq> set xs \<union> set d"
proof (induction xs arbitrary: d)
  case (Cons x xs)
  then show ?case using set_update_subset [of "fst x" "snd x" d] by (cases x) fastforce
qed simp

lemma fold_update_ok: "gomap_ok d \<Longrightarrow> gomap_ok (fold (\<lambda>(k, v) d. AList.update k v d) xs d)"
  using fold_cond_ok [of d "\<lambda>_ _. True" "\<lambda>v. v" xs] by simp

lemma round_borrowed_ok: "gomap_ok (round_borrowed now l)" "no_zeros (round_borrowed now l)"
proof -
  let ?m = "l_borrowMgr l" and ?max = "o_maxGossipKeys (l_opts l)"
  define active where "active = concat (map active_of (map (live_shard (bm_leaseTTL ?m) now) (bm_shards ?m)))"
  define kept where "kept = (if 0 < ?max \<and> ?max < int (length active) then take (nat ?max) (sort_desc snd active) else active)"
  have out: "round_borrowed now l = fold (\<lambda>(k, v) d. AList.update k v d) kept []"
    by (simp add: round_borrowed_def AllBorrowed_def Let_def kept_def active_def)
  have "set kept \<subseteq> set active" by (auto simp: kept_def dest: in_set_takeD)
  moreover have "v \<noteq> 0" if "(k, v) \<in> set active" for k v
    using that by (auto simp: active_def active_of_def)
  ultimately have "v \<noteq> 0" if "(k, v) \<in> set (round_borrowed now l)" for k v
    using that fold_update_entries [of kept "[]"] unfolding out by auto
  then show "no_zeros (round_borrowed now l)" by (auto dest: map_of_SomeD)
  show "gomap_ok (round_borrowed now l)" unfolding out by (rule fold_update_ok) simp
qed

lemma getBucketsConsumed_ok: "gomap_ok (getBucketsConsumed ks l) \<and> no_zeros (getBucketsConsumed ks l)"
proof -
  define I :: "(string, u64) gomap \<Rightarrow> bool" where "I m \<longleftrightarrow> gomap_ok m \<and> no_zeros m" for m
  define add where "add s k out = (case map_of s k of Some b \<Rightarrow> (let val = getConsumed b in
      if 0 < val then AList.update k val out else out) | None \<Rightarrow> out)" for s :: "(string, bucket) gomap" and k out
  have one: "I (add s k out)" if "I out" for s k out
  proof (cases "map_of s k")
    case (Some b)
    then show ?thesis
      using that by (simp add: I_def add_def Let_def word_gt_0 update_conv' del: map_of_eq_Some_iff)
  qed (use that in \<open>simp add: add_def\<close>)
  have inner: "I out \<Longrightarrow> I (fold (add s) ks out)" for s ks out
    by (induction ks arbitrary: out) (simp_all add: one)
  have outer: "I out \<Longrightarrow> I (fold (\<lambda>(shKeys, s) out. if shKeys = [] then out else fold (add s) shKeys out) gs out)" for gs out
  proof (induction gs arbitrary: out)
    case (Cons g gs)
    show ?case using Cons.IH [of "if fst g = [] then out else fold (add (snd g)) (fst g) out"] Cons.prems inner
      by (simp add: split_beta)
  qed simp
  have "I []" by (simp add: I_def)
  then have "I (getBucketsConsumed ks l)"
    using outer unfolding getBucketsConsumed_def add_def [abs_def] by blast
  then show ?thesis by (simp add: I_def)
qed

lemma round_consumed_ok: "gomap_ok (round_consumed now l)" "no_zeros (round_consumed now l)"
  using getBucketsConsumed_ok [of "keys (round_borrowed now l)" l] unfolding round_consumed_def
  by auto

subsection \<open>The messages of a round\<close>

definition known_of :: "(string, peerState) gomap \<Rightarrow> string \<Rightarrow> peerState" where
  \<comment> \<open>what a peer has acknowledged\<close>
  "known_of states j = (case map_of states j of None \<Rightarrow> newPeerState | Some ps \<Rightarrow> ps)"

definition message_for ::
    "string \<Rightarrow> (string, u64) gomap \<Rightarrow> (string, u64) gomap \<Rightarrow> peerState \<Rightarrow> 'c \<Rightarrow> string \<Rightarrow> 'c gossip_msg list" where
  "message_for origin cb cc ps client j =
     (let db = map_delta cb (pst_borrowed ps); dc = map_delta cc (pst_consumed ps)
      in if db = [] \<and> cb = [] \<and> dc = [] \<and> cc = [] then []
         else [\<lparr>gm_peer = j, gm_client = client, gm_originID = origin, gm_consumed = dc, gm_borrowed = db\<rparr>])"

lemma gossip_peer_step:
  assumes "gossip_peer origin cb cc p (states, msgs) = (states', msgs')"
  shows "known_of states' = known_of states"
    "msgs' = msgs @ (case p_Client p of None \<Rightarrow> [] | Some c \<Rightarrow>
       if p_Healthy p then message_for origin cb cc (known_of states (p_ID p)) c (p_ID p) else [])"
    "p_Healthy p \<Longrightarrow> p_Client p \<noteq> None \<Longrightarrow> map_of states' (p_ID p) \<noteq> None"
    "map_of states j \<noteq> None \<Longrightarrow> map_of states' j \<noteq> None"
  using assms
  by (auto simp: gossip_peer_def message_for_def known_of_def Let_def fun_eq_iff update_conv' split: option.splits if_splits)

lemma gossip_peers:
  assumes "fold (gossip_peer origin cb cc) peers (states, msgs) = (states', msgs')" "distinct (map p_ID peers)"
  shows "known_of states' = known_of states \<and> (\<forall>j. map_of states j \<noteq> None \<longrightarrow> map_of states' j \<noteq> None) \<and>
    (\<forall>p c. p \<in> set peers \<and> p_Healthy p \<and> p_Client p = Some c \<longrightarrow> map_of states' (p_ID p) \<noteq> None \<and>
       filter (\<lambda>m. gm_peer m = p_ID p) msgs' =
       filter (\<lambda>m. gm_peer m = p_ID p) msgs @ message_for origin cb cc (known_of states (p_ID p)) c (p_ID p)) \<and>
    (\<forall>j. j \<notin> p_ID ` set peers \<longrightarrow> filter (\<lambda>m. gm_peer m = j) msgs' = filter (\<lambda>m. gm_peer m = j) msgs)"
  using assms
proof (induction peers arbitrary: states msgs)
  case (Cons q peers)
  obtain s1 m1 where one: "gossip_peer origin cb cc q (states, msgs) = (s1, m1)" by (cases "gossip_peer origin cb cc q (states, msgs)")
  note S = gossip_peer_step [OF one]
  have to: "filter (\<lambda>m. gm_peer m = j) (message_for origin cb cc ps c i) = (if i = j then message_for origin cb cc ps c i else [])"
    for j ps i and c :: 'a by (auto simp: message_for_def Let_def)
  have IH: "known_of states' = known_of s1 \<and> (\<forall>j. map_of s1 j \<noteq> None \<longrightarrow> map_of states' j \<noteq> None) \<and>
    (\<forall>p c. p \<in> set peers \<and> p_Healthy p \<and> p_Client p = Some c \<longrightarrow> map_of states' (p_ID p) \<noteq> None \<and>
       filter (\<lambda>m. gm_peer m = p_ID p) msgs' =
       filter (\<lambda>m. gm_peer m = p_ID p) m1 @ message_for origin cb cc (known_of s1 (p_ID p)) c (p_ID p)) \<and>
    (\<forall>j. j \<notin> p_ID ` set peers \<longrightarrow> filter (\<lambda>m. gm_peer m = j) msgs' = filter (\<lambda>m. gm_peer m = j) m1)"
    by (rule Cons.IH) (use Cons.prems one in simp_all)
  have other: "filter (\<lambda>m. gm_peer m = j) m1 = filter (\<lambda>m. gm_peer m = j) msgs" if "j \<noteq> p_ID q" for j
    using S(2) that by (auto simp: to split: option.splits)
  have fresh: "p_ID q \<notin> p_ID ` set peers" using Cons.prems(2) by simp
  show ?case
  proof (intro conjI allI impI)
    show "known_of states' = known_of states" using IH S(1) by simp
    show "map_of states' j \<noteq> None" if "map_of states j \<noteq> None" for j using IH S(4) that by blast
    show "filter (\<lambda>m. gm_peer m = j) msgs' = filter (\<lambda>m. gm_peer m = j) msgs" if "j \<notin> p_ID ` set (q # peers)" for j
      using IH other that by simp
    fix p c assume p: "p \<in> set (q # peers) \<and> p_Healthy p \<and> p_Client p = Some c"
    show "map_of states' (p_ID p) \<noteq> None" using IH S(3) p by (cases "p = q") auto
    show "filter (\<lambda>m. gm_peer m = p_ID p) msgs' =
       filter (\<lambda>m. gm_peer m = p_ID p) msgs @ message_for origin cb cc (known_of states (p_ID p)) c (p_ID p)"
    proof (cases "p = q")
      case True
      then show ?thesis using IH fresh S(2) p by (simp add: to)
    next
      case False
      then have "p \<in> set peers" using p by simp
      moreover from this have "p_ID p \<noteq> p_ID q" using fresh by (metis image_eqI)
      ultimately have "p \<in> set peers" "p_ID p \<noteq> p_ID q" by blast+
      then show ?thesis using IH other S(1) p by metis
    qed
  qed
qed simp

subsection \<open>Agreement of two instances\<close>

definition pstate_ok :: "peerState \<Rightarrow> bool" where
  "pstate_ok ps \<longleftrightarrow> gomap_ok (pst_borrowed ps) \<and> gomap_ok (pst_consumed ps) \<and>
     no_zeros (pst_borrowed ps) \<and> no_zeros (pst_consumed ps)"

text \<open>The table a gossiper keeps for a peer holds exactly these amounts.\<close>

definition table_is :: "Gossiper \<Rightarrow> string \<Rightarrow> (string, u64) gomap \<Rightarrow> (string, u64) gomap \<Rightarrow> bool" where
  "table_is g i borrowed consumed \<longleftrightarrow> (\<forall>k. pc_borrowed (gossip_cell g i k) = map_of borrowed k \<and>
     pc_consumed (gossip_cell g i k) = map_of consumed k)"

text \<open>Instance \<open>l\<close> and the gossiper \<open>g\<close> of its peer \<open>j\<close> agree on what \<open>j\<close> has acknowledged.\<close>

definition in_sync :: "'r limiter \<Rightarrow> string \<Rightarrow> Gossiper \<Rightarrow> bool" where
  "in_sync l j g \<longleftrightarrow> gossip_ok g \<and> pstate_ok (known_of (l_peerStates l) j) \<and>
     table_is g (o_instanceID (l_opts l)) (pst_borrowed (known_of (l_peerStates l) j)) (pst_consumed (known_of (l_peerStates l) j))"

lemma round_states:
  assumes "gossipOnce now peers l = (l', msgs)" "distinct (map p_ID peers)"
  shows "l_opts l' = l_opts l" "known_of (l_peerStates l') = known_of (l_peerStates l)"
    "p \<in> set peers \<Longrightarrow> p_Healthy p \<Longrightarrow> p_Client p = Some c \<Longrightarrow> map_of (l_peerStates l') (p_ID p) \<noteq> None \<and>
       filter (\<lambda>m. gm_peer m = p_ID p) msgs = message_for (o_instanceID (l_opts l)) (round_borrowed now l) (round_consumed now l)
         (known_of (l_peerStates l) (p_ID p)) c (p_ID p)"
proof -
  let ?fold = "fold (gossip_peer (o_instanceID (l_opts l)) (round_borrowed now l) (round_consumed now l)) peers (l_peerStates l, [])"
  have "gossipOnce now peers l = (l\<lparr>l_borrowMgr := snd (AllBorrowed (o_maxGossipKeys (l_opts l)) now (l_borrowMgr l)),
      l_peerStates := fst ?fold\<rparr>, snd ?fold)"
    by (simp add: gossipOnce_def round_borrowed_def round_consumed_def Let_def split_beta)
  then obtain states where f: "?fold = (states, msgs)" and e: "l_opts l' = l_opts l" "l_peerStates l' = states"
    using assms(1) by (cases ?fold) auto
  note G = gossip_peers [OF f assms(2)]
  show "l_opts l' = l_opts l" by (rule e)
  show "known_of (l_peerStates l') = known_of (l_peerStates l)" using G e by simp
  show "p \<in> set peers \<Longrightarrow> p_Healthy p \<Longrightarrow> p_Client p = Some c \<Longrightarrow> map_of (l_peerStates l') (p_ID p) \<noteq> None \<and>
       filter (\<lambda>m. gm_peer m = p_ID p) msgs = message_for (o_instanceID (l_opts l)) (round_borrowed now l) (round_consumed now l)
         (known_of (l_peerStates l) (p_ID p)) c (p_ID p)"
    using G e by simp
qed

text \<open>A delivered message makes the table of the receiver the amounts of the round.\<close>

lemma message_delivered:
  assumes "gossip_ok g" "pstate_ok ps" "table_is g i (pst_borrowed ps) (pst_consumed ps)"
    and "gomap_ok cb" "no_zeros cb" "gomap_ok cc" "no_zeros cc"
  shows "table_is (UpdatePeer i (map_delta cc (pst_consumed ps)) (map_delta cb (pst_borrowed ps)) t g) i cb cc"
    "gossip_ok (UpdatePeer i (map_delta cc (pst_consumed ps)) (map_delta cb (pst_borrowed ps)) t g)"
proof -
  let ?g = "UpdatePeer i (map_delta cc (pst_consumed ps)) (map_delta cb (pst_borrowed ps)) t g"
  have ps: "gomap_ok (pst_borrowed ps)" "gomap_ok (pst_consumed ps)" "no_zeros (pst_borrowed ps)" "no_zeros (pst_consumed ps)"
    using assms(2) by (simp_all add: pstate_ok_def)
  have cell: "pc_borrowed (gossip_cell ?g i k) = (case map_of (map_delta cb (pst_borrowed ps)) k of
        None \<Rightarrow> pc_borrowed (gossip_cell g i k) | Some v \<Rightarrow> if v = 0 then None else Some v)"
    "pc_consumed (gossip_cell ?g i k) = (case map_of (map_delta cc (pst_consumed ps)) k of
        None \<Rightarrow> pc_consumed (gossip_cell g i k) | Some v \<Rightarrow> if v = 0 then None else Some v)" for k
    unfolding gossip_cell_UpdatePeer [OF assms(1) map_delta_ok map_delta_ok]
    by (auto simp: cell_update_def cell_borrow_def cell_consume_def Let_def split: option.split)
  have "pc_borrowed (gossip_cell ?g i k) = map_of cb k" "pc_consumed (gossip_cell ?g i k) = map_of cc k" for k
    unfolding cell using assms(3)
      delta_update [OF assms(4) ps(1) assms(5) ps(3), of "\<lambda>x. case x of None \<Rightarrow> pc_borrowed (gossip_cell g i k)
        | Some v \<Rightarrow> if v = 0 then None else Some v" k]
      delta_update [OF assms(6) ps(2) assms(7) ps(4), of "\<lambda>x. case x of None \<Rightarrow> pc_consumed (gossip_cell g i k)
        | Some v \<Rightarrow> if v = 0 then None else Some v" k]
    by (simp_all add: table_is_def)
  then show "table_is ?g i cb cc" by (simp add: table_is_def)
  show "gossip_ok ?g" by (rule gossip_ok_UpdatePeer [OF assms(1)])
qed

lemma acked_known:
  assumes "pstate_ok (known_of (l_peerStates l) j)" "map_of (l_peerStates l) j \<noteq> None" "gm_peer msg = j"
    and "gm_borrowed msg = map_delta cb (pst_borrowed (known_of (l_peerStates l) j))"
    and "gm_consumed msg = map_delta cc (pst_consumed (known_of (l_peerStates l) j))"
    and "gomap_ok cb" "no_zeros cb" "gomap_ok cc" "no_zeros cc"
  defines "ps \<equiv> known_of (l_peerStates (gossip_ack msg l)) j"
  shows "pstate_ok ps" "map_of (pst_borrowed ps) = map_of cb" "map_of (pst_consumed ps) = map_of cc"
    "l_opts (gossip_ack msg l) = l_opts l"
proof -
  obtain p0 where p0: "map_of (l_peerStates l) j = Some p0" using assms(2) by blast
  have k: "known_of (l_peerStates l) j = p0" using p0 by (simp add: known_of_def)
  have ok: "gomap_ok (pst_borrowed p0)" "gomap_ok (pst_consumed p0)" "no_zeros (pst_borrowed p0)" "no_zeros (pst_consumed p0)"
    using assms(1) k by (simp_all add: pstate_ok_def)
  have ps: "ps = p0\<lparr>pst_borrowed := apply_delta (map_delta cb (pst_borrowed p0)) (pst_borrowed p0),
      pst_consumed := apply_delta (map_delta cc (pst_consumed p0)) (pst_consumed p0)\<rparr>"
    using p0 assms(3-5) by (simp add: ps_def gossip_ack_def known_of_def update_conv')
  show b: "map_of (pst_borrowed ps) = map_of cb"
    unfolding ps using delta_applied [OF assms(6) ok(1) assms(7) ok(3)] by (simp add: fun_eq_iff)
  show c: "map_of (pst_consumed ps) = map_of cc"
    unfolding ps using delta_applied [OF assms(8) ok(2) assms(9) ok(4)] by (simp add: fun_eq_iff)
  have "gomap_ok (pst_borrowed ps)" "gomap_ok (pst_consumed ps)" using ok apply_delta_ok by (simp_all add: ps)
  then show "pstate_ok ps" using b c assms(7,9) by (simp add: pstate_ok_def del: map_of_eq_Some_iff)
  show "l_opts (gossip_ack msg l) = l_opts l" by (simp add: gossip_ack_def split: option.split)
qed

text \<open>
  What can happen between an instance and its peer \<open>p\<close>: any work of the instance that leaves the
  acknowledgements alone; a round whose message to \<open>p\<close> is lost, or makes no message; a round whose message is
  handled by \<open>p\<close> and acknowledged; the acknowledgement of another peer; gossip of others at \<open>p\<close>.
\<close>

inductive gossip_step :: "'c Peer \<Rightarrow> 'r limiter \<times> Gossiper \<Rightarrow> 'r limiter \<times> Gossiper \<Rightarrow> bool" for p :: "'c Peer" where
  work: "l_peerStates l' = l_peerStates l \<Longrightarrow> l_opts l' = l_opts l \<Longrightarrow> gossip_step p (l, g) (l', g)"
| lost: "gossipOnce now (peers :: 'c Peer list) l = (l', msgs) \<Longrightarrow> distinct (map p_ID peers) \<Longrightarrow> gossip_step p (l, g) (l', g)"
| delivered: "gossipOnce now (peers :: 'c Peer list) l = (l', msgs) \<Longrightarrow> distinct (map p_ID peers) \<Longrightarrow>
     q \<in> set peers \<Longrightarrow> p_ID q = p_ID p \<Longrightarrow> p_Healthy q \<Longrightarrow> p_Client q = Some c \<Longrightarrow> msg \<in> set msgs \<Longrightarrow> gm_peer msg = p_ID p \<Longrightarrow>
     gossip_step p (l, g) (gossip_ack msg l', UpdatePeer (gm_originID msg) (gm_consumed msg) (gm_borrowed msg) t g)"
| other_ack: "gm_peer (msg :: 'c gossip_msg) \<noteq> p_ID p \<Longrightarrow> gossip_step p (l, g) (gossip_ack msg l, g)"
| other_gossip: "i \<noteq> o_instanceID (l_opts l) \<Longrightarrow> gomap_ok C \<Longrightarrow> gomap_ok B \<Longrightarrow>
     gossip_step p (l, g) (l, UpdatePeer i C B t g)"

lemma round_message:
  assumes "gossipOnce now peers l = (l', msgs)" "distinct (map p_ID peers)"
    and "p \<in> set peers" "p_Healthy p" "p_Client p = Some c" "msg \<in> set msgs" "gm_peer msg = p_ID p"
  shows "gm_originID msg = o_instanceID (l_opts l)"
    "gm_borrowed msg = map_delta (round_borrowed now l) (pst_borrowed (known_of (l_peerStates l) (p_ID p)))"
    "gm_consumed msg = map_delta (round_consumed now l) (pst_consumed (known_of (l_peerStates l) (p_ID p)))"
proof -
  have "msg \<in> set (filter (\<lambda>m. gm_peer m = p_ID p) msgs)" using assms(6,7) by simp
  then have m: "msg \<in> set (message_for (o_instanceID (l_opts l)) (round_borrowed now l) (round_consumed now l)
      (known_of (l_peerStates l) (p_ID p)) c (p_ID p))"
    using round_states(3) [OF assms(1-5)] by simp
  show "gm_originID msg = o_instanceID (l_opts l)"
    "gm_borrowed msg = map_delta (round_borrowed now l) (pst_borrowed (known_of (l_peerStates l) (p_ID p)))"
    "gm_consumed msg = map_delta (round_consumed now l) (pst_consumed (known_of (l_peerStates l) (p_ID p)))"
    using m by (auto simp: message_for_def Let_def split: if_splits)
qed

lemma delivered_syncs:
  fixes t :: gtime
  assumes "in_sync l j g" "gossipOnce now peers l = (l', msgs)" "distinct (map p_ID peers)"
    and "p \<in> set peers" "p_ID p = j" "p_Healthy p" "p_Client p = Some c" "msg \<in> set msgs" "gm_peer msg = j"
  defines "g' \<equiv> UpdatePeer (gm_originID msg) (gm_consumed msg) (gm_borrowed msg) t g"
  shows "in_sync (gossip_ack msg l') j g'"
    "table_is g' (o_instanceID (l_opts l)) (round_borrowed now l) (round_consumed now l)"
proof -
  note M = round_message [OF assms(2-4,6,7,8), unfolded assms(5), OF assms(9)]
  note S = round_states [OF assms(2,3)]
  note I = assms(1) [unfolded in_sync_def]
  show t: "table_is g' (o_instanceID (l_opts l)) (round_borrowed now l) (round_consumed now l)"
    unfolding g'_def M by (rule message_delivered(1) [OF _ _ _ round_borrowed_ok round_consumed_ok]) (use I in auto)
  have g: "gossip_ok g'" unfolding g'_def using I by (simp add: gossip_ok_UpdatePeer)
  have "map_of (l_peerStates l') j \<noteq> None" using S(3) [OF assms(4,6,7)] assms(5) by simp
  note A = acked_known [OF _ this assms(9), unfolded S(2), OF _ M(2,3) round_borrowed_ok round_consumed_ok]
  show "in_sync (gossip_ack msg l') j g'"
    using A I t g S(1) by (simp add: in_sync_def table_is_def)
qed

lemma gossip_step_sync:
  assumes "gossip_step p (l, g) (l', g')" "in_sync l (p_ID p) g"
  shows "in_sync l' (p_ID p) g'"
  using assms(1)
proof (cases rule: gossip_step.cases)
  case work
  then show ?thesis using assms(2) by (simp add: in_sync_def)
next
  case (lost now peers msgs)
  then show ?thesis using assms(2) round_states(1,2) [OF lost(2,3)] by (simp add: in_sync_def)
next
  case (delivered now peers l1 msgs q c msg t)
  then show ?thesis
    using delivered_syncs(1) [OF assms(2) delivered(3,4,5,6,7,8,9,10)] by simp
next
  case (other_ack msg)
  then show ?thesis using assms(2) by (auto simp: in_sync_def gossip_ack_def known_of_def update_conv' split: option.splits)
next
  case (other_gossip i C B t)
  then show ?thesis
    using assms(2) by (simp add: in_sync_def table_is_def gossip_ok_UpdatePeer gossip_cell_UpdatePeer)
qed

lemma in_sync_new: "in_sync (newLimiter opts r) j NewGossiper"
proof -
  have "gossip_cell NewGossiper i k = no_cell" for i k
    using shardIndex_less [of k]
    by (simp add: gossip_cell_def NewGossiper_def shard_cell_def empty_gossipShard_def no_cell_def)
  then show ?thesis
    by (simp add: in_sync_def newLimiter_def Let_def known_of_def newPeerState_def pstate_ok_def table_is_def no_cell_def)
qed

text \<open>
  C13. Gossip converges. However many rounds were lost before, whatever the instance did in between
  and whatever the peer heard from others: the first message of a round that the peer handles
  makes the peer's table for the instance the amounts of that round, borrowed and consumed,
  withdrawn keys included; a round with no message for the peer finds its table right already.
\<close>
theorem gossip_converges:
  assumes "in_sync l0 (p_ID p) g0" "(gossip_step p)\<^sup>*\<^sup>* (l0, g0) (l, g)"
    and "gossipOnce now peers l = (l', msgs)" "distinct (map p_ID peers)"
    and "q \<in> set peers" "p_ID q = p_ID p" "p_Healthy q" "p_Client q = Some c"
  shows "(\<forall>msg t. msg \<in> set msgs \<and> gm_peer msg = p_ID p \<longrightarrow>
      table_is (UpdatePeer (gm_originID msg) (gm_consumed msg) (gm_borrowed msg) t g)
        (o_instanceID (l_opts l)) (round_borrowed now l) (round_consumed now l)) \<and>
    ((\<forall>msg \<in> set msgs. gm_peer msg \<noteq> p_ID p) \<longrightarrow>
      table_is g (o_instanceID (l_opts l)) (round_borrowed now l) (round_consumed now l))"
proof (intro conjI allI impI)
  have sync: "in_sync l (p_ID p) g"
    using assms(2)
  proof (induction "(l, g)" arbitrary: l g rule: rtranclp_induct)
    case (step s l2 g2)
    then show ?case using gossip_step_sync by (cases s) blast
  qed (rule assms(1))
  show "table_is (UpdatePeer (gm_originID msg) (gm_consumed msg) (gm_borrowed msg) t g)
      (o_instanceID (l_opts l)) (round_borrowed now l) (round_consumed now l)"
    if "msg \<in> set msgs \<and> gm_peer msg = p_ID p" for msg t
    using delivered_syncs(2) [OF sync assms(3-8)] that by blast
  assume none: "\<forall>msg \<in> set msgs. gm_peer msg \<noteq> p_ID p"
  let ?ps = "known_of (l_peerStates l) (p_ID p)"
  have "filter (\<lambda>m. gm_peer m = p_ID p) msgs = []" using none by (simp add: filter_empty_conv)
  then have "round_borrowed now l = [] \<and> round_consumed now l = [] \<and>
      map_delta [] (pst_borrowed ?ps) = [] \<and> map_delta [] (pst_consumed ?ps) = []"
    using round_states(3) [OF assms(3-5,7,8)] assms(6) by (auto simp: message_for_def Let_def split: if_splits)
  moreover have "map_of m k = None" if "gomap_ok m" "map_delta [] m = []" for m :: "(string, u64) gomap" and k
    using map_delta_lookup [of "[]" m k] that by (simp split: if_splits del: map_of_eq_Some_iff not_None_eq)
  ultimately show "table_is g (o_instanceID (l_opts l)) (round_borrowed now l) (round_consumed now l)"
    using sync by (simp add: in_sync_def table_is_def pstate_ok_def)
qed

text \<open>
  C37. Amounts that have not changed since the peer acknowledged them are not sent again. A peer
  that lost them (it restarted, evicted the key, or handled a later message whose acknowledgement
  was lost before the amount went back) is not corrected by a round: its cell stays as it is.
\<close>
theorem gossip_unchanged_not_sent:
  assumes "gossipOnce now peers l = (l', msgs)" "distinct (map p_ID peers)"
    and "p \<in> set peers" "p_Healthy p" "p_Client p = Some c" "msg \<in> set msgs" "gm_peer msg = p_ID p"
    and "pstate_ok (known_of (l_peerStates l) (p_ID p))" "gossip_ok g"
    and "map_of (pst_borrowed (known_of (l_peerStates l) (p_ID p))) k = map_of (round_borrowed now l) k"
    and "map_of (pst_consumed (known_of (l_peerStates l) (p_ID p))) k = map_of (round_consumed now l) k"
  shows "gossip_cell (UpdatePeer (gm_originID msg) (gm_consumed msg) (gm_borrowed msg) t g) i k = gossip_cell g i k"
proof -
  note M = round_message [OF assms(1-7)]
  have ps: "gomap_ok (pst_borrowed (known_of (l_peerStates l) (p_ID p)))" "gomap_ok (pst_consumed (known_of (l_peerStates l) (p_ID p)))"
    using assms(8) by (simp_all add: pstate_ok_def)
  have "map_of (gm_borrowed msg) k = None" "map_of (gm_consumed msg) k = None"
    unfolding M using assms(10,11) map_delta_lookup [OF round_borrowed_ok(1) ps(1), of now l k]
      map_delta_lookup [OF round_consumed_ok(1) ps(2), of now l k]
    by (auto simp: get0_def split: option.splits)
  moreover have "gomap_ok (gm_consumed msg)" "gomap_ok (gm_borrowed msg)" unfolding M by simp_all
  ultimately show ?thesis
    using gossip_cell_UpdatePeer [OF assms(9), of "gm_consumed msg" "gm_borrowed msg"]
    by (simp add: cell_update_def)
qed

subsection \<open>A round\<close>

definition demo_sender :: "unit limiter" where
  "demo_sender = (newLimiter (WithInstanceID ''i1'' defaultOptions) ())\<lparr>l_borrowMgr := demo_booked\<rparr>"

definition demo_receiver :: "string Peer" where
  "demo_receiver = demo_peer ''i2'' ''b:1''"

lemma concat_one: "i < n \<Longrightarrow> concat ((replicate n [])[i := ys]) = ys"
proof (induction n arbitrary: i)
  case (Suc n)
  then show ?case by (cases i) simp_all
qed simp

lemma demo_amounts:
  assumes "l_borrowMgr l = demo_booked" "o_maxGossipKeys (l_opts l) = 3000"
  shows "round_borrowed 0 l = [(''k'', 3)]"
proof -
  let ?ks = "\<lparr>ks_borrowed = 3, ks_lastBorrow = 0\<rparr>"
  have "map active_of (map (live_shard (bm_leaseTTL demo_booked) 0) (bm_shards demo_booked))
      = (replicate shardCount [])[shardIndex ''k'' := [(''k'', 3)]]"
    by (simp add: demo_booked_def demo_manager_def NewBorrowManager_def map_update live_shard_def active_of_def
        lease_expired_def time_sub_def)
  then show ?thesis
    using assms by (simp add: round_borrowed_def AllBorrowed_def Let_def concat_one [OF shardIndex_less] del: map_map)
qed

lemma demo_sender_fields [simp]:
  "l_borrowMgr demo_sender = demo_booked" "o_maxGossipKeys (l_opts demo_sender) = 3000"
  "o_instanceID (l_opts demo_sender) = ''i1''" "l_peerStates demo_sender = []"
  by (simp_all add: demo_sender_def newLimiter_def Let_def WithInstanceID_def defaultOptions_def)

lemma demo_receiver_fields [simp]:
  "p_Healthy demo_receiver" "p_Client demo_receiver = Some ''b:1''" "p_ID demo_receiver = ''i2''"
  by (simp_all add: demo_receiver_def demo_peer_def)

lemma demo_round:
  assumes "gossipOnce 0 [demo_receiver] l = (l', msgs)" "round_borrowed 0 l \<noteq> []"
  shows "\<exists>msg \<in> set msgs. gm_peer msg = ''i2'' \<and> gm_originID msg = o_instanceID (l_opts l)"
proof -
  have d: "distinct (map p_ID [demo_receiver])" "demo_receiver \<in> set [demo_receiver]" by simp_all
  have "filter (\<lambda>m. gm_peer m = ''i2'') msgs \<noteq> []"
    using round_states(3) [OF assms(1) d demo_receiver_fields(1,2)] assms(2) by (simp add: message_for_def Let_def)
  then obtain msg where m: "msg \<in> set msgs" "gm_peer msg = ''i2''" by (auto simp: filter_empty_conv)
  then show ?thesis using round_message(1) [OF assms(1) d demo_receiver_fields(1,2) m(1)] by auto
qed

theorem gossip_converges_witness:
  "\<exists>l' msgs msg. gossipOnce 0 [demo_receiver] demo_sender = (l', msgs) \<and> msg \<in> set msgs \<and>
     pc_borrowed (gossip_cell (UpdatePeer ''i1'' (gm_consumed msg) (gm_borrowed msg) 0 NewGossiper) ''i1'' ''k'') = Some 3"
proof -
  let ?l0 = "newLimiter (WithInstanceID ''i1'' defaultOptions) () :: unit limiter"
  have "gossip_step demo_receiver (?l0, NewGossiper) (demo_sender, NewGossiper)"
    by (rule gossip_step.work) (simp_all add: demo_sender_def)
  then have run: "(gossip_step demo_receiver)\<^sup>*\<^sup>* (?l0, NewGossiper) (demo_sender, NewGossiper)" by blast
  obtain l' msgs where g: "gossipOnce 0 [demo_receiver] demo_sender = (l', msgs)" by (cases "gossipOnce 0 [demo_receiver] demo_sender")
  obtain msg where m: "msg \<in> set msgs" "gm_peer msg = ''i2''" "gm_originID msg = ''i1''"
    using demo_round [OF g] by (auto simp: demo_amounts)
  have "table_is (UpdatePeer ''i1'' (gm_consumed msg) (gm_borrowed msg) 0 NewGossiper) ''i1''
      (round_borrowed 0 demo_sender) (round_consumed 0 demo_sender)"
    using gossip_converges [OF in_sync_new run g _ _ refl demo_receiver_fields(1,2)] m by auto
  then show ?thesis using g m(1) by (auto simp: table_is_def demo_amounts)
qed

text \<open>The peer has acknowledged the amount and restarted since.\<close>

definition demo_acked :: "unit limiter" where
  "demo_acked = demo_sender\<lparr>l_peerStates := [(''i2'', \<lparr>pst_borrowed = [(''k'', 3)], pst_consumed = []\<rparr>)]\<rparr>"

lemma demo_acked_fields [simp]:
  "l_borrowMgr demo_acked = demo_booked" "o_maxGossipKeys (l_opts demo_acked) = 3000"
  "l_peerStates demo_acked = [(''i2'', \<lparr>pst_borrowed = [(''k'', 3)], pst_consumed = []\<rparr>)]"
  by (simp_all add: demo_acked_def)

lemma demo_acked_consumed: "round_consumed 0 demo_acked = []"
proof -
  have "l_shards demo_acked = replicate shardCount []"
    by (simp add: demo_acked_def demo_sender_def newLimiter_def Let_def)
  moreover have "fold (\<lambda>k out. out) xs out = out" for xs :: "string list" and out :: "(string, u64) gomap"
    by (induction xs) simp_all
  ultimately show ?thesis unfolding round_consumed_def getBucketsConsumed_def
    by (intro fold_invariant [where P = "\<lambda>out. out = []" and Q = "\<lambda>x. snd x = []"])
       (auto dest!: set_zip_rightD)
qed

theorem gossip_unchanged_not_sent_witness:
  "\<exists>l' msgs msg. gossipOnce 0 [demo_receiver] demo_acked = (l', msgs) \<and> msg \<in> set msgs \<and>
     map_of (round_borrowed 0 demo_acked) ''k'' = Some 3 \<and>
     gossip_cell (UpdatePeer ''i1'' (gm_consumed msg) (gm_borrowed msg) 0 NewGossiper) ''i1'' ''k'' = gossip_cell NewGossiper ''i1'' ''k''"
proof -
  obtain l' msgs where g: "gossipOnce 0 [demo_receiver] demo_acked = (l', msgs)" by (cases "gossipOnce 0 [demo_receiver] demo_acked")
  obtain msg where m: "msg \<in> set msgs" "gm_peer msg = ''i2''" "gm_originID msg = ''i1''"
    using demo_round [OF g] by (auto simp: demo_amounts demo_acked_def)
  have "gossip_cell (UpdatePeer (gm_originID msg) (gm_consumed msg) (gm_borrowed msg) 0 NewGossiper) ''i1'' ''k''
      = gossip_cell NewGossiper ''i1'' ''k''"
    by (rule gossip_unchanged_not_sent [OF g _ _ demo_receiver_fields(1,2) m(1)])
       (simp_all add: m known_of_def pstate_ok_def demo_amounts demo_acked_consumed)
  then show ?thesis using g m by (auto simp: demo_amounts)
qed

subsection \<open>A peer that crashed\<close>

definition mesh_discover :: "('w, 'v) Membership \<Rightarrow> 'w \<Rightarrow> (err + MemberInfo list) \<times> 'w" where
  "mesh_discover M w = (let (r, toDelete, w1) = Discover M w in (r, w1))"

lemma peers_removed:
  fixes l :: "'r limiter"
  assumes "gossip_ok (l_gossiper l)"
  shows "gossip_ok (l_gossiper (fold (peer_removed E) gone l)) \<and>
    (\<forall>i k. gossip_cell (l_gossiper (fold (peer_removed E) gone l)) i k =
       (if i \<in> set gone then no_cell else gossip_cell (l_gossiper l) i k)) \<and>
    set (PeerIDs (l_gossiper (fold (peer_removed E) gone l))) = set (PeerIDs (l_gossiper l)) - set gone"
  using assms
proof (induction gone arbitrary: l)
  case (Cons i gone)
  have e: "l_gossiper (peer_removed E i l) = gossip_RemovePeer i (l_gossiper l)" by (simp add: peer_removed_def)
  have one: "gossip_ok (l_gossiper (peer_removed E i l))"
    "gossip_cell (l_gossiper (peer_removed E i l)) i' k = (if i = i' then no_cell else gossip_cell (l_gossiper l) i' k)" for i' k
    unfolding e using Cons.prems by (simp_all add: gossip_ok_RemovePeer gossip_cell_RemovePeer)
  have two: "set (PeerIDs (l_gossiper (peer_removed E i l))) = set (PeerIDs (l_gossiper l)) - {i}"
    unfolding e using gossip_okD(3) [OF Cons.prems] by (auto simp: PeerIDs_def gossip_RemovePeer_def)
  show ?case using Cons.IH [OF one(1)] one(2) two by auto
qed simp

text \<open>
  C20. A crashed instance is forgotten. Once its entry is older than the time to live, the next refresh of the mesh that can reach Redis drops the peer: there is no
  client for it any more, and the gossiper knows nothing of it. The other peers' amounts stay.
\<close>
theorem crashed_peer_forgotten:
  assumes "member_store M entries" "mesh_ok m" "gossip_ok (l_gossiper l)"
    and "\<And>f info. member_at M (entries w) f = Some info \<Longrightarrow> mi_ID info = i \<Longrightarrow>
      member_expired (ttl_ms M) (discover_ms M w) info"
    and "mesh_discover M w = (Inr ms, w1)" "GetPeer i m \<noteq> None"
    and "mesh_loop (mesh_discover M) dial clk (peer_removed E) [MTick] m l w = (m', l', w')"
  shows "GetPeer i m' = None \<and> GetPeerClient m' i = None \<and> i \<notin> set (PeerIDs (l_gossiper l')) \<and>
    (\<forall>k. gossip_cell (l_gossiper l') i k = no_cell) \<and>
    (\<forall>j k. j \<in> mi_ID ` set ms \<longrightarrow> gossip_cell (l_gossiper l') j k = gossip_cell (l_gossiper l) j k)"
proof -
  obtain closed removed where r: "refresh (mesh_discover M) dial clk m w = (m', closed, removed, w')"
    and l': "l' = fold (peer_removed E) removed l"
    using assms(7) by (auto split: prod.splits)
  obtain ds where D: "Discover M w = (Inr ms, ds, w1)" using assms(5) by (auto simp: mesh_discover_def split: prod.splits)
  have "set ms = {info. \<exists>f. member_at M (entries w) f = Some info \<and>
      \<not> member_expired (ttl_ms M) (discover_ms M w) info}"
    using member_store.Discover_spec(2) [OF assms(1) D refl] by blast
  then have gone: "i \<notin> mi_ID ` set ms" using assms(4) by auto
  note F = refresh_spec [OF assms(2) r, unfolded assms(5) fst_conv sum.case]
  have "i \<in> set (keys (m_peers m))" using assms(6) map_of_eq_None_iff [of "m_peers m" i] by (simp add: GetPeer_def)
  then have i: "i \<in> set removed" using F gone by blast
  have none: "map_of (m_peers m') i = None" using F gone map_of_eq_None_iff [of "m_peers m'" i] by simp
  have stay: "j \<notin> set removed" if "j \<in> mi_ID ` set ms" for j using F that by blast
  show ?thesis
    using peers_removed [OF assms(3), of E removed] i none stay
    by (auto simp: l' GetPeer_def GetPeerClient_def)
qed

theorem crashed_peer_forgotten_witness:
  "\<forall>E :: (unit, unit, string) env. \<exists>m' l' w'.
     mesh_loop (mesh_discover mem_membership) (\<lambda>a w. (Inr a, w)) (mb_wall mem_membership) (peer_removed E) [MTick]
       demo_mesh demo_sender demo_members = (m', l', w') \<and> GetPeerClient m' ''i2'' = None"
proof
  fix E :: "(unit, unit, string) env"
  obtain m' l' w' where r: "mesh_loop (mesh_discover mem_membership) (\<lambda>a w. (Inr a, w)) (mb_wall mem_membership)
      (peer_removed E) [MTick] demo_mesh demo_sender demo_members = (m', l', w')"
    by (rule prod_cases3)
  have d: "mesh_discover mem_membership demo_members = (Inr [demo_info ''i1'' 7000], demo_members)"
    by (simp add: mesh_discover_def demo_Discover)
  have old: "member_expired (ttl_ms mem_membership) (discover_ms mem_membership demo_members) info"
    if "member_at mem_membership (case demo_members of (m, t) \<Rightarrow> map_of m) f = Some info" "mi_ID info = ''i2''" for f info
    using that by (auto simp: member_at_def discover_ms_def hashKey_def demo_member_defs split: if_splits)
  have "gossip_ok (l_gossiper demo_sender)" by (simp add: demo_sender_def newLimiter_def Let_def)
  then have "GetPeerClient m' ''i2'' = None"
    using crashed_peer_forgotten [OF mem_members.member_store_axioms demo_mesh_ok _ old d _ r]
    by (simp add: GetPeer_def demo_mesh_def)
  show "\<exists>m' l' w'. mesh_loop (mesh_discover mem_membership) (\<lambda>a w. (Inr a, w)) (mb_wall mem_membership) (peer_removed E) [MTick]
       demo_mesh demo_sender demo_members = (m', l', w') \<and> GetPeerClient m' ''i2'' = None"
    using r \<open>GetPeerClient m' ''i2'' = None\<close> by simp
qed

end
