(* ===== verification/Fake_Clock.thy ===== *)
theory Fake_Clock
  imports Krate_Prelude
begin

text \<open>
  The clock of the tests (\<^verbatim>\<open>internal/clock/clock.go\<close>). A timer is a channel that holds one value, named
  by a number. What \<^verbatim>\<open>Advance\<close> sends, it sends in goroutines, so \<open>Advance\<close> returns the sends still to
  be done and \<open>clock_step\<close> interleaves them with everything else. \<^verbatim>\<open>NewTicker\<close> is the real ticker.
\<close>

record waiter =
  wt_deadline :: gtime
  wt_ch :: nat

record FakeClock =
  fc_now :: gtime
  fc_waiters :: "waiter list"

definition NewFakeClock :: "gtime \<Rightarrow> FakeClock" where
  "NewFakeClock t = \<lparr>fc_now = t, fc_waiters = []\<rparr>"

definition fc_Now :: "FakeClock \<Rightarrow> gtime" where
  "fc_Now fc = fc_now fc"

definition Since :: "gtime \<Rightarrow> FakeClock \<Rightarrow> duration" where
  "Since t fc = time_sub (fc_now fc) t"

definition SetNow :: "gtime \<Rightarrow> FakeClock \<Rightarrow> FakeClock" where
  "SetNow t fc = fc\<lparr>fc_now := t\<rparr>"

definition Advance :: "duration \<Rightarrow> FakeClock \<Rightarrow> FakeClock \<times> (nat \<times> gtime) list" where
  "Advance d fc =
     (let now = fc_now fc + sint d;
          (remaining, sends) = fold (\<lambda>w (remaining, sends).
              if \<not> now < wt_deadline w then (remaining, sends @ [(wt_ch w, now)])
              else (remaining @ [w], sends)) (fc_waiters fc) ([], [])
      in (\<lparr>fc_now = now, fc_waiters = remaining\<rparr>, sends))"

definition After :: "nat \<Rightarrow> duration \<Rightarrow> FakeClock \<Rightarrow> FakeClock \<times> gtime option" where
  \<comment> \<open>with the number of the channel it makes; the value it puts into it, if any\<close>
  "After ch d fc =
     (let deadline = fc_now fc + sint d
      in if \<not> fc_now fc < deadline then (fc, Some (fc_now fc))
         else (fc\<lparr>fc_waiters := fc_waiters fc @ [\<lparr>wt_deadline = deadline, wt_ch = ch\<rparr>]\<rparr>, None))"

definition Waiters :: "FakeClock \<Rightarrow> nat" where
  "Waiters fc = length (fc_waiters fc)"

lemma Advance_eq:
  "Advance d fc = (let now = fc_now fc + sint d in
     (\<lparr>fc_now = now, fc_waiters = filter (\<lambda>w. now < wt_deadline w) (fc_waiters fc)\<rparr>,
      map (\<lambda>w. (wt_ch w, now)) (filter (\<lambda>w. \<not> now < wt_deadline w) (fc_waiters fc))))"
proof -
  have "fold (\<lambda>w (remaining, sends). if \<not> now < wt_deadline w then (remaining, sends @ [(wt_ch w, now)])
        else (remaining @ [w], sends)) ws (rs, ss)
      = (rs @ filter (\<lambda>w. now < wt_deadline w) ws, ss @ map (\<lambda>w. (wt_ch w, now)) (filter (\<lambda>w. \<not> now < wt_deadline w) ws))"
    for now :: gtime and ws rs :: "waiter list" and ss
    by (induction ws arbitrary: rs ss) auto
  from this [of "fc_now fc + sint d"] show ?thesis by (simp add: Advance_def Let_def)
qed

subsection \<open>The clock and its users\<close>

text \<open>
  The channels' buffers, the sends started and not done, what was received from each channel, and
  the deadline each timer was made with.
\<close>

record clock_sys =
  cs_clock :: FakeClock
  cs_next :: nat
  cs_buf :: "nat \<Rightarrow> gtime option"
  cs_sends :: "(nat \<times> gtime) list"
  cs_got :: "(nat \<times> gtime) list"
  cs_deadline :: "nat \<Rightarrow> gtime"

definition clock_init :: "gtime \<Rightarrow> clock_sys" where
  "clock_init t = \<lparr>cs_clock = NewFakeClock t, cs_next = 0, cs_buf = (\<lambda>_. None), cs_sends = [], cs_got = [], cs_deadline = (\<lambda>_. 0)\<rparr>"

inductive clock_step :: "clock_sys \<Rightarrow> clock_sys \<Rightarrow> bool" where
  after: "After (cs_next s) d (cs_clock s) = (fc, v) \<Longrightarrow>
    clock_step s (s\<lparr>cs_clock := fc, cs_next := Suc (cs_next s), cs_buf := (cs_buf s)(cs_next s := v),
      cs_deadline := (cs_deadline s)(cs_next s := fc_now (cs_clock s) + sint d)\<rparr>)"
| advance: "Advance d (cs_clock s) = (fc, sends) \<Longrightarrow> clock_step s (s\<lparr>cs_clock := fc, cs_sends := cs_sends s @ sends\<rparr>)"
| set_now: "clock_step s (s\<lparr>cs_clock := SetNow t (cs_clock s)\<rparr>)"
| send: "(ch, t) \<in> set (cs_sends s) \<Longrightarrow> cs_buf s ch = None \<Longrightarrow>
    clock_step s (s\<lparr>cs_sends := remove1 (ch, t) (cs_sends s), cs_buf := (cs_buf s)(ch := Some t)\<rparr>)"
| receive: "cs_buf s ch = Some t \<Longrightarrow> clock_step s (s\<lparr>cs_buf := (cs_buf s)(ch := None), cs_got := cs_got s @ [(ch, t)]\<rparr>)"

text \<open>Where the value of a timer is: it waits, is being sent, is in the channel or was received.\<close>

definition places :: "clock_sys \<Rightarrow> nat \<Rightarrow> nat" where
  "places s ch = count_list (map wt_ch (fc_waiters (cs_clock s))) ch + count_list (map fst (cs_sends s)) ch +
     (if cs_buf s ch = None then 0 else 1) + count_list (map fst (cs_got s)) ch"

definition fired :: "clock_sys \<Rightarrow> (nat \<times> gtime) set" where
  "fired s = set (cs_sends s) \<union> {(ch, t). cs_buf s ch = Some t} \<union> set (cs_got s)"

definition clock_inv :: "clock_sys \<Rightarrow> bool" where
  "clock_inv s \<longleftrightarrow>
     (\<forall>ch. places s ch = (if ch < cs_next s then 1 else 0)) \<and>
     (\<forall>w \<in> set (fc_waiters (cs_clock s)). wt_deadline w = cs_deadline s (wt_ch w)) \<and>
     (\<forall>ch t. (ch, t) \<in> fired s \<longrightarrow> cs_deadline s ch \<le> t)"

lemma count_filter: "count_list (map f (filter P xs)) y + count_list (map f (filter (\<lambda>x. \<not> P x) xs)) y = count_list (map f xs) y"
  by (induction xs) auto

lemma count_remove1: "x \<in> set xs \<Longrightarrow> count_list (map f xs) y = count_list (map f (remove1 x xs)) y + (if f x = y then 1 else 0)"
  by (induction xs) auto

lemma places_ge: "clock_inv s \<Longrightarrow> places s ch > 0 \<Longrightarrow> ch < cs_next s"
  by (auto simp: clock_inv_def split: if_splits)

lemma fired_places: "(ch, t) \<in> fired s \<Longrightarrow> 0 < places s ch"
  by (force simp: fired_def places_def count_list_0_iff)

lemma waiter_places: "w \<in> set (fc_waiters (cs_clock s)) \<Longrightarrow> 0 < places s (wt_ch w)"
  by (force simp: places_def count_list_0_iff)

lemma clock_step_inv:
  assumes "clock_step s s'" "clock_inv s"
  shows "clock_inv s'"
  using assms
proof (induction rule: clock_step.induct)
  case (after s d fc v)
  let ?n = "cs_next s"
  have new: "places s ?n = 0" using after.prems by (simp add: clock_inv_def)
  then have fresh: "(?n, t) \<notin> fired s" "w \<in> set (fc_waiters (cs_clock s)) \<Longrightarrow> wt_ch w \<noteq> ?n" for t w
    using fired_places [of ?n t s] waiter_places [of w s] by auto
  have "cs_buf s ?n = None" using new by (simp add: places_def split: if_splits)
  let ?s = "s\<lparr>cs_clock := fc, cs_next := Suc ?n, cs_buf := (cs_buf s)(?n := v),
      cs_deadline := (cs_deadline s)(?n := fc_now (cs_clock s) + sint d)\<rparr>"
  have v: "if sint d \<le> 0 then fc = cs_clock s \<and> v = Some (fc_now fc) else v = None \<and>
      fc_waiters fc = fc_waiters (cs_clock s) @ [\<lparr>wt_deadline = fc_now (cs_clock s) + sint d, wt_ch = ?n\<rparr>]"
    using after(1) by (auto simp: After_def Let_def split: if_splits)
  have "places ?s ch = places s ch + (if ch = ?n then 1 else 0)" for ch
    using v \<open>cs_buf s ?n = None\<close> by (simp add: places_def split: if_splits)
  moreover have "fired ?s = fired s \<union> {(?n, t) |t. v = Some t}"
    using \<open>cs_buf s ?n = None\<close> by (auto simp: fired_def split: if_splits)
  moreover have "wt_deadline w = cs_deadline ?s (wt_ch w)" if "w \<in> set (fc_waiters fc)" for w
    using that v fresh(2) after.prems by (auto simp: clock_inv_def split: if_splits)
  ultimately show ?case
    using after.prems new v fresh(1) by (auto simp: clock_inv_def split: if_splits)
next
  case (advance d s fc sends)
  let ?now = "fc_now (cs_clock s) + sint d" and ?ws = "fc_waiters (cs_clock s)"
  have fc: "fc_waiters fc = filter (\<lambda>w. ?now < wt_deadline w) ?ws"
    "sends = map (\<lambda>w. (wt_ch w, ?now)) (filter (\<lambda>w. \<not> ?now < wt_deadline w) ?ws)"
    using advance(1) by (auto simp: Advance_eq Let_def)
  have "places (s\<lparr>cs_clock := fc, cs_sends := cs_sends s @ sends\<rparr>) ch = places s ch" for ch
    using count_filter [of wt_ch "\<lambda>w. ?now < wt_deadline w" ?ws ch] by (simp add: places_def fc comp_def)
  moreover have "cs_deadline s ch \<le> t" if "(ch, t) \<in> set sends" for ch t
    using that advance.prems by (auto simp: fc clock_inv_def)
  moreover have "fired (s\<lparr>cs_clock := fc, cs_sends := cs_sends s @ sends\<rparr>) = fired s \<union> set sends"
    by (auto simp: fired_def)
  ultimately show ?case
    using advance.prems by (auto simp: clock_inv_def fc(1))
next
  case (set_now s t)
  then show ?case by (simp add: clock_inv_def places_def fired_def SetNow_def)
next
  case (send ch t s)
  have "places (s\<lparr>cs_sends := remove1 (ch, t) (cs_sends s), cs_buf := (cs_buf s)(ch \<mapsto> t)\<rparr>) i = places s i" for i
    using send(1,2) count_remove1 [OF send(1), of fst i] by (auto simp: places_def)
  moreover have "fired (s\<lparr>cs_sends := remove1 (ch, t) (cs_sends s), cs_buf := (cs_buf s)(ch \<mapsto> t)\<rparr>) \<subseteq> fired s"
    using send(1) set_remove1_subset [of "(ch, t)" "cs_sends s"] by (auto simp: fired_def split: if_splits)
  ultimately show ?case
    using send.prems unfolding clock_inv_def by auto
next
  case (receive s ch t)
  have "places (s\<lparr>cs_buf := (cs_buf s)(ch := None), cs_got := cs_got s @ [(ch, t)]\<rparr>) i = places s i" for i
    using receive(1) by (auto simp: places_def)
  moreover have "fired (s\<lparr>cs_buf := (cs_buf s)(ch := None), cs_got := cs_got s @ [(ch, t)]\<rparr>) = fired s"
    using receive(1) by (auto simp: fired_def split: if_splits)
  ultimately show ?case
    using receive.prems by (simp add: clock_inv_def)
qed

lemma clock_reach_inv: "clock_step\<^sup>*\<^sup>* (clock_init t0) s \<Longrightarrow> clock_inv s"
proof (induction rule: rtranclp_induct)
  case base
  show ?case by (simp add: clock_inv_def clock_init_def places_def fired_def NewFakeClock_def)
qed (rule clock_step_inv)

text \<open>
  C39. Whatever the order of the clock's operations, the sends and the receives: every timer made by
  \<^verbatim>\<open>After\<close> fires at most once and never before its deadline, a send never blocks, and one that has not
  fired still waits; an \<^verbatim>\<open>Advance\<close> to its deadline or beyond fires it.
\<close>
theorem fake_timers:
  assumes "clock_step\<^sup>*\<^sup>* (clock_init t0) s" "ch < cs_next s"
  shows "length (filter (\<lambda>(c, t). c = ch) (cs_sends s @ cs_got s)) + (if cs_buf s ch = None then 0 else 1) \<le> 1 \<and>
    (\<forall>t. (ch, t) \<in> fired s \<longrightarrow> cs_deadline s ch \<le> t) \<and>
    (\<forall>t. (ch, t) \<in> set (cs_sends s) \<longrightarrow> cs_buf s ch = None) \<and>
    ((\<nexists>t. (ch, t) \<in> fired s) \<longrightarrow>
      (\<exists>w \<in> set (fc_waiters (cs_clock s)). wt_ch w = ch \<and> wt_deadline w = cs_deadline s ch) \<and>
      (\<forall>d. cs_deadline s ch \<le> fc_now (cs_clock s) + sint d \<longrightarrow>
        (ch, fc_now (cs_clock s) + sint d) \<in> set (snd (Advance d (cs_clock s)))))"
proof -
  have inv: "clock_inv s" by (rule clock_reach_inv [OF assms(1)])
  have one: "places s ch = 1" using inv assms(2) by (simp add: clock_inv_def)
  have len: "length (filter (\<lambda>(c, t). c = ch) xs) = count_list (map fst xs) ch" for xs :: "(nat \<times> gtime) list"
    by (induction xs) auto
  have a: "length (filter (\<lambda>(c, t). c = ch) (cs_sends s @ cs_got s)) + (if cs_buf s ch = None then 0 else 1) \<le> 1"
    using one by (simp add: places_def len split: if_splits)
  have "cs_buf s ch = None" if "(ch, t) \<in> set (cs_sends s)" for t
  proof -
    have "count_list (map fst (cs_sends s)) ch \<noteq> 0" using image_eqI [of ch fst "(ch, t)"] that by (simp add: count_list_0_iff)
    then show ?thesis using one by (auto simp: places_def split: if_splits)
  qed
  moreover have "\<exists>w \<in> set (fc_waiters (cs_clock s)). wt_ch w = ch \<and> wt_deadline w = cs_deadline s ch"
    if none: "\<nexists>t. (ch, t) \<in> fired s"
  proof -
    have "cs_buf s ch = None" using none by (cases "cs_buf s ch") (auto simp: fired_def)
    moreover have "ch \<notin> fst ` set (cs_sends s)" "ch \<notin> fst ` set (cs_got s)" using none by (auto simp: fired_def)
    ultimately have "count_list (map wt_ch (fc_waiters (cs_clock s))) ch \<noteq> 0" using one by (simp add: places_def)
    then show ?thesis using inv by (auto simp: clock_inv_def count_list_0_iff)
  qed
  moreover have "\<forall>t. (ch, t) \<in> fired s \<longrightarrow> cs_deadline s ch \<le> t" using inv by (auto simp: clock_inv_def)
  ultimately show ?thesis using a by (fastforce simp: Advance_eq Let_def)
qed

theorem fake_timers_witness:
  "\<exists>s. clock_step\<^sup>*\<^sup>* (clock_init 0) s \<and> cs_got s = [(0, 7)] \<and> cs_deadline s 0 \<le> 7 \<and> cs_buf s 0 = None"
proof -
  let ?s = "clock_init 0"
  let ?a = "?s\<lparr>cs_clock := \<lparr>fc_now = 0, fc_waiters = [\<lparr>wt_deadline = 5, wt_ch = 0\<rparr>]\<rparr>, cs_next := 1,
      cs_buf := (cs_buf ?s)(0 := None), cs_deadline := (cs_deadline ?s)(0 := 5)\<rparr>"
  let ?b = "?a\<lparr>cs_clock := \<lparr>fc_now = 7, fc_waiters = []\<rparr>, cs_sends := [(0, 7)]\<rparr>"
  let ?c = "?b\<lparr>cs_sends := [], cs_buf := (cs_buf ?b)(0 := Some 7)\<rparr>"
  let ?d = "?c\<lparr>cs_buf := (cs_buf ?c)(0 := None), cs_got := [(0, 7)]\<rparr>"
  have "clock_step ?s ?a"
    using clock_step.after [of ?s 5 "\<lparr>fc_now = 0, fc_waiters = [\<lparr>wt_deadline = 5, wt_ch = 0\<rparr>]\<rparr>" None]
    by (simp add: After_def clock_init_def NewFakeClock_def)
  moreover have "clock_step ?a ?b"
    using clock_step.advance [of 7 ?a "\<lparr>fc_now = 7, fc_waiters = []\<rparr>" "[(0, 7)]"]
    by (simp add: Advance_eq clock_init_def)
  moreover have "clock_step ?b ?c"
    using clock_step.send [of 0 7 ?b] by (simp add: clock_init_def)
  moreover have "clock_step ?c ?d"
    using clock_step.receive [of ?c 0 7] by (simp add: clock_init_def)
  ultimately have run: "clock_step\<^sup>*\<^sup>* ?s ?d"
    by (meson converse_rtranclp_into_rtranclp rtranclp.rtrancl_refl)
  have "cs_deadline ?d 0 \<le> 7"
    using fake_timers [OF run, of 0] by (simp add: fired_def)
  with run show ?thesis by (intro exI [of _ ?d]) simp
qed

end
