(* ===== verification/Limiter_Wf.thy ===== *)
theory Limiter_Wf
  imports Limiter_Evict Limiter_Peers Gossip_Sync
begin

text \<open>
  The structure of a limiter: every bucket sits in the shard of its key, carries that key and the
  configured limit and window, and is marked as pre-borrowing exactly while a pre-borrow of the key is
  running, of which there is at most one. Every operation keeps this, whatever the environment
  answers and also where counters overflow. And closing: what it waits for and what it refuses.
\<close>

definition shape :: "bucket \<Rightarrow> string \<times> WindowType \<times> u64 \<times> i64 \<times> duration \<times> bool" where
  "shape b = (b_key b, windowType (b_window b), limit (b_window b), windowMs (b_window b), windowSize (b_window b), b_preBorrowing b)"

definition shape_of :: "options \<Rightarrow> string \<Rightarrow> bool \<Rightarrow> string \<times> WindowType \<times> u64 \<times> i64 \<times> duration \<times> bool" where
  "shape_of o' k preBorrowing = (k, o_windowType o', o_limit o', Milliseconds (o_window o'), o_window o', preBorrowing)"

definition limiter_wf :: "'r limiter \<Rightarrow> bool" where
  "limiter_wf l \<longleftrightarrow> shards_ok shardIndex shardCount (l_shards l) \<and> bm_ok (l_borrowMgr l) \<and> gossip_ok (l_gossiper l) \<and>
     distinct (l_jobs l) \<and>
     (\<forall>k \<in> set (l_jobs l). lookup_bucket l k \<noteq> None) \<and>
     (\<forall>k b. lookup_bucket l k = Some b \<longrightarrow> shape b = shape_of (l_opts l) k (k \<in> set (l_jobs l)))"

definition wf_at :: "string \<Rightarrow> bucket \<Rightarrow> 'r limiter \<Rightarrow> bool" where
  "wf_at key b l \<longleftrightarrow> limiter_wf l \<and> lookup_bucket l key = Some b"

lemma shape_ops [simp]:
  "shape (updateAccess t b) = shape b" "shape (refill n b) = shape b" "shape (snd (tryConsume n b)) = shape b"
  "shape (recordConsumption n b) = shape b" "shape (MarkRedisExhausted b) = shape b" "shape (ClearRedisExhausted b) = shape b"
  "shape (snd (drain b)) = shape b" "shape (resetConsumed b) = shape b" "shape (on_grant n b) = shape b"
  "shape (b\<lparr>b_window := UpdateWindowStart t (b_window b)\<rparr>) = shape b"
  by (simp_all add: shape_def bucket_defs on_grant_def UpdateWindowStart_def split_beta)

lemma shape_flag [simp]:
  "shape (b\<lparr>b_preBorrowing := x\<rparr>) = (b_key b, windowType (b_window b), limit (b_window b), windowMs (b_window b), windowSize (b_window b), x)"
  by (simp add: shape_def)

lemma limiter_wfD:
  assumes "limiter_wf l"
  shows "shards_ok shardIndex shardCount (l_shards l)" "bm_ok (l_borrowMgr l)" "gossip_ok (l_gossiper l)" "distinct (l_jobs l)"
    "lookup_bucket l k = None \<Longrightarrow> k \<notin> set (l_jobs l)"
    "lookup_bucket l k = Some b \<Longrightarrow> shape b = shape_of (l_opts l) k (k \<in> set (l_jobs l))"
  using assms by (auto simp: limiter_wf_def)

lemma wf_frame [simp]:
  "limiter_wf (l\<lparr>l_router := r\<rparr>) = limiter_wf l" "limiter_wf (l\<lparr>l_extras := e\<rparr>) = limiter_wf l"
  "limiter_wf (l\<lparr>l_closed := c\<rparr>) = limiter_wf l" "limiter_wf (l\<lparr>l_peerStates := s\<rparr>) = limiter_wf l"
  by (simp_all add: limiter_wf_def lookup_bucket_def del: not_None_eq)

lemma wf_manager: "limiter_wf l \<Longrightarrow> bm_ok m \<Longrightarrow> limiter_wf (l\<lparr>l_borrowMgr := m\<rparr>)"
  by (simp add: limiter_wf_def)

lemma wf_gossiper: "limiter_wf l \<Longrightarrow> gossip_ok g \<Longrightarrow> limiter_wf (l\<lparr>l_gossiper := g\<rparr>)"
  by (simp add: limiter_wf_def)

lemma shards_put:
  "shards_ok shardIndex shardCount (l_shards l) \<Longrightarrow> shards_ok shardIndex shardCount (l_shards (put_bucket key b l))"
  by (simp add: put_bucket_def Let_def fnv.shards_ok_update)

lemma wf_put:
  assumes "limiter_wf l" "shape b = shape_of (l_opts l) key (key \<in> set (l_jobs l))"
  shows "wf_at key b (put_bucket key b l)"
  using assms limiter_wfD(1) [OF assms(1)] unfolding wf_at_def limiter_wf_def
  by (simp add: lookup_put shards_put)

lemma wf_at_put: "wf_at key b0 l \<Longrightarrow> shape b = shape b0 \<Longrightarrow> wf_at key b (put_bucket key b l)"
  unfolding wf_at_def [of key b0] using limiter_wfD(6) [of l key b0] by (intro wf_put) auto

lemma wf_at_manager: "wf_at key b l \<Longrightarrow> bm_ok m \<Longrightarrow> wf_at key b (l\<lparr>l_borrowMgr := m\<rparr>)"
  by (simp add: wf_at_def wf_manager)

lemma wf_at_wf: "wf_at key b l \<Longrightarrow> limiter_wf l"
  by (simp add: wf_at_def)

subsection \<open>The operations\<close>

lemma newLimiter_wf: "limiter_wf (newLimiter opts r)"
proof -
  have "lookup_bucket (newLimiter opts r) k = None" for k
    using shardIndex_less [of k] by (simp add: lookup_bucket_def newLimiter_def Let_def)
  then show ?thesis
    using limiter_okD(1,2) [OF newLimiter_ok, of opts r] unfolding limiter_wf_def
    by (simp add: newLimiter_def Let_def)
qed

lemma getOrCreate_wf: "limiter_wf l \<Longrightarrow> getOrCreateBucket E key l w = (b, l', w') \<Longrightarrow> wf_at key b l' \<and> l_jobs l' = l_jobs l"
proof (cases "lookup_bucket l key")
  case None
  assume a: "limiter_wf l" "getOrCreateBucket E key l w = (b, l', w')"
  have s: "shape (newBucket t key (o_limit (l_opts l)) (o_windowType (l_opts l)) (o_window (l_opts l)))
      = shape_of (l_opts l) key (key \<in> set (l_jobs l))" for t
    using limiter_wfD(5) [OF a(1) None] by (simp add: shape_def shape_of_def newBucket_def NewWindow_def)
  show ?thesis
    using a None wf_put [OF a(1) s] by (auto simp: getOrCreateBucket_def Let_def split_beta)
qed (auto simp: getOrCreateBucket_def wf_at_def)

lemma try_serve_wf:
  assumes "wf_at key b l" "try_serve key n b l = (ok, b', l')"
  shows "wf_at key b' l'" "l_jobs l' = l_jobs l"
proof -
  have c: "wf_at key (recordConsumption n (snd (tryConsume n b))) (put_bucket key (recordConsumption n (snd (tryConsume n b))) l)"
    "wf_at key (snd (tryConsume n b)) (put_bucket key (snd (tryConsume n b)) l)"
    using wf_at_put [OF assms(1)] by simp_all
  have "bm_ok (l_borrowMgr l)" using assms(1) by (simp add: wf_at_def limiter_wf_def)
  then show "wf_at key b' l'" "l_jobs l' = l_jobs l"
    using assms(2) c wf_at_manager [OF c(1)]
    by (auto simp: try_serve_def Let_def split_beta split: if_splits)
qed

lemma current_wf: "limiter_wf l \<Longrightarrow> lookup_bucket l key \<noteq> None \<Longrightarrow> wf_at key (current key b l) l"
  by (auto simp: wf_at_def current_def)

lemma resetWindow_wf:
  assumes "limiter_wf l" "resetWindow E key t l w = Return (e, l', w')"
  shows "wf_at key (current key b l') l'" "l_jobs l' = l_jobs l"
proof -
  obtain c l1 w1 where g: "getOrCreateBucket E key l w = (c, l1, w1)" by (rule prod_cases3)
  note G = getOrCreate_wf [OF assms(1) g]
  let ?c = "resetConsumed (ClearRedisExhausted (snd (drain c)))"
  let ?d = "\<lambda>s. ?c\<lparr>b_window := UpdateWindowStart s (b_window ?c)\<rparr>"
  let ?m = "bm_Reset key (l_borrowMgr l1)"
  have d: "wf_at key (?d s) (put_bucket key (?d s) l1)" for s
    by (rule wf_at_put [OF conjunct1 [OF G]]) (simp only: shape_ops)
  have "bm_ok ?m" using G by (simp add: wf_at_def limiter_wf_def Reset_ok)
  then have "wf_at key (?d s) ((put_bucket key (?d s) l1)\<lparr>l_borrowMgr := ?m\<rparr>)" for s using wf_at_manager [OF d] by blast
  then have "\<exists>c'. wf_at key c' l' \<and> l_jobs l' = l_jobs l"
    using assms(2) g G by (auto simp: resetWindow_def Let_def split_beta split: if_splits option.splits)
  then show "wf_at key (current key b l') l'" "l_jobs l' = l_jobs l"
    by (auto simp: current_def wf_at_def)
qed

lemma maybePreBorrow_wf:
  assumes "wf_at key b l"
  shows "limiter_wf (maybePreBorrow key b l)"
proof (cases "b_preBorrowing b")
  case False
  have wf: "limiter_wf l" "lookup_bucket l key = Some b" using assms by (simp_all add: wf_at_def)
  note D = limiter_wfD [OF wf(1)]
  have sh: "shape b = shape_of (l_opts l) key (key \<in> set (l_jobs l))" using D(6) wf(2) .
  then have new: "key \<notin> set (l_jobs l)" using False by (simp add: shape_def shape_of_def)
  let ?b = "b\<lparr>b_preBorrowing := True\<rparr>"
  have look: "lookup_bucket (maybePreBorrow key b l) k = (if k = key then Some ?b else lookup_bucket l k)" for k
    using False D(1) by (simp add: maybePreBorrow_def TryMarkPreBorrowing_def Let_def lookup_put)
  have sh: "shape ?b = shape_of (l_opts l) key True" using sh by (simp add: shape_def shape_of_def)
  have rest: "shards_ok shardIndex shardCount (l_shards (maybePreBorrow key b l))" "l_jobs (maybePreBorrow key b l) = l_jobs l @ [key]"
    "l_borrowMgr (maybePreBorrow key b l) = l_borrowMgr l" "l_gossiper (maybePreBorrow key b l) = l_gossiper l"
    "l_opts (maybePreBorrow key b l) = l_opts l"
    using False shards_put [OF D(1), of key ?b] by (simp_all add: maybePreBorrow_def TryMarkPreBorrowing_def Let_def)
  show ?thesis
    unfolding limiter_wf_def look rest
    using D(2-4) new sh D(5,6) rest(1) by auto
qed (use assms in \<open>simp add: maybePreBorrow_def TryMarkPreBorrowing_def wf_at_def\<close>)

lemma Acquire_bucket:
  assumes "bm_ok m" "Acquire oor C clk key need on_grant m b w = (r, m', b', w')"
  shows "bm_ok m'" "shape b' = shape b"
  using Acquire_spec [OF assms] by (auto split: sum.splits if_splits)

lemma acquireFromPeers_bucket:
  assumes "acquireFromPeers E key need b l w = Return (r, b', l', w')"
  shows "shape b' = shape b" "\<exists>xs. l' = l\<lparr>l_extras := xs\<rparr>"
proof -
  obtain a where a: "l_acquirer l = Some a" using assms by (cases "l_acquirer l") (auto simp: acquireFromPeers_def)
  obtain t w1 where t: "e_wall E w = (t, w1)" by (cases "e_wall E w")
  obtain extras reps where q: "acquirer_Acquire (e_stub E) (e_lookup E) (e_sched E w1) (e_oor E) (l_gossiper l) t a key
      need refill b w1 = Return (r, extras, reps, b', w')" and l': "l' = l\<lparr>l_extras := l_extras l @ map (Pair key) extras\<rparr>"
    using assms a t
    by (cases "acquirer_Acquire (e_stub E) (e_lookup E) (e_sched E w1) (e_oor E) (l_gossiper l) t a key need refill b w1")
       (auto simp: acquireFromPeers_def split: prod.splits)
  show "\<exists>xs. l' = l\<lparr>l_extras := xs\<rparr>" using l' by blast
  obtain r1 x1 p1 w2 where "acquire_body (e_stub E) (e_lookup E) (e_sched E w1) (e_oor E) (l_gossiper l) t a key need w1 = Return (r1, x1, p1, w2)"
    using q by (cases "acquire_body (e_stub E) (e_lookup E) (e_sched E w1) (e_oor E) (l_gossiper l) t a key need w1")
      (auto simp: acquirer_Acquire_def)
  then show "shape b' = shape b" using q by (auto simp: acquirer_Acquire_def Let_def split: sum.splits if_splits)
qed

lemma decides_wf: "decides E key n re pc l w x l1 w1 \<Longrightarrow> wf_at key b l \<Longrightarrow> wf_at key b l1"
  by (auto simp: decides_def wf_at_def)

lemma allow_loop_wf:
  assumes "allow_loop fuel E key n re pc b l w = Some (Return (r, l', w'))" "wf_at key b l"
  shows "limiter_wf l'"
  using assms
proof (induction fuel arbitrary: re pc b l w)
  case (Suc fuel)
  from Suc.prems(1) show ?case
  proof (cases rule: allow_loop_SucE)
    case (Redis l1 w1 g m b1 w2)
    have l1: "wf_at key b l1" using decides_wf [OF Redis(1) Suc.prems(2)] .
    then have "bm_ok (l_borrowMgr l1)" by (simp add: wf_at_def limiter_wf_def)
    note A = Acquire_bucket [OF this Redis(2)]
    let ?l = "(put_bucket key b1 l1)\<lparr>l_borrowMgr := m\<rparr>"
    have l: "wf_at key b1 ?l" by (rule wf_at_manager [OF wf_at_put [OF l1 A(2)] A(1)])
    have B: "wf_at key b1 (?l\<lparr>l_borrowMgr := m3\<rparr>)" if "Borrowed (e_wall E) key m w2 = (v, m3, w3)" for v m3 w3
      using Borrowed_spec [OF A(1) that] l by (blast intro: wf_at_manager)
    from Redis(3) show ?thesis
    proof (cases rule: redis_round.cases)
      case served
      then show ?thesis using try_serve_wf(1) [OF B] wf_at_wf by blast
    next
      case again
      then show ?thesis using try_serve_wf(1) [OF B] Suc.IH by blast
    next
      case empty
      show ?thesis by (rule Suc.IH [OF empty(2) wf_at_put [OF l]]) simp
    qed (use l wf_at_wf in blast)
  next
    case (Peer l1 w1 p b2 l2 w2)
    note P = acquireFromPeers_bucket [OF Peer(2)]
    have "wf_at key b l2" using decides_wf [OF Peer(1) Suc.prems(2)] P(2) by (auto simp: wf_at_def)
    then have l: "wf_at key b2 (put_bucket key b2 l2)" by (rule wf_at_put) (rule P(1))
    from Peer(3) show ?thesis
    proof (cases rule: peer_round.cases)
      case served
      then show ?thesis using try_serve_wf(1) [OF l] wf_at_wf by blast
    next
      case again
      then show ?thesis using try_serve_wf(1) [OF l] Suc.IH by blast
    next
      case none
      then show ?thesis using Suc.IH l by blast
    qed
  next
    case (Error e)
    show ?thesis by (rule wf_at_wf [OF decides_wf [OF Error(1) Suc.prems(2)]])
  next
    case Deny
    show ?thesis by (rule wf_at_wf [OF decides_wf [OF Deny(1) Suc.prems(2)]])
  qed
qed simp

lemma AllowN_wf:
  assumes "limiter_wf l" "AllowN fuel E key n l w = Some (Return (r, l', w'))"
  shows "limiter_wf l'"
proof (cases "l_closed l")
  case False
  obtain t w1 where t: "e_clock E w = (t, w1)" by (cases "e_clock E w")
  obtain b l1 w2 where g: "getOrCreateBucket E key l w1 = (b, l1, w2)" by (rule prod_cases3)
  let ?b = "updateAccess (UnixMilli t) b" and ?l = "put_bucket key (updateAccess (UnixMilli t) b) l1"
  obtain ok b2 l2 where T: "try_serve key n ?b ?l = (ok, b2, l2)" by (rule prod_cases3)
  have "wf_at key ?b ?l" by (rule wf_at_put [OF conjunct1 [OF getOrCreate_wf [OF assms(1) g]]]) simp
  then have l2: "wf_at key b2 l2" using try_serve_wf(1) T by blast
  obtain t' w3 where t': "e_clock E w2 = (t', w3)" by (cases "e_clock E w2")
  consider (hit) "l' = l2 \<or> l' = maybePreBorrow key b2 l2"
    | (loop) "allow_loop fuel E key n (IsRedisExhausted b2) False b2 l2 w3 = Some (Return (r, l', w'))"
    | (reset) e la wa where "resetWindow E key (UnixMilli t') l2 w3 = Return (e, la, wa)"
        "(let (ok, b3, l3) = try_serve key n (current key b2 la) la
          in if ok then Some (Return (Inr True, l3, wa))
             else allow_loop fuel E key n (IsRedisExhausted b3) False b3 l3 wa) = Some (Return (r, l', w'))"
    using assms(2) [unfolded AllowN_def t g Let_def prod.case T] False t'
    by (auto simp: allow_slow_def Let_def split: if_splits go.splits)
  then show ?thesis
  proof cases
    case hit
    then show ?thesis using l2 wf_at_wf maybePreBorrow_wf by blast
  next
    case loop
    show ?thesis by (rule allow_loop_wf [OF loop l2])
  next
    case reset
    obtain ok3 b3 l3 where T3: "try_serve key n (current key b2 la) la = (ok3, b3, l3)" by (rule prod_cases3)
    have "wf_at key b3 l3"
      using try_serve_wf(1) [OF resetWindow_wf(1) [OF wf_at_wf [OF l2] reset(1)] T3] .
    then show ?thesis using reset(2) T3 allow_loop_wf wf_at_wf by (cases ok3) auto
  qed
qed (use assms in \<open>auto simp: AllowN_def\<close>)

lemma preBorrow_job_wf:
  assumes "limiter_wf l" "preBorrow_job E key l w = (l', w')" "key \<in> set (l_jobs l)"
  shows "limiter_wf l'" "l_jobs l' = remove1 key (l_jobs l)" "l_closed l' = l_closed l"
proof -
  note D = limiter_wfD [OF assms(1)]
  obtain b where b: "lookup_bucket l key = Some b" using assms(1,3) by (auto simp: limiter_wf_def)
  obtain r m b1 w1 where A: "Acquire (e_oor E) (e_redis E) (e_wall E) key 0 on_grant (l_borrowMgr l) b w = (r, m, b1, w1)"
    by (rule prod_cases4)
  note ac = Acquire_bucket [OF D(2) A]
  let ?b = "ClearPreBorrowing b1"
  have l': "l' = (put_bucket key ?b l)\<lparr>l_borrowMgr := m, l_jobs := remove1 key (l_jobs l)\<rparr>"
    using assms(2) b A by (simp add: preBorrow_job_def)
  then show "l_jobs l' = remove1 key (l_jobs l)" "l_closed l' = l_closed l" by simp_all
  have look: "lookup_bucket l' k = (if k = key then Some ?b else lookup_bucket l k)" for k
    using D(1) by (simp add: l' lookup_put)
  have set: "set (l_jobs l') = set (l_jobs l) - {key}" using D(4) by (simp add: l')
  have "shape b1 = shape_of (l_opts l) key True" using ac(2) D(6) [OF b] assms(3) by simp
  then have sh: "shape ?b = shape_of (l_opts l) key False" by (simp add: shape_def shape_of_def ClearPreBorrowing_def)
  have rest: "shards_ok shardIndex shardCount (l_shards l')" "bm_ok (l_borrowMgr l')" "gossip_ok (l_gossiper l')"
    "distinct (l_jobs l')" "l_opts l' = l_opts l"
    using D(1-4) shards_put [OF D(1), of key ?b] ac(1) by (simp_all add: l')
  show "limiter_wf l'"
    unfolding limiter_wf_def look set rest(5)
    using rest(1-4) sh D(5,6) by auto
qed

lemma deliver_extra_wf: "limiter_wf l \<Longrightarrow> deliver_extra E l w = (l', w') \<Longrightarrow> limiter_wf l'"
proof (cases "l_extras l")
  case (Cons x rest)
  assume a: "limiter_wf l" "deliver_extra E l w = (l', w')"
  obtain key n where x: "x = (key, n)" by (cases x)
  obtain b l1 w1 where g: "getOrCreateBucket E key l w = (b, l1, w1)" by (rule prod_cases3)
  have "wf_at key (refill n b) (put_bucket key (refill n b) l1)"
    by (rule wf_at_put [OF conjunct1 [OF getOrCreate_wf [OF a(1) g]]]) simp
  then show ?thesis using a(2) Cons x g by (auto simp: deliver_extra_def wf_at_def)
qed (simp add: deliver_extra_def)

lemma token_functions_wf:
  assumes "limiter_wf l" "tokenAccessor E k n (l, w) = (r, (l', w')) \<or> tokenTransferer E k n (l, w) = (r, (l', w'))"
  shows "limiter_wf l'"
proof -
  obtain b l1 w1 where g: "getOrCreateBucket E k l w = (b, l1, w1)" by (rule prod_cases3)
  have l1: "wf_at k b l1" using getOrCreate_wf [OF assms(1) g] by blast
  then have "wf_at k (snd (tryConsume m b)) (put_bucket k (snd (tryConsume m b)) l1)" for m by (rule wf_at_put) simp
  then have "limiter_wf l1" "limiter_wf (put_bucket k (snd (tryConsume m b)) l1)" for m using l1 wf_at_wf by blast+
  then show ?thesis
    using assms(2) g by (auto simp: tokenAccessor_def tokenTransferer_def Let_def split_beta split: if_splits)
qed

lemma TransferTokens_wf:
  assumes "limiter_wf l" "TransferTokens (limiter_server E opts) q (l, w) = (r, (l', w'))"
  shows "limiter_wf l'"
proof -
  obtain r1 l1 w1 where a: "tokenAccessor E (tr_LimitKey q) (tr_Requested q) (l, w) = (r1, (l1, w1))" by (rule prod_cases3)
  have "l' = l \<or> l' = l1 \<or> (\<exists>n r2. tokenTransferer E (tr_LimitKey q) n (l1, w1) = (r2, (l', w')))"
    using assms(2) a unfolding TransferTokens_def limiter_server_fields
    by (auto simp: Let_def split_beta prod_eq_iff split: option.splits sum.splits if_splits) 
  moreover have "limiter_wf l1" using token_functions_wf [OF assms(1) disjI1 [OF a]] .
  ultimately show ?thesis
    using assms(1) by (elim disjE exE) (simp_all, erule token_functions_wf, erule disjI2)
qed

lemma server_Gossip_wf:
  assumes "limiter_wf l" "server_Gossip (limiter_server E opts) origin consumed borrowed (l, w) = (r, (l', w'))"
  shows "limiter_wf l'"
  using assms limiter_wfD(3) [OF assms(1)]
  by (auto simp: server_Gossip_def limiter_server_def SetGossipHandler_def gossipHandler_def Let_def split_beta
      intro: wf_gossiper gossip_ok_UpdatePeer)

lemma evict_wf:
  assumes "limiter_wf l"
  shows "limiter_wf (evictInactiveKeys E se now l)"
proof -
  let ?l = "evictInactiveKeys E se now l"
  note D = limiter_wfD [OF assms]
  note L = evictInactiveKeys_lookup(1,2) [OF D(1), of E se now]
  have r: "l_jobs ?l = l_jobs l" "l_opts ?l = l_opts l" "bm_ok (l_borrowMgr ?l)" "gossip_ok (l_gossiper ?l)"
    using D(2,3) by (simp_all add: evictInactiveKeys_def Let_def EvictKeys_ok gossip_ok_EvictKeys)
  have "\<not> evicted se now l k" if "k \<in> set (l_jobs l)" for k
    using D(6) [of k] that by (auto simp: evicted_def evictable_def isPreBorrowing_def shape_def shape_of_def)
  then show ?thesis
    using L D(4,5,6) r unfolding limiter_wf_def by auto
qed

lemma gossipOnce_wf:
  assumes "limiter_wf l" "gossipOnce now peers l = (l', msgs)"
  shows "limiter_wf l'"
proof -
  have "bm_ok (snd (AllBorrowed n t m))" if "bm_ok m" for n t m
  proof -
    have "live_shard ttl t = filter (\<lambda>(k, ks). \<not> lease_expired ttl t ks)" for ttl
      by (rule ext) (simp add: live_shard_def)
    then show ?thesis using that fnv.shards_ok_filter by (simp add: AllBorrowed_def Let_def)
  qed
  then have "limiter_wf (l\<lparr>l_borrowMgr := snd (AllBorrowed n t (l_borrowMgr l))\<rparr>)" for n t
    using wf_manager [OF assms(1)] limiter_wfD(2) [OF assms(1)] by blast
  then show ?thesis using assms(2) by (auto simp: gossipOnce_def Let_def split_beta)
qed

lemma gossip_ack_wf: "limiter_wf l \<Longrightarrow> limiter_wf (gossip_ack msg l)"
  by (simp add: gossip_ack_def split: option.split)

lemma peer_removed_wf: "limiter_wf l \<Longrightarrow> limiter_wf (peer_removed E i l)"
  by (auto simp: peer_removed_def limiter_wf_def gossip_ok_RemovePeer lookup_bucket_def)

subsection \<open>Closing\<close>

text \<open>
  The whole of \<^verbatim>\<open>Close\<close>: the pre-borrows are waited for, the entry is deregistered (an error
  there is only logged), and every connection is closed. Stopping the server is left to gRPC.
\<close>

definition limiter_Close ::
    "('w, 'r, 'c) env \<Rightarrow> ('w, 'v) Membership \<Rightarrow> 'c Mesh \<Rightarrow> 'r limiter \<Rightarrow> 'w \<Rightarrow> err option \<times> 'c Mesh \<times> 'c list \<times> 'r limiter \<times> 'w" where
  "limiter_Close E M m l w =
     (case Close E l w of
        (Some e, l1, w1) \<Rightarrow> (Some e, m, [], l1, w1)
      | (None, l1, w1) \<Rightarrow>
          let (_, w2) = Deregister M (o_instanceID (l_opts l)) w1;
              (m', closed) = mesh_Stop m
          in (None, m', closed, l1, w2))"

lemma jobs_done:
  fixes E :: "('w, 'r, 'c) env" and l :: "'r limiter"
  assumes "limiter_wf l" "fold (\<lambda>key (l, w). preBorrow_job E key l w) ks (l, w) = (l', w')" "l_jobs l = ks"
  shows "limiter_wf l' \<and> l_jobs l' = [] \<and> l_closed l' = l_closed l"
  using assms
proof (induction ks arbitrary: l w)
  case (Cons k ks)
  obtain l1 w1 where j: "preBorrow_job E k l w = (l1, w1)" by (cases "preBorrow_job E k l w")
  have k: "k \<in> set (l_jobs l)" using Cons.prems(3) by simp
  note J = preBorrow_job_wf [OF Cons.prems(1) j k]
  have f: "fold (\<lambda>key (l, w). preBorrow_job E key l w) ks (l1, w1) = (l', w')" using Cons.prems(2) j by simp
  have "l_jobs l1 = ks" using J(2) Cons.prems(3) by simp
  then show ?case using Cons.IH [OF J(1) f] J(3) by simp
qed simp

lemma Close_spec:
  assumes "limiter_wf l" "Close E l w = (e, l', w')"
  shows "if l_closed l then e = Some ErrClosed \<and> l' = l \<and> w' = w
    else e = None \<and> limiter_wf l' \<and> l_jobs l' = [] \<and> l_closed l'"
proof (cases "l_closed l")
  case False
  let ?l = "l\<lparr>l_closed := True\<rparr>"
  obtain l1 w1 where f: "fold (\<lambda>key (l, w). preBorrow_job E key l w) (l_jobs l) (?l, w) = (l1, w1)"
    by (cases "fold (\<lambda>key (l, w). preBorrow_job E key l w) (l_jobs l) (?l, w)")
  have "limiter_wf l1 \<and> l_jobs l1 = [] \<and> l_closed l1 = l_closed ?l"
    by (rule jobs_done [OF _ f]) (use assms(1) in simp_all)
  moreover have "e = None" "l' = l1" using assms(2) False f by (simp_all add: Close_def)
  ultimately show ?thesis using False by simp
qed (use assms in \<open>simp add: Close_def\<close>)

lemma limiter_Close_wf:
  assumes "limiter_wf l" "limiter_Close E M m l w = (e, m', conns, l', w')"
  shows "limiter_wf l'"
proof -
  obtain e1 l1 w1 where c: "Close E l w = (e1, l1, w1)" by (rule prod_cases3)
  have "l' = l1" using assms(2) c by (cases e1) (auto simp: limiter_Close_def split_beta)
  then show ?thesis using Close_spec [OF assms(1) c] assms(1) by (simp split: if_splits)
qed

subsection \<open>Reachable states\<close>

text \<open>
  A step of a limiter, with any world: a call of \<^verbatim>\<open>AllowN\<close>, the end of a running pre-borrow, extra
  tokens handed back, the two requests of the server, a gossip round and an acknowledgement, a
  round of the janitor, a peer that is gone, and \<^verbatim>\<open>Close\<close>.
\<close>

inductive limiter_step :: "('w, 'r, 'c) env \<Rightarrow> 'r limiter \<Rightarrow> 'r limiter \<Rightarrow> bool" for E :: "('w, 'r, 'c) env" where
  call: "AllowN fuel E key n l w = Some (Return (r, l', w')) \<Longrightarrow> limiter_step E l l'"
| pre_borrow: "key \<in> set (l_jobs l) \<Longrightarrow> preBorrow_job E key l w = (l', w') \<Longrightarrow> limiter_step E l l'"
| extra: "deliver_extra E l w = (l', w') \<Longrightarrow> limiter_step E l l'"
| transfer: "TransferTokens (limiter_server E opts) q (l, w) = (ans, (l', w')) \<Longrightarrow> limiter_step E l l'"
| gossip: "server_Gossip (limiter_server E opts) origin consumed borrowed (l, w) = (e, (l', w')) \<Longrightarrow> limiter_step E l l'"
| round: "gossipOnce now (peers :: 'c Peer list) l = (l', msgs) \<Longrightarrow> limiter_step E l l'"
| ack: "limiter_step E l (gossip_ack (msg :: 'c gossip_msg) l)"
| evict: "limiter_step E l (evictInactiveKeys E shouldEvict nowMs l)"
| removed: "limiter_step E l (peer_removed E i l)"
| close: "Close E l w = (c, l', w') \<Longrightarrow> limiter_step E l l'"

inductive_cases limiter_stepE [elim]: "limiter_step E l l'"

lemma step_wf: "limiter_step E l l' \<Longrightarrow> limiter_wf l \<Longrightarrow> limiter_wf l'"
proof (induction rule: limiter_step.induct)
  case (call fuel key n l w r l' w')
  show ?case by (rule AllowN_wf [OF call(2,1)])
next
  case (pre_borrow key l w l' w')
  show ?case by (rule preBorrow_job_wf(1) [OF pre_borrow(3,2,1)])
next
  case (extra l w l' w')
  show ?case by (rule deliver_extra_wf [OF extra(2,1)])
next
  case (transfer opts q l w ans l' w')
  show ?case by (rule TransferTokens_wf [OF transfer(2,1)])
next
  case (gossip opts origin consumed borrowed l w e l' w')
  show ?case by (rule server_Gossip_wf [OF gossip(2,1)])
next
  case (round now peers l l' msgs)
  show ?case by (rule gossipOnce_wf [OF round(2,1)])
next
  case (close l w c l' w')
  show ?case using Close_spec [OF close(2,1)] close(2) by (simp split: if_splits)
qed (simp_all add: gossip_ack_wf evict_wf peer_removed_wf)

lemma reachable_wf: "(limiter_step E)\<^sup>*\<^sup>* (newLimiter opts r) l \<Longrightarrow> limiter_wf l"
  by (induction rule: rtranclp_induct) (auto intro: newLimiter_wf step_wf)


text \<open>
  C17. The first \<^verbatim>\<open>Close\<close> succeeds and leaves nothing running: every pre-borrow has ended and has
  cleared the flag of its bucket, every connection to a peer is closed, and the entry of the instance
  is gone if Redis deleted it. From then on a call is refused with \<^verbatim>\<open>ErrClosed\<close> before it touches
  anything, and so is a second \<^verbatim>\<open>Close\<close>.
\<close>
theorem Close_finishes:
  assumes "(limiter_step E)\<^sup>*\<^sup>* (newLimiter opts r) l" "\<not> l_closed l" "member_store M entries"
    and "limiter_Close E M m l w = (e, m', conns, l', w')"
  shows "e = None \<and> l_jobs l' = [] \<and> (\<forall>k b. lookup_bucket l' k = Some b \<longrightarrow> \<not> b_preBorrowing b) \<and>
    conns = map snd (m_conns m) \<and> m_conns m' = [] \<and>
    (\<forall>l1 w1. Close E l w = (None, l1, w1) \<and>
        fst (HDel (mb_client M) (hashKey M) [o_instanceID (l_opts l)] w1) = None \<longrightarrow>
      entries w' (o_instanceID (l_opts l)) = None) \<and>
    limiter_Close E M m' l' w2 = (Some ErrClosed, m', [], l', w2) \<and>
    AllowN fuel E key n l' w2 = Some (Return (Inl ErrClosed, l', w2))"
proof -
  obtain e1 l1 w1 where c: "Close E l w = (e1, l1, w1)" by (rule prod_cases3)
  have S: "e1 = None" "limiter_wf l1" "l_jobs l1 = []" "l_closed l1"
    using Close_spec [OF reachable_wf [OF assms(1)] c] assms(2) by simp_all
  obtain d w3 where d: "Deregister M (o_instanceID (l_opts l)) w1 = (d, w3)"
    by (cases "Deregister M (o_instanceID (l_opts l)) w1")
  have r: "e = None" "l' = l1" "w' = w3" "conns = map snd (m_conns m)" "m_conns m' = []"
    using assms(4) c d S(1) by (auto simp: limiter_Close_def mesh_Stop_def)
  have "\<not> b_preBorrowing b" if "lookup_bucket l1 k = Some b" for k b
    using limiter_wfD(6) [OF S(2) that] S(3) by (simp add: shape_def shape_of_def)
  moreover have "entries w3 (o_instanceID (l_opts l)) = None"
    if "fst (HDel (mb_client M) (hashKey M) [o_instanceID (l_opts l)] w1) = None"
  proof -
    have "HDel (mb_client M) (hashKey M) [o_instanceID (l_opts l)] w1 = (None, w3)"
      using that d by (cases "HDel (mb_client M) (hashKey M) [o_instanceID (l_opts l)] w1") (auto simp: Deregister_def)
    then show ?thesis using member_store.hdel_ok [OF assms(3)] by simp
  qed
  ultimately show ?thesis
    using r S c d by (simp add: limiter_Close_def Close_def AllowN_def del: map_of_eq_Some_iff)
qed

subsection \<open>A run\<close>

text \<open>
  An instance that shares a small membership, with a Redis that grants one token per borrow. A call
  for no tokens on a new key creates its bucket and starts a pre-borrow.
\<close>

definition wf_env :: "(mem_members, unit, string) env" where
  "wf_env = \<lparr>e_oor = \<lambda>_. 0, e_redis = \<lparr>EvalSha = \<lambda>_ _ _ w. (Inr (RInt 1), w), Eval = \<lambda>_ _ _ w. (Inr (RInt 1), w)\<rparr>,
     e_wall = Pair 0, e_clock = Pair 0,
     e_stub = \<lambda>_ _ w. (Inl ''unavailable'', w), e_lookup = \<lambda>_. None,
     e_sched = \<lambda>_. \<lparr>sch_order = id, sch_done = None, sch_doneErr = '''', sch_ctxErr = \<lambda>_. None\<rparr>,
     e_decide = Some default_Decide, e_routerEvict = None, e_routerRemovePeer = None\<rparr>"

lemma demo_start:
  "\<exists>l b. (limiter_step wf_env)\<^sup>*\<^sup>* (newLimiter demo_options ()) l \<and> lookup_bucket l ''k'' = Some b \<and>
     l_jobs l = [''k''] \<and> \<not> l_closed l \<and> o_instanceID (l_opts l) = ''i1''"
proof -
  let ?l = "demo_limiter" and ?m = "demo_members"
  have env [simp]: "e_clock wf_env w = (0, w)" "e_wall wf_env w = (0, w)" for w
    by (simp_all add: wf_env_def)
  let ?b = "newBucket 0 ''k'' (o_limit demo_options) (o_windowType demo_options) (o_window demo_options)"
  have fresh: "getOrCreateBucket wf_env ''k'' ?l ?m = (?b, put_bucket ''k'' ?b ?l, ?m)"
    by (simp add: getOrCreateBucket_def Let_def)
  let ?b2 = "recordConsumption 0 (updateAccess 0 ?b)"
  let ?l2 = "(put_bucket ''k'' ?b2 (put_bucket ''k'' (updateAccess 0 ?b) (put_bucket ''k'' ?b ?l)))
      \<lparr>l_borrowMgr := RecordConsumption ''k'' 0 (l_borrowMgr ?l)\<rparr>"
  have b2: "remaining ?b2 = 0" "b_preBorrowing ?b2 = False"
    by (simp_all add: recordConsumption_def updateAccess_def newBucket_def remaining_def Remaining_def NewLocalBucket_def)
  have "0 < preBorrowTrigger oor a t" for oor a t
    by (simp add: preBorrowTrigger_def Let_def word_greater_zero_iff)
  then have low: "belowPreBorrowThreshold oor a t ?b2" for oor a t
    by (simp only: belowPreBorrowThreshold_def b2)
  have serve: "try_serve ''k'' 0 (updateAccess 0 ?b) (put_bucket ''k'' (updateAccess 0 ?b) (put_bucket ''k'' ?b ?l)) = (True, ?b2, ?l2)"
    by (simp add: try_serve_def tryConsume_def TryConsume_def newBucket_def NewLocalBucket_def updateAccess_def Let_def)
  have on: "o_preBorrowEnabled demo_options" by (simp add: demo_options_def defaultOptions_def)
  have run: "AllowN 0 wf_env ''k'' 0 ?l ?m = Some (Return (Inr True, maybePreBorrow ''k'' ?b2 ?l2, ?m))"
    unfolding AllowN_def env fresh Let_def prod.case UnixMilli_def
    using serve on low by simp
  have "limiter_step wf_env ?l (maybePreBorrow ''k'' ?b2 ?l2)"
    by (rule limiter_step.call [OF run])
  then have "(limiter_step wf_env)\<^sup>*\<^sup>* (newLimiter demo_options ()) (maybePreBorrow ''k'' ?b2 ?l2)"
    by (simp add: demo_limiter_def r_into_rtranclp)
  moreover have "lookup_bucket (maybePreBorrow ''k'' ?b2 ?l2) ''k'' = Some (?b2\<lparr>b_preBorrowing := True\<rparr>)"
    "l_jobs (maybePreBorrow ''k'' ?b2 ?l2) = [''k'']" "\<not> l_closed (maybePreBorrow ''k'' ?b2 ?l2)"
    "o_instanceID (l_opts (maybePreBorrow ''k'' ?b2 ?l2)) = ''i1''"
    using b2(2) by (simp_all add: maybePreBorrow_def TryMarkPreBorrowing_def Let_def lookup_put shards_put)
       (simp_all add: demo_limiter_def newLimiter_def demo_options_def Let_def)
  ultimately show ?thesis by blast
qed


theorem Close_finishes_witness:
  "\<exists>l m' l' w'. l_jobs l = [''k''] \<and>
     limiter_Close wf_env mem_membership demo_mesh l demo_members = (None, m', map snd (m_conns demo_mesh), l', w') \<and>
     l_jobs l' = [] \<and> map_of (fst w') ''i1'' = None \<and>
     AllowN 8 wf_env ''k'' 5 l' w' = Some (Return (Inl ErrClosed, l', w'))"
proof -
  obtain l b where l: "(limiter_step wf_env)\<^sup>*\<^sup>* (newLimiter demo_options ()) l" "l_jobs l = [''k'']"
    "\<not> l_closed l" "o_instanceID (l_opts l) = ''i1''"
    using demo_start by blast
  obtain e m' conns l' w' where c: "limiter_Close wf_env mem_membership demo_mesh l demo_members = (e, m', conns, l', w')"
    by (cases "limiter_Close wf_env mem_membership demo_mesh l demo_members") auto
  note C = Close_finishes [OF l(1,3) mem_members.member_store_axioms c]
  obtain e1 l1 w1 where c1: "Close wf_env l demo_members = (e1, l1, w1)" by (rule prod_cases3)
  have "e1 = None" using c1 l(3) by (auto simp: Close_def split: prod.splits)
  moreover have "fst (HDel (mb_client mem_membership) (hashKey mem_membership) [''i1''] w1) = None"
    by (simp add: demo_member_defs split_beta)
  ultimately have "(case w' of (m, t) \<Rightarrow> map_of m) ''i1'' = None"
    using C c1 l(4) by auto
  then have "map_of (fst w') ''i1'' = None" by (simp add: split_beta)
  moreover have "e = None" "conns = map snd (m_conns demo_mesh)" "l_jobs l' = []"
    "AllowN 8 wf_env ''k'' 5 l' w' = Some (Return (Inl ErrClosed, l', w'))"
    using C by blast+
  ultimately show ?thesis using c l(2) by blast
qed

subsection \<open>Windows below a millisecond\<close>

text \<open>
  C38. The options are not validated: with a window shorter than a millisecond every call for at
  least one token of a new key panics, since the reset of the window divides by its length in
  milliseconds.
\<close>
theorem short_window_panics:
  assumes "\<not> l_closed l" "lookup_bucket l key = None" "shards_ok shardIndex shardCount (l_shards l)"
    and "Milliseconds (o_window (l_opts l)) = 0" "0 < n" "uint n < 2 ^ 63"
    and "\<And>w. 0 \<le> sint (UnixMilli (fst (e_clock E w)))"
  shows "AllowN fuel E key n l w = Some (Panic ''integer divide by zero'')"
proof -
  obtain t w1 where t: "e_clock E w = (t, w1)" by (cases "e_clock E w")
  obtain t1 w2 where w2: "e_wall E w1 = (t1, w2)" by (cases "e_wall E w1")
  let ?c = "newBucket t1 key (o_limit (l_opts l)) (o_windowType (l_opts l)) (o_window (l_opts l))"
  let ?b = "updateAccess (UnixMilli t) ?c"
  let ?l1 = "put_bucket key ?c l" let ?l2 = "put_bucket key ?b (put_bucket key ?b ?l1)"
  have g: "getOrCreateBucket E key l w1 = (?c, ?l1, w2)"
    using assms(2) w2 by (simp add: getOrCreateBucket_def Let_def)
  have "sint n = uint n" using assms(6) by (rule sint_small)
  then have "0 < sint n" using assms(5) by (simp add: word_less_def)
  then have serve: "try_serve key n ?b (put_bucket key ?b ?l1) = (False, ?b, ?l2)"
    by (simp add: try_serve_def tryConsume_def TryConsume_def newBucket_def NewLocalBucket_def updateAccess_def Let_def)
  obtain t2 w3 where c: "e_clock E w2 = (t2, w3)" by (cases "e_clock E w2")
  have "needsReset (UnixMilli t2) ?b"
    using assms(4) assms(7) [of w2] c
    by (simp add: needsReset_def NeedsReset_def updateAccess_def newBucket_def NewWindow_def)
  moreover have "resetWindow E key (UnixMilli t2) ?l2 w3 = Panic ''integer divide by zero''"
    using assms(4) by (simp add: resetWindow_def Let_def split_beta)
  ultimately show ?thesis
    using assms(1) t g serve c by (simp add: AllowN_def allow_slow_def Let_def)
qed

theorem short_window_panics_witness:
  "AllowN 4 wf_env ''k'' 1 (newLimiter (WithWindow 500000 defaultOptions) ()) demo_members
     = Some (Panic ''integer divide by zero'')"
proof -
  let ?l = "newLimiter (WithWindow 500000 defaultOptions) () :: unit limiter"
  have ok: "lookup_bucket ?l ''k'' = None" "shards_ok shardIndex shardCount (l_shards ?l)"
    using shardIndex_less [of "''k''"] limiter_wfD(1) [OF newLimiter_wf, of "WithWindow 500000 defaultOptions" "()"]
    by (simp_all add: lookup_bucket_def newLimiter_def Let_def)
  have ms: "Milliseconds (o_window (l_opts ?l)) = 0"
    by (simp add: newLimiter_def Let_def WithWindow_def defaultOptions_def Milliseconds_def i64_div_def)
  show ?thesis
    by (rule short_window_panics [OF _ ok ms])
       (simp_all add: newLimiter_def Let_def wf_env_def UnixMilli_def)
qed

end
