(* ===== verification/Goroutines.thy ===== *)
theory Goroutines
  imports Limiter_Wf
begin

text \<open>
  The goroutines of a limiter (\<^verbatim>\<open>limiter.go\<close>, \<^verbatim>\<open>internal/borrow/manager.go\<close>,
  \<^verbatim>\<open>internal/peer/acquirer.go\<close>): calls of \<^verbatim>\<open>AllowN\<close>, pre-borrows, requests of peers and extra tokens
  handed back, interleaved at every access to shared state. An access is one atomic operation of the
  code: an atomic variable, a section under a mutex of a shard or of the sizer, a call to Redis or to
  the router. The mutex of a bucket and the \<^verbatim>\<open>singleflight\<close> groups are held across such accesses and
  are part of the state. The operations are those of the components; \<open>Goroutines_Solo\<close> shows that
  a call that is not interrupted is \<^verbatim>\<open>AllowN\<close>.
\<close>

subsection \<open>State\<close>

text \<open>
  A goroutine holds a pointer to a bucket. The janitor may remove the bucket from its shard
  meanwhile: the pointer then refers to one of the buckets nobody can look up any more.
\<close>

datatype ptr = Live | Orphan nat

text \<open>A history of the tokens of each key.\<close>

datatype event = Delivered u64 | Served u64 | Sent u64 | Drained u64

record ('w, 'r) shared =
  s_lim :: "'r limiter"
  s_world :: 'w
  s_orphans :: "(string \<times> bucket) list"
  s_locks :: "(string \<times> ptr) list"
  s_borrowing :: "string list"
  s_probing :: "string list"
  s_log :: "(string \<times> event) list"

definition get_bucket :: "string \<Rightarrow> ptr \<Rightarrow> ('w, 'r) shared \<Rightarrow> bucket option" where
  "get_bucket key p s = (case p of
     Live \<Rightarrow> lookup_bucket (s_lim s) key
   | Orphan i \<Rightarrow> if i < length (s_orphans s) \<and> fst (s_orphans s ! i) = key then Some (snd (s_orphans s ! i)) else None)"

definition set_bucket :: "string \<Rightarrow> ptr \<Rightarrow> bucket \<Rightarrow> ('w, 'r) shared \<Rightarrow> ('w, 'r) shared" where
  "set_bucket key p b s = (case p of
     Live \<Rightarrow> s\<lparr>s_lim := put_bucket key b (s_lim s)\<rparr>
   | Orphan i \<Rightarrow> s\<lparr>s_orphans := (s_orphans s)[i := (key, b)]\<rparr>)"

text \<open>
  Where a goroutine is, with its local variables. \<open>site\<close> is which of the four \<^verbatim>\<open>tryConsume\<close> of
  \<^verbatim>\<open>AllowN\<close>; \<open>kont\<close> is who called \<^verbatim>\<open>borrowMgr.Acquire\<close>, a call or a pre-borrow.
\<close>

datatype site = Fast | AfterReset | AfterRedis bool bool | AfterPeer bool

datatype kont = KAllow u64 ptr bool bool | KPre ptr

text \<open>
  The call with its \<^verbatim>\<open>tryConsume\<close> and what follows it, the reset of the window, the flight of
  \<^verbatim>\<open>borrowMgr.Acquire\<close>, the flight of the acquirer, and the rest: the end of a pre-borrow (\<open>B\<close>), the two
  token functions of the server (\<open>S\<close>, \<open>T\<close>), and extra tokens handed back (\<open>X\<close>).
\<close>

datatype call_pc = AStart | ALookup | ATouch ptr i64 | AConsume ptr site | ACount ptr site | ASize ptr site
  | ABelow ptr | AMark ptr | AClock ptr | ANeeds ptr i64 | AExhausted ptr | ADecide ptr bool bool
  | ABooked ptr bool bool | AMarkEx ptr bool

datatype reset_pc = RLookup i64 | RLock i64 ptr | RCheck i64 ptr | RPool i64 ptr | RDrain i64 ptr | RClear i64 ptr
  | RZero i64 ptr | RWindow i64 ptr | RForget ptr | RUnlock ptr

datatype flight_pc = FEnter | FWait | FCompute | FPool u64 | FClear u64 | FRefill u64 | FRecord u64
  | FLeave "err + u64" | FShared "err + u64"

datatype probe_pc = PEnter | PWait | PAsk | PRefill u64 | PLeave "err + u64" | PShared "err + u64"

datatype other_pc = BClear ptr | BDone | SLook u64 | SRem u64 ptr | TLook u64 | TRem u64 ptr | TConsume u64 ptr
  | XLook u64 | XRefill u64 ptr

datatype pc = Call u64 call_pc | Reset u64 ptr reset_pc | Flight kont flight_pc | Probe u64 ptr bool probe_pc
  | Other other_pc | Returned "err + bool" | Ended | Panicked string

text \<open>What a step does to other goroutines: start one, or hand out the result of a flight.\<close>

datatype action = Quiet | Spawn pc | Borrow_result "err + u64" | Probe_result "err + u64"

fun k_ptr :: "kont \<Rightarrow> ptr" where
  "k_ptr (KAllow n p re pchk) = p"
| "k_ptr (KPre p) = p"

fun k_need :: "kont \<Rightarrow> u64" where
  "k_need (KAllow n p re pchk) = n"
| "k_need (KPre p) = 0"

subsection \<open>Steps\<close>

definition quiet :: "pc \<Rightarrow> ('w, 'r) shared \<Rightarrow> (pc \<times> action \<times> ('w, 'r) shared) option" where
  "quiet q s = Some (q, Quiet, s)"

definition on_bucket ::
    "string \<Rightarrow> ptr \<Rightarrow> (bucket \<Rightarrow> 'a \<times> bucket) \<Rightarrow> ('a \<Rightarrow> pc) \<Rightarrow> ('a \<Rightarrow> event list) \<Rightarrow> ('w, 'r) shared
     \<Rightarrow> (pc \<times> action \<times> ('w, 'r) shared) option" where
  "on_bucket key p f q ev s =
     (case get_bucket key p s of
        None \<Rightarrow> None
      | Some b \<Rightarrow> let (x, b') = f b; s' = set_bucket key p b' s
                  in quiet (q x) (s'\<lparr>s_log := s_log s' @ map (Pair key) (ev x)\<rparr>))"

definition look_up ::
    "('w, 'r, 'c) env \<Rightarrow> string \<Rightarrow> pc \<Rightarrow> ('w, 'r) shared \<Rightarrow> (pc \<times> action \<times> ('w, 'r) shared) option" where
  "look_up E key q s =
     (let (_, l, w) = getOrCreateBucket E key (s_lim s) (s_world s) in quiet q (s\<lparr>s_lim := l, s_world := w\<rparr>))"

definition manage :: "(BorrowManager \<Rightarrow> BorrowManager) \<Rightarrow> ('w, 'r) shared \<Rightarrow> ('w, 'r) shared" where
  "manage f s = s\<lparr>s_lim := (s_lim s)\<lparr>l_borrowMgr := f (l_borrowMgr (s_lim s))\<rparr>\<rparr>"

fun failed_at :: "u64 \<Rightarrow> ptr \<Rightarrow> site \<Rightarrow> pc" where
  "failed_at n p Fast = Call n (AClock p)"
| "failed_at n p AfterReset = Call n (AExhausted p)"
| "failed_at n p (AfterRedis re pchk) = Call n (ADecide p re pchk)"
| "failed_at n p (AfterPeer re) = Call n (ADecide p re True)"

definition touch ::
    "string \<Rightarrow> ptr \<Rightarrow> (bucket \<Rightarrow> bucket) \<Rightarrow> pc \<Rightarrow> ('w, 'r) shared \<Rightarrow> (pc \<times> action \<times> ('w, 'r) shared) option" where
  "touch key p f q = on_bucket key p (\<lambda>b. ((), f b)) (\<lambda>_. q) (\<lambda>_. [])"

definition read_bucket ::
    "string \<Rightarrow> ptr \<Rightarrow> (bucket \<Rightarrow> pc) \<Rightarrow> ('w, 'r) shared \<Rightarrow> (pc \<times> action \<times> ('w, 'r) shared) option" where
  "read_bucket key p q s = (case get_bucket key p s of None \<Rightarrow> None | Some b \<Rightarrow> quiet (q b) s)"

text \<open>
  The step of a goroutine of \<open>key\<close>; \<open>None\<close> is waiting, for a mutex or for the result of a flight.
  First \<^verbatim>\<open>AllowN\<close>, up to \<^verbatim>\<open>maybePreBorrow\<close>, which starts a goroutine.
\<close>

fun call_step :: "('w, 'r, 'c) env \<Rightarrow> string \<Rightarrow> u64 \<Rightarrow> call_pc \<Rightarrow> ('w, 'r) shared \<Rightarrow> (pc \<times> action \<times> ('w, 'r) shared) option" where
  "call_step E key n AStart s = quiet (if l_closed (s_lim s) then Returned (Inl ErrClosed) else Call n ALookup) s"
| "call_step E key n ALookup s =
     (let (t, w) = e_clock E (s_world s) in look_up E key (Call n (ATouch Live (UnixMilli t))) (s\<lparr>s_world := w\<rparr>))"
| "call_step E key n (ATouch p ms) s = touch key p (updateAccess ms) (Call n (AConsume p Fast)) s"
| "call_step E key n (AConsume p sp) s =
     on_bucket key p (tryConsume n) (\<lambda>ok. if ok then Call n (ACount p sp) else failed_at n p sp) (\<lambda>ok. if ok then [Served n] else []) s"
| "call_step E key n (ACount p sp) s = touch key p (recordConsumption n) (Call n (ASize p sp)) s"
| "call_step E key n (ASize p sp) s =
     quiet (if sp = Fast \<and> o_preBorrowEnabled (l_opts (s_lim s)) then Call n (ABelow p) else Returned (Inr True))
       (manage (RecordConsumption key n) s)"
| "call_step E key n (ABelow p) s = read_bucket key p (\<lambda>b.
     if belowPreBorrowThreshold (e_oor E) (o_minBorrow (l_opts (s_lim s))) (o_preBorrowThreshold (l_opts (s_lim s))) b
     then Call n (AMark p) else Returned (Inr True)) s"
| "call_step E key n (AMark p) s =
     (case get_bucket key p s of
        None \<Rightarrow> None
      | Some b \<Rightarrow>
          let (ok, b') = TryMarkPreBorrowing b; s' = set_bucket key p b' s
          in if ok then Some (Returned (Inr True), Spawn (Flight (KPre p) FEnter),
                 s'\<lparr>s_lim := (s_lim s')\<lparr>l_jobs := l_jobs (s_lim s') @ [key]\<rparr>\<rparr>)
             else quiet (Returned (Inr True)) s')"
| "call_step E key n (AClock p) s =
     (let (t, w) = e_clock E (s_world s) in quiet (Call n (ANeeds p (UnixMilli t))) (s\<lparr>s_world := w\<rparr>))"
| "call_step E key n (ANeeds p ms) s =
     read_bucket key p (\<lambda>b. if needsReset ms b then Reset n p (RLookup ms) else Call n (AExhausted p)) s"
| "call_step E key n (AExhausted p) s = read_bucket key p (\<lambda>b. Call n (ADecide p (IsRedisExhausted b) False)) s"
| "call_step E key n (ADecide p re pchk) s =
     (case e_decide E of
        None \<Rightarrow> quiet (Panicked ''nil pointer dereference'') s
      | Some decide \<Rightarrow>
          let rc = \<lparr>rc_Key = key, rc_Need = n, rc_RedisExhausted = re,
                    rc_HasPeers = (l_acquirer (s_lim s) \<noteq> None \<and> \<not> pchk)\<rparr>;
              (d, r, w) = decide (l_gossiper (s_lim s)) rc (l_router (s_lim s)) (s_world s)
          in quiet (case d of
                 Inl e \<Rightarrow> Returned (Inl e)
               | Inr DecisionRedis \<Rightarrow> Flight (KAllow n p re pchk) FEnter
               | Inr DecisionPeer \<Rightarrow> Probe n p re PEnter
               | Inr DecisionDeny \<Rightarrow> Returned (Inr False))
             (s\<lparr>s_lim := (s_lim s)\<lparr>l_router := r\<rparr>, s_world := w\<rparr>))"
| "call_step E key n (ABooked p re pchk) s =
     (let (_, m, w) = Borrowed (e_wall E) key (l_borrowMgr (s_lim s)) (s_world s)
      in quiet (Call n (AConsume p (AfterRedis re pchk))) (s\<lparr>s_lim := (s_lim s)\<lparr>l_borrowMgr := m\<rparr>, s_world := w\<rparr>))"
| "call_step E key n (AMarkEx p pchk) s = touch key p MarkRedisExhausted (Call n (ADecide p True pchk)) s"

text \<open>\<^verbatim>\<open>resetWindow\<close>, with the bucket \<open>q\<close> it looks up itself; \<open>p\<close> is the caller's.\<close>

fun reset_step :: "('w, 'r, 'c) env \<Rightarrow> string \<Rightarrow> u64 \<Rightarrow> ptr \<Rightarrow> reset_pc \<Rightarrow> ('w, 'r) shared \<Rightarrow> (pc \<times> action \<times> ('w, 'r) shared) option" where
  "reset_step E key n p (RLookup ms) s = look_up E key (Reset n p (RLock ms Live)) s"
| "reset_step E key n p (RLock ms q) s =
     (if (key, q) \<in> set (s_locks s) then None else quiet (Reset n p (RCheck ms q)) (s\<lparr>s_locks := (key, q) # s_locks s\<rparr>))"
| "reset_step E key n p (RCheck ms q) s =
     (let windowMs = Milliseconds (o_window (l_opts (s_lim s)));
          start = i64_div ms windowMs * windowMs
      in if windowMs = 0 then quiet (Panicked ''integer divide by zero'') s
         else read_bucket key q (\<lambda>b. if sint start \<le> sint (WindowStartMs (b_window b))
                then Reset n p (RUnlock q) else Reset n p (RPool start q)) s)"
| "reset_step E key n p (RPool start q) s =
     (let (e, w) = pool_ResetWindow (e_redis E) key (o_limit (l_opts (s_lim s))) start (s_world s)
      in quiet (if e = None then Reset n p (RDrain start q) else Reset n p (RUnlock q)) (s\<lparr>s_world := w\<rparr>))"
| "reset_step E key n p (RDrain start q) s =
     on_bucket key q drain (\<lambda>_. Reset n p (RClear start q)) (\<lambda>old. [Drained old]) s"
| "reset_step E key n p (RClear start q) s = touch key q ClearRedisExhausted (Reset n p (RZero start q)) s"
| "reset_step E key n p (RZero start q) s = touch key q resetConsumed (Reset n p (RWindow start q)) s"
| "reset_step E key n p (RWindow start q) s =
     touch key q (\<lambda>b. b\<lparr>b_window := UpdateWindowStart start (b_window b)\<rparr>) (Reset n p (RForget q)) s"
| "reset_step E key n p (RForget q) s = quiet (Reset n p (RUnlock q)) (manage (bm_Reset key) s)"
| "reset_step E key n p (RUnlock q) s =
     quiet (Call n (AConsume p AfterReset)) (s\<lparr>s_locks := remove1 (key, q) (s_locks s)\<rparr>)"

text \<open>
  \<^verbatim>\<open>borrowMgr.Acquire\<close>: the first goroutine of a key runs the function of the flight, those that come
  while it runs wait for its result; all of them go on with \<open>FShared\<close>.
\<close>

definition acquired :: "kont \<Rightarrow> err + u64 \<Rightarrow> pc" where
  "acquired k r = (case k of
     KPre p \<Rightarrow> Other (BClear p)
   | KAllow n p re pchk \<Rightarrow> (case r of
       Inl e \<Rightarrow> Returned (Inl e)
     | Inr g \<Rightarrow> if 0 < g then Call n (ABooked p re pchk) else Call n (AMarkEx p pchk)))"

fun flight_step :: "('w, 'r, 'c) env \<Rightarrow> string \<Rightarrow> kont \<Rightarrow> flight_pc \<Rightarrow> ('w, 'r) shared \<Rightarrow> (pc \<times> action \<times> ('w, 'r) shared) option" where
  "flight_step E key k FEnter s =
     (if key \<in> set (s_borrowing s) then quiet (Flight k FWait) s
      else quiet (Flight k FCompute) (s\<lparr>s_borrowing := key # s_borrowing s\<rparr>))"
| "flight_step E key k FWait s = None"
| "flight_step E key k FCompute s =
     (let size0 = ComputeBorrowSize (e_oor E) (bm_sizer (l_borrowMgr (s_lim s)))
      in quiet (Flight k (FPool (if size0 < k_need k then k_need k else size0))) s)"
| "flight_step E key k (FPool borrowSize) s =
     (let m = l_borrowMgr (s_lim s);
          (t, w0) = e_wall E (s_world s);
          (r, w) = pool_Borrow (e_redis E) key (bm_instanceID m) borrowSize (bm_leaseTTLms m) t w0
      in case r of
           Inl e \<Rightarrow> quiet (Flight k (FLeave (Inl e))) (s\<lparr>s_world := w\<rparr>)
         | Inr g \<Rightarrow> if 0 < g then quiet (Flight k (FClear g)) (s\<lparr>s_world := w, s_log := s_log s @ [(key, Delivered g)]\<rparr>)
             else quiet (Flight k (FLeave (Inr g))) (s\<lparr>s_world := w\<rparr>))"
| "flight_step E key k (FClear g) s = touch key (k_ptr k) ClearRedisExhausted (Flight k (FRefill g)) s"
| "flight_step E key k (FRefill g) s = touch key (k_ptr k) (refill g) (Flight k (FRecord g)) s"
| "flight_step E key k (FRecord g) s =
     (let (m, w) = record_grant (e_wall E) key g (l_borrowMgr (s_lim s)) (s_world s)
      in quiet (Flight k (FLeave (Inr g))) (s\<lparr>s_lim := (s_lim s)\<lparr>l_borrowMgr := m\<rparr>, s_world := w\<rparr>))"
| "flight_step E key k (FLeave v) s =
     Some (Flight k (FShared v), Borrow_result v, s\<lparr>s_borrowing := remove1 key (s_borrowing s)\<rparr>)"
| "flight_step E key k (FShared v) s =
     (let (r, m) = acquire_finish v (l_borrowMgr (s_lim s)) in quiet (acquired k r) (manage (\<lambda>_. m) s))"

text \<open>\<^verbatim>\<open>acquireFromPeers\<close>, a flight of the acquirer in the same way.\<close>

definition asked :: "u64 \<Rightarrow> ptr \<Rightarrow> bool \<Rightarrow> err + u64 \<Rightarrow> pc" where
  "asked n p re v = (case acquirer_shared v of
     Inl e \<Rightarrow> Call n (ADecide p re True)
   | Inr g \<Rightarrow> if 0 < g then Call n (AConsume p (AfterPeer re)) else Call n (ADecide p re True))"

fun probe_step :: "('w, 'r, 'c) env \<Rightarrow> string \<Rightarrow> u64 \<Rightarrow> ptr \<Rightarrow> bool \<Rightarrow> probe_pc \<Rightarrow> ('w, 'r) shared \<Rightarrow> (pc \<times> action \<times> ('w, 'r) shared) option" where
  "probe_step E key n p re PEnter s =
     (if key \<in> set (s_probing s) then quiet (Probe n p re PWait) s
      else quiet (Probe n p re PAsk) (s\<lparr>s_probing := key # s_probing s\<rparr>))"
| "probe_step E key n p re PWait s = None"
| "probe_step E key n p re PAsk s =
     (case l_acquirer (s_lim s) of
        None \<Rightarrow> quiet (Panicked ''nil pointer dereference'') s
      | Some a \<Rightarrow>
          let (t, w1) = e_wall E (s_world s) in
          (case acquire_body (e_stub E) (e_lookup E) (e_sched E w1) (e_oor E) (l_gossiper (s_lim s)) t a key n w1 of
             Panic msg \<Rightarrow> quiet (Panicked msg) (s\<lparr>s_world := w1\<rparr>)
           | Return (r, extras, reps, w2) \<Rightarrow>
               let l = s_lim s;
                   s' = s\<lparr>s_lim := l\<lparr>l_extras := l_extras l @ map (Pair key) extras\<rparr>, s_world := w2,
                          s_log := s_log s @ map (\<lambda>g. (key, Delivered g)) extras\<rparr>
               in (case r of
                     Inl e \<Rightarrow> quiet (Probe n p re (PLeave (Inl e))) s'
                   | Inr g \<Rightarrow> if 0 < g then quiet (Probe n p re (PRefill g)) (s'\<lparr>s_log := s_log s' @ [(key, Delivered g)]\<rparr>)
                       else quiet (Probe n p re (PLeave (Inr g))) s')))"
| "probe_step E key n p re (PRefill g) s = touch key p (refill g) (Probe n p re (PLeave (Inr g))) s"
| "probe_step E key n p re (PLeave v) s =
     Some (Probe n p re (PShared v), Probe_result v, s\<lparr>s_probing := remove1 key (s_probing s)\<rparr>)"
| "probe_step E key n p re (PShared v) s = quiet (asked n p re v) s"

fun other_step :: "('w, 'r, 'c) env \<Rightarrow> string \<Rightarrow> other_pc \<Rightarrow> ('w, 'r) shared \<Rightarrow> (pc \<times> action \<times> ('w, 'r) shared) option" where
  "other_step E key (BClear p) s = touch key p ClearPreBorrowing (Other BDone) s"
| "other_step E key BDone s = quiet Ended (s\<lparr>s_lim := (s_lim s)\<lparr>l_jobs := remove1 key (l_jobs (s_lim s))\<rparr>\<rparr>)"
| "other_step E key (SLook amt) s = look_up E key (Other (SRem amt Live)) s"
| "other_step E key (SRem amt p) s = read_bucket key p (\<lambda>b.
     let reserved = u64_of_f64 (e_oor E) (fmul (f64_of_u64 (o_limit (l_opts (s_lim s)))) (o_reservedMinimum (l_opts (s_lim s))))
     in if remaining b \<le> reserved then Ended
        else Other (TLook (if remaining b - reserved < amt then remaining b - reserved else amt))) s"
| "other_step E key (TLook amt) s = look_up E key (Other (TRem amt Live)) s"
| "other_step E key (TRem amt p) s = read_bucket key p (\<lambda>b.
     let transfer = (if remaining b < amt then remaining b else amt)
     in if transfer = 0 then Ended else Other (TConsume transfer p)) s"
| "other_step E key (TConsume transfer p) s =
     on_bucket key p (tryConsume transfer) (\<lambda>_. Ended) (\<lambda>ok. if ok then [Sent transfer] else []) s"
| "other_step E key (XLook g) s = look_up E key (Other (XRefill g Live)) s"
| "other_step E key (XRefill g p) s = touch key p (refill g) Ended s"

fun lstep :: "('w, 'r, 'c) env \<Rightarrow> string \<Rightarrow> pc \<Rightarrow> ('w, 'r) shared \<Rightarrow> (pc \<times> action \<times> ('w, 'r) shared) option" where
  "lstep E key (Call n c) s = call_step E key n c s"
| "lstep E key (Reset n p c) s = reset_step E key n p c s"
| "lstep E key (Flight k c) s = flight_step E key k c s"
| "lstep E key (Probe n p re c) s = probe_step E key n p re c s"
| "lstep E key (Other c) s = other_step E key c s"
| "lstep E key (Returned r) s = None"
| "lstep E key Ended s = None"
| "lstep E key (Panicked msg) s = None"

subsection \<open>Interleaving\<close>

record ('w, 'r) csys =
  c_sh :: "('w, 'r) shared"
  c_threads :: "(string \<times> pc) list"

text \<open>A finished flight hands its result to every goroutine of the key that waits.\<close>

fun wake :: "action \<Rightarrow> pc \<Rightarrow> pc" where
  "wake (Borrow_result v) (Flight k FWait) = Flight k (FShared v)"
| "wake (Probe_result v) (Probe n p re PWait) = Probe n p re (PShared v)"
| "wake a q = q"

fun started :: "action \<Rightarrow> pc list" where
  "started (Spawn q) = [q]"
| "started a = []"

definition settle :: "string \<Rightarrow> action \<Rightarrow> (string \<times> pc) list \<Rightarrow> (string \<times> pc) list" where
  "settle key a ts = map (\<lambda>(k, q). (k, if k = key then wake a q else q)) ts @ map (Pair key) (started a)"

text \<open>When the janitor removes the bucket of a key, every pointer to it becomes a pointer to an orphan.\<close>

fun moved :: "nat \<Rightarrow> ptr \<Rightarrow> ptr" where
  "moved i Live = Orphan i"
| "moved i (Orphan j) = Orphan j"

fun moved_kont :: "nat \<Rightarrow> kont \<Rightarrow> kont" where
  "moved_kont i (KAllow n p re pchk) = KAllow n (moved i p) re pchk"
| "moved_kont i (KPre p) = KPre (moved i p)"

definition map_call :: "(ptr \<Rightarrow> ptr) \<Rightarrow> call_pc \<Rightarrow> call_pc" where
  "map_call f c = (case c of ATouch p ms \<Rightarrow> ATouch (f p) ms | AConsume p sp \<Rightarrow> AConsume (f p) sp | ACount p sp \<Rightarrow> ACount (f p) sp
     | ASize p sp \<Rightarrow> ASize (f p) sp | ABelow p \<Rightarrow> ABelow (f p) | AMark p \<Rightarrow> AMark (f p) | AClock p \<Rightarrow> AClock (f p)
     | ANeeds p ms \<Rightarrow> ANeeds (f p) ms | AExhausted p \<Rightarrow> AExhausted (f p) | ADecide p re pchk \<Rightarrow> ADecide (f p) re pchk
     | ABooked p re pchk \<Rightarrow> ABooked (f p) re pchk | AMarkEx p pchk \<Rightarrow> AMarkEx (f p) pchk | _ \<Rightarrow> c)"

definition map_reset :: "(ptr \<Rightarrow> ptr) \<Rightarrow> reset_pc \<Rightarrow> reset_pc" where
  "map_reset f c = (case c of RLock ms q \<Rightarrow> RLock ms (f q) | RCheck ms q \<Rightarrow> RCheck ms (f q) | RPool st q \<Rightarrow> RPool st (f q)
     | RDrain st q \<Rightarrow> RDrain st (f q) | RClear st q \<Rightarrow> RClear st (f q) | RZero st q \<Rightarrow> RZero st (f q) | RWindow st q \<Rightarrow> RWindow st (f q)
     | RForget q \<Rightarrow> RForget (f q) | RUnlock q \<Rightarrow> RUnlock (f q) | RLookup ms \<Rightarrow> c)"

definition map_other :: "(ptr \<Rightarrow> ptr) \<Rightarrow> other_pc \<Rightarrow> other_pc" where
  "map_other f c = (case c of BClear p \<Rightarrow> BClear (f p) | SRem amt p \<Rightarrow> SRem amt (f p) | TRem amt p \<Rightarrow> TRem amt (f p)
     | TConsume tr p \<Rightarrow> TConsume tr (f p) | XRefill g p \<Rightarrow> XRefill g (f p) | _ \<Rightarrow> c)"

fun moved_pc :: "nat \<Rightarrow> pc \<Rightarrow> pc" where
  "moved_pc i (Call n c) = Call n (map_call (moved i) c)"
| "moved_pc i (Reset n p c) = Reset n (moved i p) (map_reset (moved i) c)"
| "moved_pc i (Flight k c) = Flight (moved_kont i k) c"
| "moved_pc i (Probe n p re c) = Probe n (moved i p) re c"
| "moved_pc i (Other c) = Other (map_other (moved i) c)"
| "moved_pc i q = q"

definition orphan :: "string \<Rightarrow> bucket \<Rightarrow> ('w, 'r) csys \<Rightarrow> ('w, 'r) csys" where
  "orphan key b c =
     (let s = c_sh c; i = length (s_orphans s); sh = shardIndex key; l = s_lim s
      in c\<lparr>c_sh := s\<lparr>s_lim := l\<lparr>l_shards := (l_shards l)[sh := AList.delete key (l_shards l ! sh)]\<rparr>,
               s_orphans := s_orphans s @ [(key, b)],
               s_locks := map (\<lambda>(k, p). (k, if k = key then moved i p else p)) (s_locks s)\<rparr>,
             c_threads := map (\<lambda>(k, q). (k, if k = key then moved_pc i q else q)) (c_threads c)\<rparr>)"

text \<open>
  The steps of the whole limiter: a goroutine goes on; a call, a request of a peer or the delivery of
  extra tokens starts; the janitor removes a bucket, and forgets the key afterwards; \<^verbatim>\<open>Close\<close> swaps
  its flag; and whatever else touches the world, the gossiper, the router or the peers' states.
\<close>

inductive c_step :: "('w, 'r, 'c) env \<Rightarrow> ('w, 'r) csys \<Rightarrow> ('w, 'r) csys \<Rightarrow> bool" for E :: "('w, 'r, 'c) env" where
  thread: "i < length (c_threads c) \<Longrightarrow> c_threads c ! i = (key, q) \<Longrightarrow> lstep E key q (c_sh c) = Some (q', a, s') \<Longrightarrow>
    c_step E c \<lparr>c_sh = s', c_threads = settle key a ((c_threads c)[i := (key, q')])\<rparr>"
| call: "amount n \<Longrightarrow> c_step E c (c\<lparr>c_threads := c_threads c @ [(key, Call n AStart)]\<rparr>)"
| request: "c_step E c (c\<lparr>c_threads := c_threads c @ [(key, Other (SLook amt))]\<rparr>)"
| extra: "l_extras (s_lim (c_sh c)) = (key, g) # rest \<Longrightarrow>
    c_step E c (c\<lparr>c_sh := (c_sh c)\<lparr>s_lim := (s_lim (c_sh c))\<lparr>l_extras := rest\<rparr>\<rparr>,
      c_threads := c_threads c @ [(key, Other (XLook g))]\<rparr>)"
| evict: "lookup_bucket (s_lim (c_sh c)) key = Some b \<Longrightarrow> evictable shouldEvict nowMs b \<Longrightarrow> c_step E c (orphan key b c)"
| forget: "c_step E c (c\<lparr>c_sh := manage (bm_EvictKeys ks) (c_sh c)\<rparr>)"
| close: "c_step E c (c\<lparr>c_sh := (c_sh c)\<lparr>s_lim := (s_lim (c_sh c))\<lparr>l_closed := True\<rparr>\<rparr>\<rparr>)"
| others: "c_step E c (c\<lparr>c_sh := (c_sh c)\<lparr>s_world := w,
      s_lim := (s_lim (c_sh c))\<lparr>l_gossiper := g, l_router := r, l_peerStates := ps\<rparr>\<rparr>\<rparr>)"

definition c_init :: "options \<Rightarrow> 'r \<Rightarrow> 'w \<Rightarrow> ('w, 'r) csys" where
  "c_init opts r w = \<lparr>c_sh = \<lparr>s_lim = newLimiter opts r, s_world = w, s_orphans = [], s_locks = [], s_borrowing = [],
     s_probing = [], s_log = []\<rparr>, c_threads = []\<rparr>"

text \<open>An executable scheduler: it runs the goroutines in a given order.\<close>

definition turn :: "('w, 'r, 'c) env \<Rightarrow> nat \<Rightarrow> ('w, 'r) csys \<Rightarrow> ('w, 'r) csys option" where
  "turn E i c = (if i < length (c_threads c) then
     let (key, q) = c_threads c ! i
     in map_option (\<lambda>(q', a, s'). \<lparr>c_sh = s', c_threads = settle key a ((c_threads c)[i := (key, q')])\<rparr>) (lstep E key q (c_sh c))
   else None)"

fun schedule :: "('w, 'r, 'c) env \<Rightarrow> nat list \<Rightarrow> ('w, 'r) csys \<Rightarrow> ('w, 'r) csys option" where
  "schedule E [] c = Some c"
| "schedule E (i # js) c = Option.bind (turn E i c) (schedule E js)"

lemma turn_steps: "turn E i c = Some c' \<Longrightarrow> c_step E c c'"
  by (cases "c_threads c ! i") (auto simp: turn_def split: if_splits intro: c_step.thread)

lemma schedule_steps: "schedule E js c = Some c' \<Longrightarrow> (c_step E)\<^sup>*\<^sup>* c c'"
  by (induction js arbitrary: c) (auto simp: bind_eq_Some_conv intro: converse_rtranclp_into_rtranclp turn_steps)

subsection \<open>A run\<close>

text \<open>
  Three calls of a key with a Redis that grants 20 tokens: the first borrows and has filled the bucket,
  the second waits for its result, and the third has been served from the bucket meanwhile.
\<close>

definition pour_env :: "(unit, unit, unit) env" where
  "pour_env = drip_env\<lparr>e_redis := \<lparr>EvalSha = \<lambda>_ _ _ w. (Inr (RInt 20), w), Eval = \<lambda>_ _ _ w. (Inr (RInt 20), w)\<rparr>\<rparr>"

definition three_calls :: "(unit, unit) csys" where
  "three_calls = (c_init demo_options () ())\<lparr>c_threads := [(''k'', Call 5 AStart), (''k'', Call 5 AStart), (''k'', Call 5 AStart)]\<rparr>"

lemma three_started: "(c_step E)\<^sup>*\<^sup>* (c_init demo_options () ()) three_calls"
proof -
  have a: "amount 5" by simp
  have "c_step E c (c\<lparr>c_threads := c_threads c @ [(''k'', Call 5 AStart)]\<rparr>)" for c by (rule c_step.call [OF a])
  then have "(c_step E)\<^sup>*\<^sup>* c (c\<lparr>c_threads := c_threads c @ [(''k'', Call 5 AStart)]\<rparr>)" for c by blast
  from rtranclp_trans [OF rtranclp_trans [OF this this] this, of "c_init demo_options () ()"]
  show ?thesis by (simp add: three_calls_def c_init_def)
qed

lemma pour [simp]: "e_clock pour_env = Pair 0" "e_wall pour_env = Pair 0" "e_decide pour_env = Some default_Decide"
  "pool_Borrow (e_redis pour_env) k i n ttl t w = (Inr 20, w)"
  by (simp_all add: pour_env_def drip_env_def pool_Borrow_def runScript_def toUint64_def)

lemma demo_size: "ComputeBorrowSize oor (bm_sizer (l_borrowMgr demo_limiter)) = 30"
  by (simp add: ComputeBorrowSize_def NewAdaptiveSizer_def demo_limiter_def newLimiter_def NewBorrowManager_def
      demo_options_def defaultOptions_def Let_def)

lemmas run_defs = turn_def settle_def on_bucket_def touch_def read_bucket_def look_up_def quiet_def manage_def
  get_bucket_def set_bucket_def getOrCreateBucket_def newBucket_def NewLocalBucket_def NewWindow_def demo_window
  UnixMilli_def Let_def lookup_put shards_put tryConsume_def TryConsume_def updateAccess_def needsReset_def NeedsReset_def
  default_Decide_def IsRedisExhausted_def ClearRedisExhausted_def refill_def Refill_def acquire_body_def TopK_new
  acquirer_shared_def asked_def

lemma three_schedule:
  "Option.bind (schedule pour_env [0, 0, 0, 0, 0, 0, 0, 0, 0, 0, 0, 0, 0, 0, 1, 1, 1, 1, 1, 1, 1, 1, 1, 1, 1, 1, 1, 1, 0, 0, 0, 0, 2, 2, 2, 2] three_calls)
     (\<lambda>c. Some (s_log (c_sh c), c_threads c, l_extras (s_lim (c_sh c)), s_orphans (c_sh c),
        map_option held (lookup_bucket (s_lim (c_sh c)) ''k''))) =
   Some ([(''k'', Delivered 20), (''k'', Served 5)],
     [(''k'', Flight (KAllow 5 Live False True) (FRecord 20)), (''k'', Flight (KAllow 5 Live False True) FWait),
      (''k'', Call 5 (ACount Live Fast))], [], [], Some 15)"
  by (simp add: three_calls_def c_init_def demo_limiter_def [symmetric] demo_size run_defs)

lemma three_run:
  obtains c where "(c_step pour_env)\<^sup>*\<^sup>* (c_init demo_options () ()) c"
    "s_log (c_sh c) = [(''k'', Delivered 20), (''k'', Served 5)]" "l_extras (s_lim (c_sh c)) = []" "s_orphans (c_sh c) = []"
    "map_option held (lookup_bucket (s_lim (c_sh c)) ''k'') = Some 15"
    "c_threads c = [(''k'', Flight (KAllow 5 Live False True) (FRecord 20)), (''k'', Flight (KAllow 5 Live False True) FWait),
      (''k'', Call 5 (ACount Live Fast))]"
proof -
  from three_schedule [unfolded bind_eq_Some_conv option.inject prod.inject] obtain c where
    c: "schedule pour_env [0, 0, 0, 0, 0, 0, 0, 0, 0, 0, 0, 0, 0, 0, 1, 1, 1, 1, 1, 1, 1, 1, 1, 1, 1, 1, 1, 1, 0, 0, 0, 0, 2, 2, 2, 2] three_calls = Some c" and
    rest: "s_log (c_sh c) = [(''k'', Delivered 20), (''k'', Served 5)]" "l_extras (s_lim (c_sh c)) = []" "s_orphans (c_sh c) = []"
    "map_option held (lookup_bucket (s_lim (c_sh c)) ''k'') = Some 15"
    "c_threads c = [(''k'', Flight (KAllow 5 Live False True) (FRecord 20)), (''k'', Flight (KAllow 5 Live False True) FWait),
      (''k'', Call 5 (ACount Live Fast))]"
    by blast
  show thesis by (rule that [OF rtranclp_trans [OF three_started schedule_steps [OF c]] rest])
qed

end
