(* ===== verification/Goroutines_Accounts.thy ===== *)
theory Goroutines_Accounts
  imports Goroutines
begin

text \<open>
  The tokens of a key under any interleaving of the goroutines of a limiter: what Redis and the peers
  delivered is in a bucket, held by a goroutine, pending, served, sent to a peer or dropped by a reset.
\<close>

fun ev_in :: "event \<Rightarrow> int" where
  "ev_in (Delivered g) = uint g"
| "ev_in e = 0"

fun ev_served :: "event \<Rightarrow> int" where
  "ev_served (Served n) = uint n"
| "ev_served (Sent n) = uint n"
| "ev_served e = 0"

fun ev_drained :: "event \<Rightarrow> int" where
  "ev_drained (Drained n) = uint n"
| "ev_drained e = 0"

text \<open>The sum of an amount over the entries of one key.\<close>

definition over_key :: "('a \<Rightarrow> int) \<Rightarrow> string \<Rightarrow> (string \<times> 'a) list \<Rightarrow> int" where
  "over_key f key xs = sum_list (map (\<lambda>(k, x). if k = key then f x else 0) xs)"

lemma over_key_simps [simp]:
  "over_key f key [] = 0" "over_key f key (xs @ ys) = over_key f key xs + over_key f key ys"
  "over_key f key ((k, x) # xs) = (if k = key then f x else 0) + over_key f key xs"
  by (simp_all add: over_key_def)

lemma over_key_Pair [simp]: "over_key f key (map (Pair k) xs) = (if k = key then sum_list (map f xs) else 0)"
  by (induction xs) auto

lemma over_key_nonneg: "\<forall>(k, x) \<in> set xs. 0 \<le> f x \<Longrightarrow> 0 \<le> over_key f key xs"
  by (induction xs) auto

lemma over_key_update:
  "i < length xs \<Longrightarrow> xs ! i = (k, x) \<Longrightarrow>
   over_key f key (xs[i := (k, y)]) = over_key f key xs + (if k = key then f y - f x else 0)"
proof (induction xs arbitrary: i)
  case (Cons z xs)
  then show ?case by (cases i; cases z) auto
qed simp

lemma over_key_map:
  "(\<And>k x. (k, x) \<in> set xs \<Longrightarrow> f (g k x) = f x) \<Longrightarrow> over_key f key (map (\<lambda>(k, x). (k, g k x)) xs) = over_key f key xs"
  by (induction xs) auto

lemma over_key_member:
  assumes "i < length xs" "xs ! i = (key, x)" "\<forall>(k, y) \<in> set xs. 0 \<le> f y"
  shows "f x \<le> over_key f key xs"
  using assms
proof (induction xs arbitrary: i)
  case (Cons z xs)
  then show ?case
    using over_key_nonneg [of xs f key] by (cases i; cases z) fastforce+
qed simp

lemma ev_nonneg: "0 \<le> ev_in e" "0 \<le> ev_served e" "0 \<le> ev_drained e"
  by (cases e; simp)+

lemmas step_defs = on_bucket_def touch_def read_bucket_def look_up_def manage_def quiet_def Let_def split_beta

subsection \<open>The accounts\<close>

text \<open>The tokens a goroutine has taken from somewhere and not yet put into a bucket.\<close>

fun in_flight :: "pc \<Rightarrow> int" where
  "in_flight (Flight k (FClear g)) = uint g"
| "in_flight (Flight k (FRefill g)) = uint g"
| "in_flight (Probe n p re (PRefill g)) = uint g"
| "in_flight (Other (XLook g)) = uint g"
| "in_flight (Other (XRefill g p)) = uint g"
| "in_flight q = 0"

fun pc_ok :: "pc \<Rightarrow> bool" where
  "pc_ok (Call n c) = amount n"
| "pc_ok (Reset n p c) = amount n"
| "pc_ok (Flight (KAllow n p re pchk) c) = amount n"
| "pc_ok (Probe n p re c) = amount n"
| "pc_ok (Other (TConsume n p)) = amount n"
| "pc_ok q = True"

definition stored :: "string \<Rightarrow> ('w, 'r) shared \<Rightarrow> int" where
  "stored key s = held_at (s_lim s) key + over_key held key (s_orphans s)"

definition balance :: "string \<Rightarrow> ('w, 'r) shared \<Rightarrow> int" where
  "balance key s = stored key s + pending (s_lim s) key + over_key ev_served key (s_log s) +
     over_key ev_drained key (s_log s) - over_key ev_in key (s_log s)"

definition shared_ok :: "('w, 'r) shared \<Rightarrow> bool" where
  "shared_ok s \<longleftrightarrow> limiter_ok (s_lim s) \<and> (\<forall>(k, b) \<in> set (s_orphans s). bucket_ok b)"

lemma in_flight_nonneg: "0 \<le> in_flight q"
  by (cases q rule: in_flight.cases) auto

text \<open>What a step of a goroutine of \<open>key\<close> keeps.\<close>

definition keeps :: "string \<Rightarrow> pc \<Rightarrow> ('w, 'r) shared \<Rightarrow> pc \<Rightarrow> ('w, 'r) shared \<Rightarrow> bool" where
  "keeps key q s q' s' \<longleftrightarrow> shared_ok s' \<and> pc_ok q' \<and>
     (\<forall>k. balance k s' + (if k = key then in_flight q' else 0) = balance k s + (if k = key then in_flight q else 0)) \<and>
     (\<exists>evs. s_log s' = s_log s @ evs)"

lemma get_bucket_ok:
  assumes "shared_ok s" "get_bucket key p s = Some b"
  shows "bucket_ok b" "0 \<le> held b" "held b \<le> stored key s"
proof -
  have o: "\<forall>(k, b') \<in> set (s_orphans s). 0 \<le> held b'"
    using assms(1) by (auto simp: shared_ok_def bucket_ok_def lb_ok_def)
  have h: "0 \<le> held_at (s_lim s) key" using assms(1) by (simp add: shared_ok_def limiter_okD(4))
  have os: "0 \<le> over_key held key (s_orphans s)" using o by (rule over_key_nonneg)
  show ok: "bucket_ok b"
    using assms by (cases p) (auto simp: shared_ok_def get_bucket_def limiter_okD(3) split: if_splits dest!: nth_mem)
  then show "0 \<le> held b" by (simp add: bucket_ok_def lb_ok_def)
  show "held b \<le> stored key s"
  proof (cases p)
    case Live
    then show ?thesis using assms(2) os by (simp add: get_bucket_def stored_def held_at_def)
  next
    case (Orphan i)
    then have "i < length (s_orphans s)" "s_orphans s ! i = (key, b)"
      using assms(2) by (auto simp: get_bucket_def prod_eq_iff split: if_splits)
    then show ?thesis using over_key_member [of i "s_orphans s" key b held] o h by (simp add: stored_def)
  qed
qed

lemma set_bucket_fields [simp]:
  "s_log (set_bucket key p b s) = s_log s" "s_world (set_bucket key p b s) = s_world s"
  "s_locks (set_bucket key p b s) = s_locks s" "s_borrowing (set_bucket key p b s) = s_borrowing s"
  "s_probing (set_bucket key p b s) = s_probing s"
  "pending (s_lim (set_bucket key p b s)) k = pending (s_lim s) k"
  by (simp_all add: set_bucket_def split: ptr.split)

lemma set_bucket_ok:
  assumes "shared_ok s" "get_bucket key p s = Some b" "bucket_ok b'"
  shows "shared_ok (set_bucket key p b' s)"
    "stored k (set_bucket key p b' s) = stored k s + (if k = key then held b' - held b else 0)"
proof -
  show "shared_ok (set_bucket key p b' s)"
    using assms by (cases p) (auto simp: shared_ok_def set_bucket_def limiter_ok_put dest!: set_update_subset_insert [THEN subsetD])
  show "stored k (set_bucket key p b' s) = stored k s + (if k = key then held b' - held b else 0)"
  proof (cases p)
    case Live
    then show ?thesis
      using assms limiter_okD(1) [of "s_lim s"]
      by (auto simp: shared_ok_def stored_def set_bucket_def get_bucket_def held_at_def lookup_put)
  next
    case (Orphan i)
    then have "i < length (s_orphans s)" "s_orphans s ! i = (key, b)"
      using assms(2) by (auto simp: get_bucket_def prod_eq_iff split: if_splits)
    then show ?thesis by (simp add: Orphan stored_def set_bucket_def over_key_update)
  qed
qed

text \<open>The forms of a step.\<close>

lemma keeps_on_bucket:
  assumes "shared_ok s" "on_bucket key p f qf ev s = Some (q', a, s')"
    and step: "\<And>b x b'. bucket_ok b \<Longrightarrow> held b \<le> stored key s \<Longrightarrow> f b = (x, b') \<Longrightarrow> bucket_ok b' \<and> pc_ok (qf x) \<and>
      held b' + sum_list (map ev_served (ev x)) + sum_list (map ev_drained (ev x)) + in_flight (qf x)
        = held b + sum_list (map ev_in (ev x)) + in_flight q"
  shows "keeps key q s q' s' \<and> a = Quiet"
proof -
  obtain b where b: "get_bucket key p s = Some b" using assms(2) by (auto simp: on_bucket_def split: option.splits)
  obtain x b' where f: "f b = (x, b')" by (cases "f b")
  note B = step [OF get_bucket_ok(1,3) [OF assms(1) b] f]
  have e: "q' = qf x" "a = Quiet" "s' = (set_bucket key p b' s)\<lparr>s_log := s_log s @ map (Pair key) (ev x)\<rparr>"
    using assms(2) b f by (auto simp: on_bucket_def quiet_def)
  have "stored k s' = stored k (set_bucket key p b' s)" "pending (s_lim s') k = pending (s_lim s) k" for k
    by (simp_all add: e stored_def)
  moreover have "shared_ok s'" using set_bucket_ok(1) [OF assms(1) b, of b'] B by (simp add: shared_ok_def e)
  ultimately show ?thesis
    using B set_bucket_ok(2) [OF assms(1) b] e by (auto simp: keeps_def balance_def)
qed

lemma keeps_frame:
  assumes "shared_ok s" "s_log s' = s_log s" "s_orphans s' = s_orphans s" "limiter_ok (s_lim s')"
    and "\<And>k. held_at (s_lim s') k = held_at (s_lim s) k" "\<And>k. pending (s_lim s') k = pending (s_lim s) k"
    and "pc_ok q'" "in_flight q' = in_flight q"
  shows "keeps key q s q' s'"
  using assms by (simp add: keeps_def shared_ok_def balance_def stored_def)


definition step_keeps :: "string \<Rightarrow> pc \<Rightarrow> ('w, 'r) shared \<Rightarrow> (pc \<times> action \<times> ('w, 'r) shared) option \<Rightarrow> bool" where
  "step_keeps key q s x \<longleftrightarrow> (case x of None \<Rightarrow> True | Some (q', a, s') \<Rightarrow>
     keeps key q s q' s' \<and> (\<forall>q1 \<in> set (started a). pc_ok q1 \<and> in_flight q1 = 0))"

lemma step_keeps_None [simp]: "step_keeps key q s None"
  by (simp add: step_keeps_def)

lemma step_keeps_quiet: "keeps key q s q' s' \<Longrightarrow> step_keeps key q s (quiet q' s')"
  by (simp add: step_keeps_def quiet_def)

lemma step_keeps_bucket:
  assumes "shared_ok s"
    and "\<And>b x b'. bucket_ok b \<Longrightarrow> held b \<le> stored key s \<Longrightarrow> f b = (x, b') \<Longrightarrow> bucket_ok b' \<and> pc_ok (qf x) \<and>
      held b' + sum_list (map ev_served (ev x)) + sum_list (map ev_drained (ev x)) + in_flight (qf x)
        = held b + sum_list (map ev_in (ev x)) + in_flight q"
  shows "step_keeps key q s (on_bucket key p f qf ev s)"
proof (cases "on_bucket key p f qf ev s")
  case (Some x)
  obtain q' a s' where x: "x = (q', a, s')" by (rule prod_cases3)
  have "keeps key q s q' s' \<and> a = Quiet"
    by (rule keeps_on_bucket [OF assms(1) Some [unfolded x]]) (rule assms(2))
  then show ?thesis by (simp add: step_keeps_def Some x)
qed simp

lemma step_keeps_touch:
  assumes "shared_ok s" "pc_ok q1"
    and "\<And>b. bucket_ok b \<Longrightarrow> held b \<le> stored key s \<Longrightarrow> bucket_ok (f b) \<and> held (f b) + in_flight q1 = held b + in_flight q"
  shows "step_keeps key q s (touch key p f q1 s)"
  unfolding touch_def by (rule step_keeps_bucket [OF assms(1)]) (use assms(2,3) in auto)

lemma step_keeps_read:
  assumes "shared_ok s" "\<And>b. bucket_ok b \<Longrightarrow> pc_ok (qf b) \<and> in_flight (qf b) = in_flight q"
  shows "step_keeps key q s (read_bucket key p qf s)"
  using assms get_bucket_ok(1) [OF assms(1), of key p]
  by (auto simp: read_bucket_def shared_ok_def split: option.split intro!: step_keeps_quiet keeps_frame)

lemma step_keeps_frame:
  assumes "shared_ok s" "s_log s' = s_log s" "s_orphans s' = s_orphans s" "limiter_ok (s_lim s')"
    and "\<And>k. held_at (s_lim s') k = held_at (s_lim s) k" "\<And>k. pending (s_lim s') k = pending (s_lim s) k"
    and "pc_ok q'" "in_flight q' = in_flight q"
  shows "step_keeps key q s (quiet q' s')"
  by (rule step_keeps_quiet [OF keeps_frame]) (use assms in auto)

lemma step_keeps_same: "shared_ok s \<Longrightarrow> pc_ok q' \<Longrightarrow> in_flight q' = in_flight q \<Longrightarrow> step_keeps key q s (quiet q' s)"
  by (rule step_keeps_frame) (auto simp: shared_ok_def)

lemma step_keeps_look_up:
  assumes "shared_ok s" "pc_ok q'" "in_flight q' = in_flight q"
  shows "step_keeps key q s (look_up E key q' (s\<lparr>s_world := w\<rparr>))"
proof -
  obtain b l w' where g: "getOrCreateBucket E key (s_lim s) w = (b, l, w')" by (rule prod_cases3)
  have "limiter_ok (s_lim s)" using assms(1) by (simp add: shared_ok_def)
  note G = getOrCreateBucket_spec [OF this g]
  show ?thesis
    unfolding look_up_def using g by (simp, intro step_keeps_frame [OF assms(1)]) (use G assms in auto)
qed

lemma step_keeps_manage:
  assumes "shared_ok s" "bm_ok (l_borrowMgr (s_lim s)) \<Longrightarrow> bm_ok (f (l_borrowMgr (s_lim s)))" "pc_ok q'" "in_flight q' = in_flight q"
  shows "step_keeps key q s (quiet q' (manage f s))"
  using assms limiter_okD(2) [of "s_lim s"] unfolding manage_def
  by (intro step_keeps_frame) (auto simp: shared_ok_def limiter_ok_def held_at_def)

subsection \<open>The steps\<close>

lemma bucket_neutral [simp]:
  "bucket_ok b \<Longrightarrow> bucket_ok (updateAccess ms b)" "held (updateAccess ms b) = held b"
  "bucket_ok b \<Longrightarrow> bucket_ok (recordConsumption n b)" "held (recordConsumption n b) = held b"
  "bucket_ok b \<Longrightarrow> bucket_ok (MarkRedisExhausted b)" "held (MarkRedisExhausted b) = held b"
  "bucket_ok b \<Longrightarrow> bucket_ok (ClearRedisExhausted b)" "held (ClearRedisExhausted b) = held b"
  "bucket_ok b \<Longrightarrow> bucket_ok (resetConsumed b)" "held (resetConsumed b) = held b"
  "bucket_ok b \<Longrightarrow> bucket_ok (ClearPreBorrowing b)" "held (ClearPreBorrowing b) = held b"
  "bucket_ok b \<Longrightarrow> bucket_ok (b\<lparr>b_window := wd\<rparr>)" "bucket_ok b \<Longrightarrow> bucket_ok (b\<lparr>b_preBorrowing := x\<rparr>)"
  by (simp_all add: bucket_ok_def bucket_defs)

lemma consume_event:
  assumes "amount n" "bucket_ok b" "tryConsume n b = (ok, b')"
  shows "bucket_ok b' \<and> held b' + (if ok then uint n else 0) = held b"
  using tryConsume_ok [OF assms(2,1)] tryConsume_held [OF assms(2,1)] assms(3) by simp

lemma failed_at_ok [simp]: "pc_ok (failed_at n p sp) = amount n" "in_flight (failed_at n p sp) = 0"
  by (cases sp; simp)+

lemma call_step_keeps:
  assumes "shared_ok s" "amount n"
  shows "step_keeps key (Call n c) s (call_step E key n c s)"
proof (cases c)
  case (AConsume p sp)
  show ?thesis
    unfolding AConsume call_step.simps
    by (rule step_keeps_bucket [OF assms(1)]) (use consume_event [OF assms(2)] assms(2) in \<open>fastforce split: if_splits\<close>)
next
  case (AMark p)
  show ?thesis
  proof (cases "get_bucket key p s")
    case (Some b)
    obtain ok b' where t: "TryMarkPreBorrowing b = (ok, b')" by (cases "TryMarkPreBorrowing b")
    have b': "bucket_ok b'" "held b' = held b"
      using t get_bucket_ok(1) [OF assms(1) Some] by (auto simp: TryMarkPreBorrowing_def split: if_splits)
    note B = set_bucket_ok [OF assms(1) Some b'(1)]
    have "stored k ((set_bucket key p b' s)\<lparr>s_lim := (s_lim (set_bucket key p b' s))\<lparr>l_jobs := js\<rparr>\<rparr>) = stored k s" for k js
      using B(2) b'(2) by (simp add: stored_def held_at_def)
    then show ?thesis
      using B b'(2) t Some assms(2) by (auto simp: AMark Let_def step_keeps_def keeps_def balance_def shared_ok_def quiet_def)
  qed (simp add: AMark)
next
  case (ADecide p re pchk)
  show ?thesis
    using assms unfolding ADecide call_step.simps Let_def
    by (auto simp: split_beta held_at_def shared_ok_def split: option.split sum.split Decision.split
        intro!: step_keeps_frame step_keeps_same)
next
  case (ABooked p re pchk)
  obtain v m w where B: "Borrowed (e_wall E) key (l_borrowMgr (s_lim s)) (s_world s) = (v, m, w)" by (rule prod_cases3)
  have "bm_ok m" using Borrowed_spec [OF _ B] assms(1) limiter_okD(2) by (auto simp: shared_ok_def)
  then show ?thesis
    using assms B unfolding ABooked call_step.simps
    by (simp, intro step_keeps_frame) (auto simp: shared_ok_def limiter_ok_def held_at_def)
qed (use assms in \<open>auto simp: split_beta Let_def held_at_def shared_ok_def
    intro!: step_keeps_same step_keeps_touch step_keeps_read step_keeps_look_up step_keeps_manage step_keeps_frame\<close>)


lemma reset_step_keeps:
  assumes "shared_ok s" "amount n"
  shows "step_keeps key (Reset n p c) s (reset_step E key n p c s)"
proof (cases c)
  case (RLookup ms)
  then show ?thesis using assms step_keeps_look_up [OF assms(1), of _ _ key E "s_world s"] by simp
next
  case (RDrain st q)
  have "drain b = (old, b') \<Longrightarrow> bucket_ok b \<Longrightarrow> bucket_ok b' \<and> held b' + uint old = held b" for b old b'
    using drain_snd [of b] Drain_uint [of "b_local b"] by (auto simp: drain_def bucket_ok_def split_beta)
  then show ?thesis
    unfolding RDrain reset_step.simps using assms(2) by (intro step_keeps_bucket [OF assms(1)]) auto
qed (use assms in \<open>auto simp: split_beta Let_def held_at_def shared_ok_def Reset_ok
    intro!: step_keeps_same step_keeps_touch step_keeps_read step_keeps_manage step_keeps_frame\<close>)

lemma refill_flight:
  assumes "bucket_ok b" "held b \<le> stored key s" "stored key s + uint g < 2 ^ 63"
  shows "bucket_ok (refill g b) \<and> held (refill g b) = held b + uint g"
  using assms refill_ok [OF assms(1), of g] refill_held [OF assms(1), of g] by auto

lemma over_key_delivered [simp]:
  "over_key ev_in k (map (\<lambda>g. (key, Delivered g)) xs) = (if k = key then sum_list (map uint xs) else 0)"
  "over_key ev_served k (map (\<lambda>g. (key, Delivered g)) xs) = 0"
  "over_key ev_drained k (map (\<lambda>g. (key, Delivered g)) xs) = 0"
  by (induction xs) auto

lemma keeps_delivered:
  assumes "shared_ok s" "s_orphans s' = s_orphans s" "limiter_ok (s_lim s')"
    and "\<And>k. held_at (s_lim s') k = held_at (s_lim s) k" "pc_ok q'"
    and "\<And>k. pending (s_lim s') k = pending (s_lim s) k + (if k = key then sum_list (map uint xs) else 0)"
    and "s_log s' = s_log s @ map (Pair key) (map Delivered (xs @ ys))" "in_flight q' = sum_list (map uint ys) + in_flight q"
  shows "step_keeps key q s (quiet q' s')"
  using assms
  by (intro step_keeps_quiet) (auto simp: keeps_def shared_ok_def balance_def stored_def comp_def)

lemma acquired_ok [simp]:
  "pc_ok (Flight k FWait) \<Longrightarrow> pc_ok (acquired k r)" "in_flight (acquired k r) = 0"
  by (cases k; cases r; simp add: acquired_def)+

lemma asked_ok [simp]: "pc_ok (asked n p re v) = amount n" "in_flight (asked n p re v) = 0"
  by (simp_all add: asked_def split: sum.split)

lemma pc_ok_flight: "pc_ok (Flight k c) = pc_ok (Flight k FWait)"
  by (cases k) simp_all

lemma flight_step_keeps:
  assumes "shared_ok s" "pc_ok (Flight k c)" "stored key s + in_flight (Flight k c) < 2 ^ 63"
  shows "step_keeps key (Flight k c) s (flight_step E key k c s)"
proof -
  have pc [simp]: "pc_ok (Flight k c')" for c' using assms(2) pc_ok_flight [of k c] pc_ok_flight [of k c'] by simp
  have ok: "limiter_ok (s_lim s)" using assms(1) by (simp add: shared_ok_def)
  show ?thesis
  proof (cases c)
  case (FPool sz)
  obtain t w0 where t: "e_wall E (s_world s) = (t, w0)" by (cases "e_wall E (s_world s)")
  obtain r w where r: "pool_Borrow (e_redis E) key (bm_instanceID (l_borrowMgr (s_lim s))) sz
      (bm_leaseTTLms (l_borrowMgr (s_lim s))) t w0 = (r, w)"
    by fastforce
  have "step_keeps key (Flight k c) s (quiet (Flight k (FLeave v)) (s\<lparr>s_world := w\<rparr>))" for v
    using ok pc by (intro step_keeps_frame [OF assms(1)]) (simp_all add: FPool)
  moreover have "step_keeps key (Flight k c) s (quiet (Flight k (FClear g)) (s\<lparr>s_world := w, s_log := s_log s @ [(key, Delivered g)]\<rparr>))" for g
    using ok pc by (intro keeps_delivered [OF assms(1), where xs = "[]" and ys = "[g]"]) (simp_all add: FPool)
  ultimately show ?thesis
    using t r by (cases r) (simp_all add: FPool Let_def)
next
  case (FRefill g)
  then show ?thesis
    using assms refill_flight [of _ key s g]
    by (auto intro!: step_keeps_touch)
next
  case (FRecord g)
  obtain m w where r: "record_grant (e_wall E) key g (l_borrowMgr (s_lim s)) (s_world s) = (m, w)"
    by (cases "record_grant (e_wall E) key g (l_borrowMgr (s_lim s)) (s_world s)")
  have "bm_ok m" using record_grant_spec(1) [OF _ r] assms(1) limiter_okD(2) by (auto simp: shared_ok_def)
  then show ?thesis
    using assms FRecord r
    by (simp, intro step_keeps_frame) (auto simp: shared_ok_def limiter_ok_def held_at_def)
next
  case (FShared v)
  have "bm_ok m \<Longrightarrow> bm_ok (snd (acquire_finish v m))" for m
    by (simp add: acquire_finish_def split: sum.split)
  then show ?thesis
    using assms FShared
    by (auto simp: split_beta Let_def shared_ok_def limiter_okD(2) intro!: step_keeps_manage)
next
  case (FLeave v)
  have "keeps key (Flight k c) s (Flight k (FShared v)) (s\<lparr>s_borrowing := remove1 key (s_borrowing s)\<rparr>)"
    using ok by (intro keeps_frame [OF assms(1)]) (simp_all add: FLeave)
  then show ?thesis by (simp add: FLeave step_keeps_def)
qed (use assms(1) ok in \<open>auto simp: Let_def intro!: step_keeps_same step_keeps_touch step_keeps_frame\<close>)
qed


lemma probe_step_keeps:
  assumes "shared_ok s" "amount n" "stored key s + in_flight (Probe n p re c) < 2 ^ 63"
  shows "step_keeps key (Probe n p re c) s (probe_step E key n p re c s)"
proof -
  have ok: "limiter_ok (s_lim s)" using assms(1) by (simp add: shared_ok_def)
  show ?thesis
  proof (cases c)
    case PAsk
    show ?thesis
    proof (cases "l_acquirer (s_lim s)")
      case None
      then show ?thesis using assms by (auto simp: PAsk intro!: step_keeps_same)
    next
      case (Some acq)
      obtain t w1 where t: "e_wall E (s_world s) = (t, w1)" by (cases "e_wall E (s_world s)")
      show ?thesis
      proof (cases "acquire_body (e_stub E) (e_lookup E) (e_sched E w1) (e_oor E) (l_gossiper (s_lim s)) t acq key n w1")
        case (Panic msg)
        have "step_keeps key (Probe n p re c) s (quiet (Panicked msg) (s\<lparr>s_world := w1\<rparr>))"
          using ok by (intro step_keeps_frame [OF assms(1)]) (simp_all add: PAsk)
        then show ?thesis using Some t Panic by (simp add: PAsk)
      next
        case (Return x)
        obtain r extras reps w2 where x: "x = (r, extras, reps, w2)" by (rule prod_cases4)
        let ?s = "s\<lparr>s_lim := (s_lim s)\<lparr>l_extras := l_extras (s_lim s) @ map (Pair key) extras\<rparr>, s_world := w2,
            s_log := s_log s @ map (\<lambda>g. (key, Delivered g)) extras\<rparr>"
        have pend: "pending ((s_lim s)\<lparr>l_extras := l_extras (s_lim s) @ map (Pair key) extras\<rparr>) k
            = pending (s_lim s) k + (if k = key then sum_list (map uint extras) else 0)" for k
          by (auto simp: pending_def filter_map comp_def)
        have "step_keeps key (Probe n p re c) s (quiet (Probe n p re (PLeave v)) ?s)" for v
          using ok assms(2) pend
          by (intro keeps_delivered [OF assms(1), where xs = extras and ys = "[]"]) (simp_all add: PAsk held_at_def)
        moreover have "step_keeps key (Probe n p re c) s (quiet (Probe n p re (PRefill g)) (?s\<lparr>s_log := s_log ?s @ [(key, Delivered g)]\<rparr>))" for g
          using ok assms(2) pend
          by (intro keeps_delivered [OF assms(1), where xs = extras and ys = "[g]"]) (simp_all add: PAsk held_at_def)
        ultimately show ?thesis
          using Some t Return x by (cases r) (simp_all add: PAsk Let_def)
      qed
    qed
  next
    case (PRefill g)
    then show ?thesis
      using assms refill_flight [of _ key s g] by (auto intro!: step_keeps_touch)
  next
    case (PLeave v)
    have "keeps key (Probe n p re c) s (Probe n p re (PShared v)) (s\<lparr>s_probing := remove1 key (s_probing s)\<rparr>)"
      using ok assms(2) by (intro keeps_frame [OF assms(1)]) (simp_all add: PLeave)
    then show ?thesis by (simp add: PLeave step_keeps_def)
  qed (use assms ok in \<open>auto intro!: step_keeps_same step_keeps_frame\<close>)
qed

lemma transfer_amount:
  assumes "bucket_ok b"
  shows "amount (if remaining b < amt then remaining b else amt)"
proof -
  have "uint (remaining b) < 2 ^ 63"
    using remaining_uint [OF assms] sint_i64_upper [of "tokens (b_local b)"] by simp
  then show ?thesis by (auto simp: word_less_def)
qed

lemma other_step_keeps:
  assumes "shared_ok s" "pc_ok (Other c)" "stored key s + in_flight (Other c) < 2 ^ 63"
  shows "step_keeps key (Other c) s (other_step E key c s)"
proof -
  have ok: "limiter_ok (s_lim s)" using assms(1) by (simp add: shared_ok_def)
  have look: "step_keeps key q s (look_up E key q' s)" if "pc_ok q'" "in_flight q' = in_flight q" for q q'
    using step_keeps_look_up [OF assms(1) that, of key E "s_world s"] by simp
  show ?thesis
  proof (cases c)
    case (TRem amt p)
    then show ?thesis
      using transfer_amount [of _ amt] by (auto simp: Let_def intro!: step_keeps_read [OF assms(1)])
  next
    case (TConsume n p)
    have "amount n" using assms(2) TConsume by simp
    show ?thesis
      unfolding TConsume other_step.simps
      by (rule step_keeps_bucket [OF assms(1)]) (use consume_event [OF \<open>amount n\<close>] in \<open>fastforce split: if_splits\<close>)
  next
    case (XRefill g p)
    then show ?thesis
      using assms refill_flight [of _ key s g] by (auto intro!: step_keeps_touch)
  next
    case BDone
    then show ?thesis using ok by (auto simp: held_at_def intro!: step_keeps_frame [OF assms(1)])
  qed (use assms(1) look in \<open>auto simp: Let_def intro!: step_keeps_read step_keeps_touch\<close>)
qed

lemma lstep_keeps:
  assumes "shared_ok s" "pc_ok q" "stored key s + in_flight q < 2 ^ 63" "lstep E key q s = Some (q', a, s')"
  shows "keeps key q s q' s'" "\<forall>q1 \<in> set (started a). pc_ok q1 \<and> in_flight q1 = 0"
proof -
  have "step_keeps key q s (lstep E key q s)"
  proof (cases q)
    case (Flight k c)
    then show ?thesis using flight_step_keeps [OF assms(1), of k c key E] assms(2,3) by simp
  qed (use assms(2,3) call_step_keeps [OF assms(1)] reset_step_keeps [OF assms(1)] probe_step_keeps [OF assms(1)]
        other_step_keeps [OF assms(1)] in simp_all)
  then show "keeps key q s q' s'" "\<forall>q1 \<in> set (started a). pc_ok q1 \<and> in_flight q1 = 0"
    using assms(4) by (simp_all add: step_keeps_def)
qed

subsection \<open>All interleavings\<close>

definition c_inv :: "('w, 'r) csys \<Rightarrow> bool" where
  "c_inv c \<longleftrightarrow> shared_ok (c_sh c) \<and> (\<forall>(k, q) \<in> set (c_threads c). pc_ok q) \<and>
     (\<forall>k. balance k (c_sh c) + over_key in_flight k (c_threads c) = 0)"

lemma wake_ok [simp]: "in_flight (wake a q) = in_flight q" "pc_ok (wake a q) = pc_ok q"
proof -
  show "in_flight (wake a q) = in_flight q" by (cases "(a, q)" rule: wake.cases) auto
  show "pc_ok (wake a q) = pc_ok q"
  proof (cases "(a, q)" rule: wake.cases)
    case (1 v k)
    then show ?thesis by (cases k) simp_all
  qed auto
qed

lemma moved_ok [simp]: "in_flight (moved_pc i q) = in_flight q" "pc_ok (moved_pc i q) = pc_ok q"
proof -
  show "in_flight (moved_pc i q) = in_flight q"
  proof (cases q)
    case (Flight k c)
    then show ?thesis by (cases c) simp_all
  next
    case (Probe n p re c)
    then show ?thesis by (cases c) simp_all
  next
    case (Other c)
    then show ?thesis by (cases c) (simp_all add: map_other_def)
  qed simp_all
  show "pc_ok (moved_pc i q) = pc_ok q"
  proof (cases q)
    case (Flight k c)
    then show ?thesis by (cases k) simp_all
  next
    case (Other c)
    then show ?thesis by (cases c) (simp_all add: map_other_def)
  qed simp_all
qed


lemma settle_ok:
  assumes "\<forall>q1 \<in> set (started a). pc_ok q1 \<and> in_flight q1 = 0"
  shows "over_key in_flight k (settle key a ts) = over_key in_flight k ts"
    "\<forall>(k, q) \<in> set ts. pc_ok q \<Longrightarrow> \<forall>(k, q) \<in> set (settle key a ts). pc_ok q"
proof -
  have "sum_list (map in_flight (started a)) = 0" using assms by (cases a) simp_all
  then show "over_key in_flight k (settle key a ts) = over_key in_flight k ts"
    by (simp add: settle_def over_key_map)
  show "\<forall>(k, q) \<in> set ts. pc_ok q \<Longrightarrow> \<forall>(k, q) \<in> set (settle key a ts). pc_ok q"
    using assms by (fastforce simp: settle_def)
qed

lemma c_inv_stored:
  assumes "c_inv c" "c_threads c ! i = (key, q)" "i < length (c_threads c)"
  shows "stored key (c_sh c) + in_flight q \<le> over_key ev_in key (s_log (c_sh c))"
proof -
  have "in_flight q \<le> over_key in_flight key (c_threads c)"
    using over_key_member [OF assms(3,2)] in_flight_nonneg by auto
  moreover have "0 \<le> pending (s_lim (c_sh c)) key"
    by (auto simp: pending_def comp_def intro!: sum_list_nonneg)
  moreover have "0 \<le> over_key ev_served key (s_log (c_sh c))" "0 \<le> over_key ev_drained key (s_log (c_sh c))"
    using ev_nonneg by (auto intro!: over_key_nonneg)
  moreover have "balance key (c_sh c) + over_key in_flight key (c_threads c) = 0"
    using assms(1) by (simp add: c_inv_def)
  ultimately show ?thesis unfolding balance_def by linarith
qed

lemma c_step_log: "c_step E c c' \<Longrightarrow> c_inv c \<Longrightarrow> \<forall>k. over_key ev_in k (s_log (c_sh c)) < 2 ^ 63 \<Longrightarrow>
  c_inv c' \<and> (\<exists>evs. s_log (c_sh c') = s_log (c_sh c) @ evs)"
proof (induction rule: c_step.induct)
  case (thread i c key q q' a s')
  have pre: "shared_ok (c_sh c)" "pc_ok q" "stored key (c_sh c) + in_flight q < 2 ^ 63"
    using thread.prems(1) nth_mem [OF thread(1)] thread(2) c_inv_stored [OF thread.prems(1) thread(2,1)] thread.prems(2)
    by (auto simp: c_inv_def intro: order.strict_trans1)
  note K = lstep_keeps [OF pre thread(3)]
  let ?ts = "(c_threads c)[i := (key, q')]"
  have "\<forall>(k, q) \<in> set ?ts. pc_ok q"
    using thread.prems(1) K(1) set_update_subset_insert [of "c_threads c" i "(key, q')"] by (auto simp: c_inv_def keeps_def)
  note T = settle_ok(2) [OF K(2) this] settle_ok(1) [OF K(2), of _ key ?ts]
  have "balance k s' + over_key in_flight k ?ts = 0" for k
  proof -
    have "balance k s' + (if k = key then in_flight q' else 0) = balance k (c_sh c) + (if k = key then in_flight q else 0)"
      "balance k (c_sh c) + over_key in_flight k (c_threads c) = 0"
      using K(1) thread.prems(1) by (simp_all add: keeps_def c_inv_def)
    then show ?thesis using over_key_update [OF thread(1,2), of in_flight k q'] by (cases "k = key") simp_all
  qed
  then show ?case
    using T K(1) by (auto simp: c_inv_def keeps_def)
next
  case (extra c key g rest)
  have "pending (s_lim (c_sh c)) k = (if k = key then uint g else 0) + pending ((s_lim (c_sh c))\<lparr>l_extras := rest\<rparr>) k" for k
    using extra(1) by (simp add: pending_def)
  then have b: "balance k ((c_sh c)\<lparr>s_lim := (s_lim (c_sh c))\<lparr>l_extras := rest\<rparr>\<rparr>)
      = balance k (c_sh c) - (if k = key then uint g else 0)" for k
    by (simp add: balance_def stored_def held_at_def)
  have "balance k (c_sh c) + over_key in_flight k (c_threads c) = 0" for k
    using extra.prems(1) by (simp add: c_inv_def)
  then show ?case
    using extra.prems(1) b by (auto simp: c_inv_def shared_ok_def)
next
  case (evict c key b)
  let ?l = "s_lim (c_sh c)" let ?c = "orphan key b c"
  have ok: "limiter_ok ?l" using evict.prems(1) by (simp add: c_inv_def shared_ok_def)
  have b: "bucket_ok b" using limiter_okD(3) [OF ok evict(1)] .
  have look: "lookup_bucket (s_lim (c_sh ?c)) k = (if k = key then None else lookup_bucket ?l k)" for k
    using fnv.lookup_delete [OF limiter_okD(1) [OF ok], of key k] by (simp add: orphan_def Let_def lookup_bucket_def)
  have sh: "shards_ok shardIndex shardCount (l_shards (s_lim (c_sh ?c)))"
    using fnv.shards_ok_delete [OF limiter_okD(1) [OF ok]] by (simp add: orphan_def Let_def)
  have f: "l_borrowMgr (s_lim (c_sh ?c)) = l_borrowMgr ?l" "s_orphans (c_sh ?c) = s_orphans (c_sh c) @ [(key, b)]"
    "s_log (c_sh ?c) = s_log (c_sh c)" "l_extras (s_lim (c_sh ?c)) = l_extras ?l"
    "c_threads ?c = map (\<lambda>(k, q). (k, if k = key then moved_pc (length (s_orphans (c_sh c))) q else q)) (c_threads c)"
    by (simp_all add: orphan_def Let_def)
  have "limiter_ok (s_lim (c_sh ?c))"
    using ok sh by (auto simp: limiter_ok_def look f(1))
  then have "shared_ok (c_sh ?c)" using evict.prems(1) b by (auto simp: c_inv_def shared_ok_def f(2))
  moreover have "balance k (c_sh ?c) = balance k (c_sh c)" for k
    using evict(1) by (cases "k = key") (simp_all add: balance_def stored_def f held_at_def look pending_def)
  moreover have "over_key in_flight k (c_threads ?c) = over_key in_flight k (c_threads c)" for k
    unfolding f by (rule over_key_map) simp
  moreover have "\<forall>(k, q) \<in> set (c_threads ?c). pc_ok q"
    using evict.prems(1) by (auto simp: f c_inv_def)
  ultimately show ?case using evict.prems(1) by (simp add: c_inv_def f)
qed (auto simp: c_inv_def shared_ok_def balance_def stored_def held_at_def manage_def EvictKeys_ok limiter_ok_def
    lookup_bucket_def pending_def)


lemma c_init_inv: "c_inv (c_init opts r w)"
proof -
  have "held_at (newLimiter opts r) k = 0" "pending (newLimiter opts r) k = 0" for k
    using shardIndex_less [of k] by (simp_all add: held_at_def pending_def newLimiter_def Let_def lookup_bucket_def)
  then show ?thesis by (simp add: c_inv_def c_init_def shared_ok_def balance_def stored_def)
qed

lemma lstep_log: "lstep E key q s = Some (q', a, s') \<Longrightarrow> \<exists>evs. s_log s' = s_log s @ evs"
proof (cases q)
  case (Call n c)
  then show "lstep E key q s = Some (q', a, s') \<Longrightarrow> ?thesis"
    by (cases c) (auto simp: step_defs split: option.splits if_splits)
next
  case (Reset n p c)
  then show "lstep E key q s = Some (q', a, s') \<Longrightarrow> ?thesis"
    by (cases c) (auto simp: step_defs split: option.splits if_splits)
next
  case (Flight k c)
  then show "lstep E key q s = Some (q', a, s') \<Longrightarrow> ?thesis"
    by (cases c) (auto simp: step_defs split: option.splits sum.splits if_splits)
next
  case (Probe n p re c)
  then show "lstep E key q s = Some (q', a, s') \<Longrightarrow> ?thesis"
    by (cases c) (auto simp: step_defs split: option.splits sum.splits if_splits go.splits)
next
  case (Other c)
  then show "lstep E key q s = Some (q', a, s') \<Longrightarrow> ?thesis"
    by (cases c) (auto simp: step_defs split: option.splits if_splits)
qed simp_all

lemma c_step_grows: "c_step E c c' \<Longrightarrow> over_key ev_in k (s_log (c_sh c)) \<le> over_key ev_in k (s_log (c_sh c'))"
proof (induction rule: c_step.induct)
  case (thread i c key q q' a s')
  obtain evs where "s_log s' = s_log (c_sh c) @ evs" using lstep_log [OF thread(3)] by blast
  moreover have "0 \<le> over_key ev_in k evs" using ev_nonneg by (auto intro!: over_key_nonneg)
  ultimately show ?case by simp
qed (simp_all add: orphan_def Let_def manage_def)

lemma c_reach_inv:
  assumes "(c_step E)\<^sup>*\<^sup>* (c_init opts r w) c" "\<forall>k. over_key ev_in k (s_log (c_sh c)) < 2 ^ 63"
  shows "c_inv c"
  using assms
proof (induction rule: rtranclp_induct)
  case (step c c')
  have "over_key ev_in k (s_log (c_sh c)) < 2 ^ 63" for k
    using c_step_grows [OF step(2), of k] step(4) by (metis order.strict_trans1)
  then show ?case using step c_step_log by blast
qed (rule c_init_inv)

text \<open>
  C2. Under any interleaving of the goroutines of a limiter, of any number of calls, requests of
  peers, pre-borrows, resets, evictions and deliveries, no token is made or counted twice: what Redis
  and the peers have delivered for a key is exactly what is in its bucket, in buckets the janitor
  removed while goroutines still hold them, in the hands of a goroutine or waiting to be handed back,
  plus what was served or sent to a peer, plus what resets dropped. So what was served never exceeds
  what was delivered.
\<close>
theorem goroutines_account:
  assumes "(c_step E)\<^sup>*\<^sup>* (c_init opts r w) c" "\<forall>k. over_key ev_in k (s_log (c_sh c)) < 2 ^ 63"
  shows "held_at (s_lim (c_sh c)) key + over_key held key (s_orphans (c_sh c)) +
      over_key in_flight key (c_threads c) + pending (s_lim (c_sh c)) key +
      over_key ev_served key (s_log (c_sh c)) + over_key ev_drained key (s_log (c_sh c))
        = over_key ev_in key (s_log (c_sh c)) \<and>
    0 \<le> held_at (s_lim (c_sh c)) key \<and> 0 \<le> over_key held key (s_orphans (c_sh c)) \<and>
    over_key ev_served key (s_log (c_sh c)) + over_key ev_drained key (s_log (c_sh c)) \<le> over_key ev_in key (s_log (c_sh c))"
proof -
  have inv: "c_inv c" by (rule c_reach_inv [OF assms])
  then have "balance key (c_sh c) + over_key in_flight key (c_threads c) = 0" by (simp add: c_inv_def)
  moreover have "0 \<le> held_at (s_lim (c_sh c)) key" using inv by (simp add: c_inv_def shared_ok_def limiter_okD(4))
  moreover have "0 \<le> over_key held key (s_orphans (c_sh c))"
    using inv by (auto simp: c_inv_def shared_ok_def bucket_ok_def lb_ok_def intro!: over_key_nonneg)
  moreover have "0 \<le> over_key in_flight key (c_threads c)" using in_flight_nonneg by (auto intro!: over_key_nonneg)
  moreover have "0 \<le> pending (s_lim (c_sh c)) key" by (auto simp: pending_def comp_def intro!: sum_list_nonneg)
  ultimately show ?thesis by (simp add: balance_def stored_def)
qed

theorem goroutines_account_witness:
  "\<exists>c. (c_step pour_env)\<^sup>*\<^sup>* (c_init demo_options () ()) c \<and> held_at (s_lim (c_sh c)) ''k'' = 15 \<and>
     over_key ev_served ''k'' (s_log (c_sh c)) = 5 \<and>
     held_at (s_lim (c_sh c)) ''k'' + over_key ev_served ''k'' (s_log (c_sh c)) = over_key ev_in ''k'' (s_log (c_sh c))"
proof -
  obtain c where c: "(c_step pour_env)\<^sup>*\<^sup>* (c_init demo_options () ()) c"
    "s_log (c_sh c) = [(''k'', Delivered 20), (''k'', Served 5)]" "l_extras (s_lim (c_sh c)) = []" "s_orphans (c_sh c) = []"
    "map_option held (lookup_bucket (s_lim (c_sh c)) ''k'') = Some 15"
    "c_threads c = [(''k'', Flight (KAllow 5 Live False True) (FRecord 20)), (''k'', Flight (KAllow 5 Live False True) FWait),
      (''k'', Call 5 (ACount Live Fast))]"
    by (rule three_run)
  have "\<forall>k. over_key ev_in k (s_log (c_sh c)) < 2 ^ 63" by (simp add: c(2))
  from goroutines_account [OF c(1) this, of "''k''"] c
  show ?thesis by (auto simp: held_at_def pending_def split: option.splits)
qed

end
