(* ===== verification/Goroutines_Solo.thy ===== *)
theory Goroutines_Solo
  imports Goroutines
begin

text \<open>
  The interleaved model and the functions of the limiter agree: a goroutine that runs without being
  interrupted does what the function says, step by step, to the same limiter and the same world.
\<close>

definition alone :: "'r limiter \<Rightarrow> 'w \<Rightarrow> (string \<times> event) list \<Rightarrow> ('w, 'r) shared" where
  "alone l w lg = \<lparr>s_lim = l, s_world = w, s_orphans = [], s_locks = [], s_borrowing = [], s_probing = [], s_log = lg\<rparr>"

definition solo :: "('w, 'r, 'c) env \<Rightarrow> string \<Rightarrow> pc \<times> ('w, 'r) shared \<Rightarrow> pc \<times> ('w, 'r) shared \<Rightarrow> bool" where
  "solo E key = (\<lambda>(q, s) (q', s'). \<exists>a. lstep E key q s = Some (q', a, s'))"

text \<open>The goroutine goes from one point to another, whatever the history.\<close>

definition runs ::
    "('w, 'r, 'c) env \<Rightarrow> string \<Rightarrow> pc \<Rightarrow> 'r limiter \<Rightarrow> 'w \<Rightarrow> pc \<Rightarrow> 'r limiter \<Rightarrow> 'w \<Rightarrow> bool" where
  "runs E key q l w q' l' w' \<longleftrightarrow> (\<forall>lg. \<exists>lg'. (solo E key)\<^sup>*\<^sup>* (q, alone l w lg) (q', alone l' w' lg'))"

lemma alone_fields [simp]:
  "s_lim (alone l w lg) = l" "s_world (alone l w lg) = w" "s_orphans (alone l w lg) = []" "s_locks (alone l w lg) = []"
  "s_borrowing (alone l w lg) = []" "s_probing (alone l w lg) = []" "s_log (alone l w lg) = lg"
  "(alone l w lg)\<lparr>s_lim := l'\<rparr> = alone l' w lg" "(alone l w lg)\<lparr>s_world := w'\<rparr> = alone l w' lg"
  "(alone l w lg)\<lparr>s_log := lg'\<rparr> = alone l w lg'"
  by (simp_all add: alone_def)

lemma alone_bucket [simp]:
  "get_bucket key Live (alone l w lg) = lookup_bucket l key"
  "set_bucket key Live b (alone l w lg) = alone (put_bucket key b l) w lg"
  by (simp_all add: get_bucket_def set_bucket_def)

lemma runs_refl [simp]: "runs E key q l w q l w"
  unfolding runs_def by blast

lemma runs_trans: "runs E key q l w q1 l1 w1 \<Longrightarrow> runs E key q1 l1 w1 q' l' w' \<Longrightarrow> runs E key q l w q' l' w'"
  unfolding runs_def by (meson rtranclp_trans)

lemma runs_step:
  assumes "\<And>lg. \<exists>a lg'. lstep E key q (alone l w lg) = Some (q1, a, alone l1 w1 lg')" "runs E key q1 l1 w1 q' l' w'"
  shows "runs E key q l w q' l' w'"
proof -
  have "runs E key q l w q1 l1 w1"
    unfolding runs_def
  proof
    fix lg
    obtain a lg' where "lstep E key q (alone l w lg) = Some (q1, a, alone l1 w1 lg')" using assms(1) by blast
    then have "solo E key (q, alone l w lg) (q1, alone l1 w1 lg')" by (auto simp: solo_def)
    then show "\<exists>lg'. (solo E key)\<^sup>*\<^sup>* (q, alone l w lg) (q1, alone l1 w1 lg')" by blast
  qed
  then show ?thesis using assms(2) by (rule runs_trans)
qed

subsection \<open>Steps that write the same bucket\<close>

lemma update_update: "AList.update k v2 (AList.update k v1 xs) = AList.update k v2 xs"
  by (induction xs) auto

lemma update_same: "map_of xs k = Some v \<Longrightarrow> AList.update k v xs = xs"
  by (induction xs) (auto split: if_splits)

lemma put_put:
  assumes "shards_ok shardIndex shardCount (l_shards l)"
  shows "put_bucket key b2 (put_bucket key b1 l) = put_bucket key b2 l"
proof -
  have "shardIndex key < length (l_shards l)" using assms shardIndex_less by (simp add: shards_ok_def)
  then show ?thesis by (simp add: put_bucket_def Let_def update_update)
qed

lemma put_same: "lookup_bucket l key = Some b \<Longrightarrow> put_bucket key b l = l"
  by (simp add: put_bucket_def lookup_bucket_def Let_def update_same)

lemma put_frame [simp]:
  "put_bucket key b (l\<lparr>l_borrowMgr := m\<rparr>) = (put_bucket key b l)\<lparr>l_borrowMgr := m\<rparr>"
  "put_bucket key b (l\<lparr>l_router := r\<rparr>) = (put_bucket key b l)\<lparr>l_router := r\<rparr>"
  "put_bucket key b (l\<lparr>l_extras := x\<rparr>) = (put_bucket key b l)\<lparr>l_extras := x\<rparr>"
  by (simp_all add: put_bucket_def Let_def)

lemma wf_at_shards: "wf_at key b l \<Longrightarrow> shards_ok shardIndex shardCount (l_shards l)"
  by (simp add: wf_at_def limiter_wf_def)

lemma wf_at_lookup: "wf_at key b l \<Longrightarrow> lookup_bucket l key = Some b"
  by (simp add: wf_at_def)

lemma lookup_put_same [simp]:
  "shards_ok shardIndex shardCount (l_shards l) \<Longrightarrow> lookup_bucket (put_bucket key b l) key = Some b"
  by (simp add: lookup_put)

lemmas solo_defs = on_bucket_def touch_def read_bucket_def look_up_def manage_def quiet_def Let_def split_beta

subsection \<open>The operations\<close>

definition served_at :: "u64 \<Rightarrow> site \<Rightarrow> 'r limiter \<Rightarrow> pc" where
  "served_at n sp l = (if sp = Fast \<and> o_preBorrowEnabled (l_opts l) then Call n (ABelow Live) else Returned (Inr True))"

lemma serve_runs:
  assumes "shards_ok shardIndex shardCount (l_shards l)" "lookup_bucket l key = Some b" "try_serve key n b l = (ok, b', l')"
  shows "runs E key (Call n (AConsume Live sp)) l w (if ok then served_at n sp l' else failed_at n Live sp) l' w"
proof (cases "fst (tryConsume n b)")
  case True
  let ?b = "snd (tryConsume n b)" and ?c = "recordConsumption n (snd (tryConsume n b))"
  have e: "ok" "l' = (put_bucket key ?c l)\<lparr>l_borrowMgr := RecordConsumption key n (l_borrowMgr l)\<rparr>"
    using assms(3) True by (auto simp: try_serve_def Let_def split_beta)
  have "runs E key (Call n (ASize Live sp)) (put_bucket key ?c l) w (served_at n sp l') l' w"
    by (rule runs_step [OF _ runs_refl]) (auto simp: solo_defs served_at_def e(2))
  then have "runs E key (Call n (ACount Live sp)) (put_bucket key ?b l) w (served_at n sp l') l' w"
    by (rule runs_step [rotated]) (auto simp: solo_defs assms(1) put_put)
  then have "runs E key (Call n (AConsume Live sp)) l w (served_at n sp l') l' w"
    by (rule runs_step [rotated]) (use True in \<open>auto simp: solo_defs assms(2)\<close>)
  then show ?thesis using e(1) by simp
next
  case False
  then have e: "\<not> ok" "l' = put_bucket key (snd (tryConsume n b)) l"
    using assms(3) by (auto simp: try_serve_def Let_def split_beta)
  have "runs E key (Call n (AConsume Live sp)) l w (failed_at n Live sp) l' w"
    by (rule runs_step [OF _ runs_refl]) (use False in \<open>auto simp: solo_defs assms(2) e\<close>)
  then show ?thesis using e(1) by simp
qed


lemma look_up_runs:
  assumes "getOrCreateBucket E key l w = (b, l', w')" "\<And>s. lstep E key q s = look_up E key q1 s"
  shows "runs E key q l w q1 l' w'"
  by (rule runs_step [OF _ runs_refl]) (use assms in \<open>auto simp: look_up_def quiet_def\<close>)

text \<open>The reset of the window, from the lookup to the release of the mutex.\<close>

definition lock_alone :: "string \<Rightarrow> 'r limiter \<Rightarrow> 'w \<Rightarrow> (string \<times> event) list \<Rightarrow> ('w, 'r) shared" where
  "lock_alone key l w lg = (alone l w lg)\<lparr>s_locks := [(key, Live)]\<rparr>"

lemma lock_alone_fields [simp]:
  "s_lim (lock_alone key l w lg) = l" "s_world (lock_alone key l w lg) = w" "s_locks (lock_alone key l w lg) = [(key, Live)]"
  "s_log (lock_alone key l w lg) = lg" "(lock_alone key l w lg)\<lparr>s_lim := l'\<rparr> = lock_alone key l' w lg"
  "(lock_alone key l w lg)\<lparr>s_world := w'\<rparr> = lock_alone key l w' lg" "(lock_alone key l w lg)\<lparr>s_log := lg'\<rparr> = lock_alone key l w lg'"
  "(alone l w lg)\<lparr>s_locks := [(key, Live)]\<rparr> = lock_alone key l w lg" "(lock_alone key l w lg)\<lparr>s_locks := []\<rparr> = alone l w lg"
  "get_bucket key Live (lock_alone key l w lg) = lookup_bucket l key"
  "set_bucket key Live b (lock_alone key l w lg) = lock_alone key (put_bucket key b l) w lg"
  by (simp_all add: lock_alone_def alone_def get_bucket_def set_bucket_def)

lemma solo_step: "lstep E key q s = Some (q1, a, s1) \<Longrightarrow> (solo E key)\<^sup>*\<^sup>* (q1, s1) x \<Longrightarrow> (solo E key)\<^sup>*\<^sup>* (q, s) x"
  by (rule converse_rtranclp_into_rtranclp [of _ _ "(q1, s1)"]) (auto simp: solo_def)

lemma reset_runs:
  assumes "limiter_wf l" "resetWindow E key ms l w = Return (e, l', w')"
  shows "runs E key (Reset n Live (RLookup ms)) l w (Call n (AConsume Live AfterReset)) l' w'"
proof -
  obtain b l1 w1 where g: "getOrCreateBucket E key l w = (b, l1, w1)" by (rule prod_cases3)
  have wf: "wf_at key b l1" "l_opts l1 = l_opts l"
    using getOrCreate_wf [OF assms(1) g] g
    by (auto simp: getOrCreateBucket_def Let_def split_beta split: option.splits)
  note sh = wf_at_shards [OF wf(1)] and lk = wf_at_lookup [OF wf(1)]
  let ?W = "Milliseconds (o_window (l_opts l))"
  let ?st = "i64_div ms ?W * ?W"
  have W: "?W \<noteq> 0" using assms(2) g by (auto simp: resetWindow_def)
  have unlock: "(solo E key)\<^sup>*\<^sup>* (Reset n Live (RUnlock Live), lock_alone key l2 w2 lg) (Call n (AConsume Live AfterReset), alone l2 w2 lg)"
    for l2 w2 lg
    by (rule solo_step [OF _ rtranclp.rtrancl_refl]) (simp add: quiet_def)
  have "\<exists>lg'. (solo E key)\<^sup>*\<^sup>* (Reset n Live (RCheck ms Live), lock_alone key l1 w1 lg) (Call n (AConsume Live AfterReset), alone l' w' lg')" for lg
  proof (cases "sint ?st \<le> sint (WindowStartMs (b_window b))")
    case True
    then have "l' = l1" "w' = w1" using assms(2) g W by (auto simp: resetWindow_def Let_def)
    then show ?thesis
      using True W lk wf(2)
      by (intro exI, intro solo_step [OF _ unlock]) (simp add: solo_defs)
  next
    case False
    obtain e1 w2 where p: "pool_ResetWindow (e_redis E) key (o_limit (l_opts l)) ?st w1 = (e1, w2)"
      by (cases "pool_ResetWindow (e_redis E) key (o_limit (l_opts l)) ?st w1")
    have check: "lstep E key (Reset n Live (RCheck ms Live)) (lock_alone key l1 w1 lg)
        = Some (Reset n Live (RPool ?st Live), Quiet, lock_alone key l1 w1 lg)"
      using False W lk wf(2) by (simp add: solo_defs)
    show ?thesis
    proof (cases e1)
      case (Some msg)
      then have "l' = l1" "w' = w2" using assms(2) g W False p by (auto simp: resetWindow_def Let_def)
      then show ?thesis
        using p wf(2) Some
        by (intro exI, intro solo_step [OF check] solo_step [OF _ unlock]) (simp add: solo_defs)
    next
      case None
      let ?l = "\<lambda>b2. put_bucket key b2 l1"
      let ?d = "snd (drain b)" let ?c = "ClearRedisExhausted ?d" let ?z = "resetConsumed ?c"
      let ?v = "?z\<lparr>b_window := UpdateWindowStart ?st (b_window ?z)\<rparr>"
      have e: "l' = (?l ?v)\<lparr>l_borrowMgr := bm_Reset key (l_borrowMgr (?l ?v))\<rparr>" "w' = w2"
        using assms(2) g W False p None by (auto simp: resetWindow_def Let_def)
      have sh': "shards_ok shardIndex shardCount (l_shards (?l x))" for x using sh by (rule shards_put)
      have "(solo E key)\<^sup>*\<^sup>* (Reset n Live (RForget Live), lock_alone key (?l ?v) w2 lg2) (Call n (AConsume Live AfterReset), alone l' w' lg2)" for lg2
        unfolding e by (rule solo_step [OF _ unlock]) (simp add: solo_defs)
      then have "(solo E key)\<^sup>*\<^sup>* (Reset n Live (RWindow ?st Live), lock_alone key (?l ?z) w2 lg2) (Call n (AConsume Live AfterReset), alone l' w' lg2)" for lg2
        by (rule solo_step [rotated]) (simp add: solo_defs sh put_put)
      then have "(solo E key)\<^sup>*\<^sup>* (Reset n Live (RZero ?st Live), lock_alone key (?l ?c) w2 lg2) (Call n (AConsume Live AfterReset), alone l' w' lg2)" for lg2
        by (rule solo_step [rotated]) (simp add: solo_defs sh put_put)
      then have "(solo E key)\<^sup>*\<^sup>* (Reset n Live (RClear ?st Live), lock_alone key (?l ?d) w2 lg2) (Call n (AConsume Live AfterReset), alone l' w' lg2)" for lg2
        by (rule solo_step [rotated]) (simp add: solo_defs sh put_put)
      then have "(solo E key)\<^sup>*\<^sup>* (Reset n Live (RDrain ?st Live), lock_alone key l1 w2 lg)
          (Call n (AConsume Live AfterReset), alone l' w' (lg @ [(key, Drained (fst (drain b)))]))"
        by (rule solo_step [rotated]) (simp add: solo_defs lk)
      then have "(solo E key)\<^sup>*\<^sup>* (Reset n Live (RPool ?st Live), lock_alone key l1 w1 lg)
          (Call n (AConsume Live AfterReset), alone l' w' (lg @ [(key, Drained (fst (drain b)))]))"
        by (rule solo_step [rotated]) (use p wf(2) None in \<open>simp add: solo_defs\<close>)
      then show ?thesis using solo_step [OF check] by blast
    qed
  qed
  moreover have "lstep E key (Reset n Live (RLock ms Live)) (alone l1 w1 lg) = Some (Reset n Live (RCheck ms Live), Quiet, lock_alone key l1 w1 lg)" for lg
    by (simp add: quiet_def)
  ultimately have "runs E key (Reset n Live (RLock ms Live)) l1 w1 (Call n (AConsume Live AfterReset)) l' w'"
    unfolding runs_def by (meson solo_step)
  then show ?thesis
    by (rule runs_trans [OF look_up_runs [OF g], rotated]) simp
qed


text \<open>The two flights.\<close>

definition fly_alone :: "string list \<Rightarrow> string list \<Rightarrow> 'r limiter \<Rightarrow> 'w \<Rightarrow> (string \<times> event) list \<Rightarrow> ('w, 'r) shared" where
  "fly_alone bs ps l w lg = (alone l w lg)\<lparr>s_borrowing := bs, s_probing := ps\<rparr>"

lemma fly_alone_fields [simp]:
  "s_lim (fly_alone bs ps l w lg) = l" "s_world (fly_alone bs ps l w lg) = w" "s_borrowing (fly_alone bs ps l w lg) = bs"
  "s_probing (fly_alone bs ps l w lg) = ps" "s_log (fly_alone bs ps l w lg) = lg"
  "(fly_alone bs ps l w lg)\<lparr>s_lim := l'\<rparr> = fly_alone bs ps l' w lg" "(fly_alone bs ps l w lg)\<lparr>s_world := w'\<rparr> = fly_alone bs ps l w' lg"
  "(fly_alone bs ps l w lg)\<lparr>s_log := lg'\<rparr> = fly_alone bs ps l w lg'"
  "(fly_alone bs ps l w lg)\<lparr>s_borrowing := bs'\<rparr> = fly_alone bs' ps l w lg" "(fly_alone bs ps l w lg)\<lparr>s_probing := ps'\<rparr> = fly_alone bs ps' l w lg"
  "get_bucket key Live (fly_alone bs ps l w lg) = lookup_bucket l key"
  "set_bucket key Live b (fly_alone bs ps l w lg) = fly_alone bs ps (put_bucket key b l) w lg"
  by (simp_all add: fly_alone_def alone_def get_bucket_def set_bucket_def)

lemma alone_fly: "alone l w lg = fly_alone [] [] l w lg"
  by (simp add: fly_alone_def alone_def)

lemma record_grant_frame: "record_grant clk key g m w = (m', w') \<Longrightarrow> bm_sizer m' = bm_sizer m"
  unfolding record_grant_eq by auto

lemma acquire_runs:
  assumes "shards_ok shardIndex shardCount (l_shards l)" "lookup_bucket l key = Some b" "k_ptr k = Live"
    and "Acquire (e_oor E) (e_redis E) (e_wall E) key (k_need k) on_grant (l_borrowMgr l) b w = (g, m, b', w')"
  shows "runs E key (Flight k FEnter) l w (acquired k g) ((put_bucket key b' l)\<lparr>l_borrowMgr := m\<rparr>) w'"
proof -
  let ?l' = "(put_bucket key b' l)\<lparr>l_borrowMgr := m\<rparr>"
  let ?bm = "l_borrowMgr l" and ?done = "\<lambda>lg. (acquired k g, alone ?l' w' lg)"
  let ?size0 = "ComputeBorrowSize (e_oor E) (bm_sizer ?bm)"
  let ?sz = "if ?size0 < k_need k then k_need k else ?size0"
  obtain t w0 where t: "e_wall E w = (t, w0)" by (cases "e_wall E w")
  obtain r w1 where r: "pool_Borrow (e_redis E) key (bm_instanceID ?bm) ?sz (bm_leaseTTLms ?bm) t w0 = (r, w1)" by fastforce
  have last: "(solo E key)\<^sup>*\<^sup>* (Flight k (FLeave v), fly_alone [key] [] l2 w' lg) (?done lg)"
    if "acquire_finish v (l_borrowMgr l2) = (g, m)" "l2\<lparr>l_borrowMgr := m\<rparr> = ?l'" for v l2 lg
  proof -
    have "(solo E key)\<^sup>*\<^sup>* (Flight k (FShared v), fly_alone [] [] l2 w' lg) (?done lg)"
      by (rule solo_step [OF _ rtranclp.rtrancl_refl]) (use that in \<open>simp add: solo_defs alone_fly\<close>)
    then show ?thesis by (rule solo_step [rotated]) simp
  qed
  have "\<exists>lg'. (solo E key)\<^sup>*\<^sup>* (Flight k (FPool ?sz), fly_alone [key] [] l w lg) (?done lg')" for lg
  proof (cases "\<exists>n. r = Inr n \<and> 0 < n")
    case False
    then have f: "acquire_finish r ?bm = (g, m)" "b' = b" "w' = w1"
      using assms(4) t r by (auto simp: Acquire_def acquire_flight_def Let_def split_beta split: sum.splits if_splits)
    have "l\<lparr>l_borrowMgr := m\<rparr> = ?l'" using put_same [OF assms(2)] f(2) by simp
    note L = last [OF f(1) this]
    show ?thesis
      by (intro exI, rule solo_step [OF _ L]) (use False t r f(3) in \<open>auto simp: solo_defs split: sum.splits\<close>)
  next
    case True
    then obtain n where n: "r = Inr n" "0 < n" by blast
    let ?c = "ClearRedisExhausted b"
    obtain m1 w2 where rg: "record_grant (e_wall E) key n ?bm w1 = (m1, w2)" by (cases "record_grant (e_wall E) key n ?bm w1")
    have f: "acquire_finish r m1 = (g, m)" "b' = refill n ?c" "w' = w2"
      using assms(4) t r n rg by (auto simp: Acquire_def acquire_flight_def on_grant_def Let_def split_beta)
    have sh: "shards_ok shardIndex shardCount (l_shards (put_bucket key x l))" for x using assms(1) by (rule shards_put)
    let ?lg = "lg @ [(key, Delivered n)]"
    have "(solo E key)\<^sup>*\<^sup>* (Flight k (FRecord n), fly_alone [key] [] (put_bucket key b' l) w1 ?lg) (?done ?lg)"
      by (rule solo_step [OF _ last [of "Inr n" "(put_bucket key b' l)\<lparr>l_borrowMgr := m1\<rparr>"]])
         (use rg f n in \<open>simp_all add: solo_defs\<close>)
    then have "(solo E key)\<^sup>*\<^sup>* (Flight k (FRefill n), fly_alone [key] [] (put_bucket key ?c l) w1 ?lg) (?done ?lg)"
      by (rule solo_step [rotated]) (simp add: solo_defs assms(1,3) put_put f(2))
    then have "(solo E key)\<^sup>*\<^sup>* (Flight k (FClear n), fly_alone [key] [] l w1 ?lg) (?done ?lg)"
      by (rule solo_step [rotated]) (simp add: solo_defs assms(2,3))
    then have "(solo E key)\<^sup>*\<^sup>* (Flight k (FPool ?sz), fly_alone [key] [] l w lg) (?done ?lg)"
      by (rule solo_step [rotated]) (use t r n in \<open>simp add: solo_defs\<close>)
    then show ?thesis by blast
  qed
  then have "\<exists>lg'. (solo E key)\<^sup>*\<^sup>* (Flight k FCompute, fly_alone [key] [] l w lg) (?done lg')" for lg
    using solo_step [of E key "Flight k FCompute" "fly_alone [key] [] l w lg"] by (fastforce simp: quiet_def Let_def)
  moreover have "lstep E key (Flight k FEnter) (alone l w lg) = Some (Flight k FCompute, Quiet, fly_alone [key] [] l w lg)" for lg
    by (simp add: alone_fly quiet_def)
  ultimately show ?thesis unfolding runs_def by (meson solo_step)
qed


lemma probe_runs:
  assumes "shards_ok shardIndex shardCount (l_shards l)" "lookup_bucket l key = Some b"
    and "acquireFromPeers E key n b l w = Return (p, b', l', w')"
  shows "runs E key (Probe n Live re PEnter) l w (asked n Live re p) (put_bucket key b' l') w'"
proof -
  let ?done = "\<lambda>lg. (asked n Live re p, alone (put_bucket key b' l') w' lg)"
  obtain a where a: "l_acquirer l = Some a" using assms(3) by (cases "l_acquirer l") (auto simp: acquireFromPeers_def)
  obtain t w1 where t: "e_wall E w = (t, w1)" by (cases "e_wall E w")
  obtain x where x: "acquire_body (e_stub E) (e_lookup E) (e_sched E w1) (e_oor E) (l_gossiper l) t a key n w1 = Return x"
    using assms(3) a t
    by (cases "acquire_body (e_stub E) (e_lookup E) (e_sched E w1) (e_oor E) (l_gossiper l) t a key n w1")
       (auto simp: acquireFromPeers_def acquirer_Acquire_def)
  obtain r extras reps w2 where xr: "x = (r, extras, reps, w2)" by (rule prod_cases4)
  let ?l = "l\<lparr>l_extras := l_extras l @ map (Pair key) extras\<rparr>"
  have e: "p = acquirer_shared r" "w' = w2" "l' = ?l"
    "b' = (case r of Inr g \<Rightarrow> if 0 < g then refill g b else b | Inl e \<Rightarrow> b)"
    using assms(3) a t x xr by (auto simp: acquireFromPeers_def acquirer_Acquire_def)
  have same: "asked n Live re r = asked n Live re p"
    by (simp add: asked_def e acquirer_shared_def split: sum.split)
  have lk: "lookup_bucket ?l key = Some b" using assms(2) by simp
  have leave: "(solo E key)\<^sup>*\<^sup>* (Probe n Live re (PLeave r), fly_alone [] [key] (put_bucket key b' l') w' lg) (?done lg)" for lg
  proof -
    have "(solo E key)\<^sup>*\<^sup>* (Probe n Live re (PShared r), fly_alone [] [] (put_bucket key b' l') w' lg) (?done lg)"
      by (rule solo_step [OF _ rtranclp.rtrancl_refl]) (simp add: quiet_def same alone_fly)
    then show ?thesis by (rule solo_step [rotated]) simp
  qed
  have "\<exists>lg'. (solo E key)\<^sup>*\<^sup>* (Probe n Live re PAsk, fly_alone [] [key] l w lg) (?done lg')" for lg
  proof (cases "\<exists>g. r = Inr g \<and> 0 < g")
    case False
    then have eq: "put_bucket key b' l' = ?l" using put_same [OF lk] e by (auto split: sum.splits)
    show ?thesis
      unfolding eq by (intro exI, rule solo_step [OF _ leave [unfolded eq]]) (use False a t x xr e in \<open>auto simp: solo_defs split: sum.splits\<close>)
  next
    case True
    then obtain g where g: "r = Inr g" "0 < g" by blast
    let ?lg = "lg @ map (\<lambda>g. (key, Delivered g)) extras @ [(key, Delivered g)]"
    have "(solo E key)\<^sup>*\<^sup>* (Probe n Live re (PRefill g), fly_alone [] [key] ?l w' ?lg) (?done ?lg)"
      by (rule solo_step [OF _ leave]) (use g e lk in \<open>simp add: solo_defs\<close>)
    then have "(solo E key)\<^sup>*\<^sup>* (Probe n Live re PAsk, fly_alone [] [key] l w lg) (?done ?lg)"
      by (rule solo_step [rotated]) (use a t x xr g e in \<open>simp add: solo_defs\<close>)
    then show ?thesis by blast
  qed
  moreover have "lstep E key (Probe n Live re PEnter) (alone l w lg) = Some (Probe n Live re PAsk, Quiet, fly_alone [] [key] l w lg)" for lg
    by (simp add: alone_fly quiet_def)
  ultimately show ?thesis unfolding runs_def by (meson solo_step)
qed

subsection \<open>The whole call\<close>

text \<open>How a call ends: with an answer, or with a panic.\<close>

definition ends ::
    "('w, 'r, 'c) env \<Rightarrow> string \<Rightarrow> pc \<Rightarrow> 'r limiter \<Rightarrow> 'w \<Rightarrow> ((err + bool) \<times> 'r limiter \<times> 'w) go \<Rightarrow> bool" where
  "ends E key q l w res \<longleftrightarrow> (\<forall>lg. \<exists>s'. case res of
     Return (r, l', w') \<Rightarrow> (\<exists>lg'. s' = alone l' w' lg') \<and> (solo E key)\<^sup>*\<^sup>* (q, alone l w lg) (Returned r, s')
   | Panic msg \<Rightarrow> (solo E key)\<^sup>*\<^sup>* (q, alone l w lg) (Panicked msg, s'))"

lemma ends_after:
  assumes "runs E key q l w q1 l1 w1" "ends E key q1 l1 w1 res"
  shows "ends E key q l w res"
  unfolding ends_def
proof
  fix lg
  obtain lg1 where r: "(solo E key)\<^sup>*\<^sup>* (q, alone l w lg) (q1, alone l1 w1 lg1)" using assms(1) by (auto simp: runs_def)
  obtain s' where "case res of
      Return (r, l', w') \<Rightarrow> (\<exists>lg'. s' = alone l' w' lg') \<and> (solo E key)\<^sup>*\<^sup>* (q1, alone l1 w1 lg1) (Returned r, s')
    | Panic msg \<Rightarrow> (solo E key)\<^sup>*\<^sup>* (q1, alone l1 w1 lg1) (Panicked msg, s')"
    using assms(2) unfolding ends_def by meson
  then show "\<exists>s'. case res of
      Return (r, l', w') \<Rightarrow> (\<exists>lg'. s' = alone l' w' lg') \<and> (solo E key)\<^sup>*\<^sup>* (q, alone l w lg) (Returned r, s')
    | Panic msg \<Rightarrow> (solo E key)\<^sup>*\<^sup>* (q, alone l w lg) (Panicked msg, s')"
    by (intro exI [of _ s']) (auto split: go.splits intro: rtranclp_trans [OF r])
qed

lemma ends_return: "runs E key q l w (Returned r) l' w' \<Longrightarrow> ends E key q l w (Return (r, l', w'))"
  unfolding ends_def runs_def by auto

lemma ends_panic: "(\<And>lg. \<exists>a s'. lstep E key q (alone l w lg) = Some (Panicked msg, a, s')) \<Longrightarrow> ends E key q l w (Panic msg)"
  unfolding ends_def by (simp, metis solo_step rtranclp.rtrancl_refl)

lemma probe_panics:
  assumes "acquireFromPeers E key n b l w = Panic msg"
  shows "ends E key (Probe n Live re PEnter) l w (Panic msg)"
  unfolding ends_def go.case
proof
  fix lg
  have "\<exists>s'. lstep E key (Probe n Live re PAsk) (fly_alone [] [key] l w lg) = Some (Panicked msg, Quiet, s')"
  proof (cases "l_acquirer l")
    case None
    then show ?thesis using assms by (simp add: acquireFromPeers_def quiet_def)
  next
    case (Some a)
    obtain t w1 where t: "e_wall E w = (t, w1)" by (cases "e_wall E w")
    have "acquire_body (e_stub E) (e_lookup E) (e_sched E w1) (e_oor E) (l_gossiper l) t a key n w1 = Panic msg"
      using assms Some t
      by (cases "acquire_body (e_stub E) (e_lookup E) (e_sched E w1) (e_oor E) (l_gossiper l) t a key n w1")
         (auto simp: acquireFromPeers_def acquirer_Acquire_def split: prod.splits)
    then show ?thesis using Some t by (simp add: quiet_def)
  qed
  then obtain s' where s': "lstep E key (Probe n Live re PAsk) (fly_alone [] [key] l w lg) = Some (Panicked msg, Quiet, s')" by blast
  have "lstep E key (Probe n Live re PEnter) (alone l w lg) = Some (Probe n Live re PAsk, Quiet, fly_alone [] [key] l w lg)"
    by (simp add: alone_fly quiet_def)
  from solo_step [OF this solo_step [OF s' rtranclp.rtrancl_refl]]
  show "\<exists>s'. (solo E key)\<^sup>*\<^sup>* (Probe n Live re PEnter, alone l w lg) (Panicked msg, s')" by blast
qed

lemma try_ends:
  assumes "wf_at key b l" "try_serve key n b l = (ok, b', l')" "sp \<noteq> Fast"
    and "ok \<Longrightarrow> res = Return (Inr True, l', w)" "\<not> ok \<Longrightarrow> ends E key (failed_at n Live sp) l' w res"
  shows "ends E key (Call n (AConsume Live sp)) l w res"
proof (rule ends_after [OF serve_runs [OF wf_at_shards [OF assms(1)] wf_at_lookup [OF assms(1)] assms(2)]])
  show "ends E key (if ok then served_at n sp l' else failed_at n Live sp) l' w res"
    using assms(3-5) by (cases ok) (auto simp: served_at_def intro!: ends_return)
qed

lemma loop_ends:
  assumes "allow_loop fuel E key n re pchk b l w = Some res" "wf_at key b l"
  shows "ends E key (Call n (ADecide Live re pchk)) l w res"
  using assms
proof (induction fuel arbitrary: re pchk b l w)
  case (Suc fuel)
  show ?case
  proof (cases "e_decide E")
    case None
    then show ?thesis using Suc.prems(1) by (auto simp: quiet_def intro!: ends_panic)
  next
    case (Some d)
    let ?rc = "\<lparr>rc_Key = key, rc_Need = n, rc_RedisExhausted = re, rc_HasPeers = (l_acquirer l \<noteq> None \<and> \<not> pchk)\<rparr>"
    obtain x r1 w1 where x: "d (l_gossiper l) ?rc (l_router l) w = (x, r1, w1)" by (rule prod_cases3)
    let ?l = "l\<lparr>l_router := r1\<rparr>"
    have wf: "wf_at key b ?l" using Suc.prems(2) by (simp add: wf_at_def)
    note sh = wf_at_shards [OF wf] and lk = wf_at_lookup [OF wf]
    note run = Suc.prems(1) [unfolded allow_loop.simps Some option.case Let_def x prod.case]
    have step: "runs E key (Call n (ADecide Live re pchk)) l w (case x of
         Inl e \<Rightarrow> Returned (Inl e)
       | Inr DecisionRedis \<Rightarrow> Flight (KAllow n Live re pchk) FEnter
       | Inr DecisionPeer \<Rightarrow> Probe n Live re PEnter
       | Inr DecisionDeny \<Rightarrow> Returned (Inr False)) ?l w1"
      by (rule runs_step [OF _ runs_refl]) (use Some x in \<open>auto simp: quiet_def Let_def\<close>)
    show ?thesis
    proof (cases x)
      case (Inl e)
      then have "res = Return (Inl e, ?l, w1)" using run by simp
      then show ?thesis using step Inl by (auto intro: ends_return)
    next
      case (Inr dec)
      note run = run [unfolded Inr sum.case] and step = step [unfolded Inr sum.case]
      show ?thesis
      proof (cases dec)
        case DecisionDeny
        then have "res = Return (Inr False, ?l, w1)" using run by simp
        then show ?thesis using step DecisionDeny by (auto intro: ends_return)
      next
        case DecisionRedis
        note run = run [unfolded DecisionRedis Decision.case] and step = step [unfolded DecisionRedis Decision.case]
        obtain g m b1 w2 where A: "Acquire (e_oor E) (e_redis E) (e_wall E) key n on_grant (l_borrowMgr ?l) b w1 = (g, m, b1, w2)"
          by (rule prod_cases4)
        note run = run [unfolded A prod.case]
        let ?l2 = "(put_bucket key b1 ?l)\<lparr>l_borrowMgr := m\<rparr>"
        have fl: "runs E key (Call n (ADecide Live re pchk)) l w (acquired (KAllow n Live re pchk) g) ?l2 w2"
          by (rule runs_trans [OF step acquire_runs [OF sh lk]]) (use A in simp_all)
        have "bm_ok (l_borrowMgr ?l)" using wf by (simp add: wf_at_def limiter_wf_def)
        note A' = Acquire_bucket [OF this A]
        have l2: "wf_at key b1 ?l2" by (rule wf_at_manager [OF wf_at_put [OF wf A'(2)] A'(1)])
        have "ends E key (acquired (KAllow n Live re pchk) g) ?l2 w2 res"
        proof (cases g)
          case (Inl e)
          then show ?thesis using run by (auto simp: acquired_def intro!: ends_return)
        next
          case (Inr gr)
          note run = run [unfolded Inr sum.case]
          show ?thesis
          proof (cases "0 < gr")
            case True
            obtain v m3 w3 where B: "Borrowed (e_wall E) key m w2 = (v, m3, w3)" by (rule prod_cases3)
            let ?l3 = "?l2\<lparr>l_borrowMgr := m3\<rparr>"
            obtain ok b4 l4 where T: "try_serve key n b1 ?l3 = (ok, b4, l4)" by (rule prod_cases3)
            have l3: "wf_at key b1 ?l3" using Borrowed_spec [OF A'(1) B] l2 by (blast intro: wf_at_manager)
            have run: "(if ok then Some (Return (Inr True, l4, w3)) else allow_loop fuel E key n re pchk b4 l4 w3) = Some res"
              using run True unfolding B prod.case T by simp
            have tr: "ends E key (Call n (AConsume Live (AfterRedis re pchk))) ?l3 w3 res"
              by (rule try_ends [OF l3 T]) (use run Suc.IH try_serve_wf(1) [OF l3 T] in \<open>auto split: if_splits\<close>)
            have bk: "runs E key (Call n (ABooked Live re pchk)) ?l2 w2 (Call n (AConsume Live (AfterRedis re pchk))) ?l3 w3"
              by (rule runs_step [OF _ runs_refl]) (use B in \<open>auto simp: quiet_def\<close>)
            show ?thesis using ends_after [OF bk tr] True Inr by (simp add: acquired_def)
          next
            case False
            let ?m = "put_bucket key (MarkRedisExhausted b1) ?l2"
            have mk: "runs E key (Call n (AMarkEx Live pchk)) ?l2 w2 (Call n (ADecide Live True pchk)) ?m w2"
              by (rule runs_step [OF _ runs_refl]) (use sh in \<open>auto simp: solo_defs put_put\<close>)
            have "wf_at key (MarkRedisExhausted b1) ?m" by (rule wf_at_put [OF l2]) simp
            then show ?thesis
              using ends_after [OF mk] Suc.IH run False Inr by (simp add: acquired_def)
          qed
        qed
        then show ?thesis by (rule ends_after [OF fl])
      next
        case DecisionPeer
        note run = run [unfolded DecisionPeer Decision.case] and step = step [unfolded DecisionPeer Decision.case]
        show ?thesis
        proof (cases "acquireFromPeers E key n b ?l w1")
          case (Panic msg)
          then show ?thesis using run ends_after [OF step probe_panics [OF Panic]] by simp
        next
          case (Return y)
          obtain p b2 l2 w2 where y: "y = (p, b2, l2, w2)" by (rule prod_cases4)
          note P = Return [unfolded y]
          note run = run [unfolded P go.case prod.case]
          have pr: "runs E key (Call n (ADecide Live re pchk)) l w (asked n Live re p) (put_bucket key b2 l2) w2"
            by (rule runs_trans [OF step probe_runs [OF sh lk P]])
          note P' = acquireFromPeers_bucket [OF P]
          have "wf_at key b l2" using wf P'(2) by (auto simp: wf_at_def)
          then have l3: "wf_at key b2 (put_bucket key b2 l2)" by (rule wf_at_put) (rule P'(1))
          have "ends E key (asked n Live re p) (put_bucket key b2 l2) w2 res"
          proof (cases "\<exists>g. p = Inr g \<and> 0 < g")
            case False
            then have "allow_loop fuel E key n re True b2 (put_bucket key b2 l2) w2 = Some res"
              "asked n Live re p = Call n (ADecide Live re True)"
              using run by (auto simp: asked_def acquirer_shared_def split: sum.splits if_splits)
            then show ?thesis using Suc.IH l3 by simp
          next
            case True
            then obtain g where g: "p = Inr g" "0 < g" by blast
            obtain ok b4 l4 where T: "try_serve key n b2 (put_bucket key b2 l2) = (ok, b4, l4)" by (rule prod_cases3)
            have run: "(if ok then Some (Return (Inr True, l4, w2)) else allow_loop fuel E key n re True b4 l4 w2) = Some res"
              using run g T by simp
            have "ends E key (Call n (AConsume Live (AfterPeer re))) (put_bucket key b2 l2) w2 res"
              by (rule try_ends [OF l3 T]) (use run Suc.IH try_serve_wf(1) [OF l3 T] in \<open>auto split: if_splits\<close>)
            then show ?thesis using g by (simp add: asked_def acquirer_shared_def)
          qed
          then show ?thesis by (rule ends_after [OF pr])
        qed
      qed
    qed
  qed
qed simp


lemma reset_panics:
  assumes "resetWindow E key ms l w = Panic msg"
  shows "ends E key (Reset n Live (RLookup ms)) l w (Panic msg)"
proof -
  obtain b l1 w1 where g: "getOrCreateBucket E key l w = (b, l1, w1)" by (rule prod_cases3)
  have o: "l_opts l1 = l_opts l"
    using g by (auto simp: getOrCreateBucket_def Let_def split_beta split: option.splits)
  have W: "Milliseconds (o_window (l_opts l)) = 0" "msg = ''integer divide by zero''"
    using assms g by (auto simp: resetWindow_def Let_def split_beta split: if_splits option.splits)
  have "ends E key (Reset n Live (RLock ms Live)) l1 w1 (Panic msg)"
    unfolding ends_def go.case
  proof
    fix lg
    have "lstep E key (Reset n Live (RCheck ms Live)) (lock_alone key l1 w1 lg) = Some (Panicked msg, Quiet, lock_alone key l1 w1 lg)"
      using W o by (simp add: quiet_def Let_def)
    moreover have "lstep E key (Reset n Live (RLock ms Live)) (alone l1 w1 lg) = Some (Reset n Live (RCheck ms Live), Quiet, lock_alone key l1 w1 lg)"
      by (simp add: quiet_def)
    ultimately show "\<exists>s'. (solo E key)\<^sup>*\<^sup>* (Reset n Live (RLock ms Live), alone l1 w1 lg) (Panicked msg, s')"
      using solo_step rtranclp.rtrancl_refl by meson
  qed
  then show ?thesis by (rule ends_after [OF look_up_runs [OF g], rotated]) simp
qed

lemma mark_runs:
  assumes "wf_at key b l"
  shows "runs E key (Call n (AMark Live)) l w (Returned (Inr True)) (maybePreBorrow key b l) w"
proof (rule runs_step [OF _ runs_refl])
  fix lg
  show "\<exists>a lg'. lstep E key (Call n (AMark Live)) (alone l w lg)
      = Some (Returned (Inr True), a, alone (maybePreBorrow key b l) w lg')"
    using wf_at_lookup [OF assms] put_same [of l key b]
    by (cases "b_preBorrowing b") (auto simp: TryMarkPreBorrowing_def maybePreBorrow_def quiet_def)
qed

lemma AllowN_ends_as:
  assumes "limiter_wf l" "AllowN fuel E key n l w = Some res"
  shows "ends E key (Call n AStart) l w res"
proof (cases "l_closed l")
  case True
  then have "res = Return (Inl ErrClosed, l, w)" using assms(2) by (simp add: AllowN_def)
  moreover have "runs E key (Call n AStart) l w (Returned (Inl ErrClosed)) l w"
    by (rule runs_step [OF _ runs_refl]) (use True in \<open>auto simp: quiet_def\<close>)
  ultimately show ?thesis by (auto intro: ends_return)
next
  case False
  obtain t w1 where t: "e_clock E w = (t, w1)" by (cases "e_clock E w")
  obtain b l1 w2 where g: "getOrCreateBucket E key l w1 = (b, l1, w2)" by (rule prod_cases3)
  let ?b = "updateAccess (UnixMilli t) b" and ?l = "put_bucket key (updateAccess (UnixMilli t) b) l1"
  obtain ok b2 l2 where T: "try_serve key n ?b ?l = (ok, b2, l2)" by (rule prod_cases3)
  have l1: "wf_at key b l1" using getOrCreate_wf [OF assms(1) g] by blast
  have wf: "wf_at key ?b ?l" by (rule wf_at_put [OF l1]) simp
  note l2 = try_serve_wf(1) [OF wf T]
  note run = assms(2) [unfolded AllowN_def t g Let_def prod.case T]
  have "runs E key (Call n (ATouch Live (UnixMilli t))) l1 w2 (Call n (AConsume Live Fast)) ?l w2"
    by (rule runs_step [OF _ runs_refl]) (use wf_at_lookup [OF l1] in \<open>auto simp: solo_defs\<close>)
  then have "runs E key (Call n ALookup) l w (Call n (AConsume Live Fast)) ?l w2"
    by (rule runs_step [rotated]) (use t g in \<open>auto simp: solo_defs\<close>)
  then have "runs E key (Call n AStart) l w (Call n (AConsume Live Fast)) ?l w2"
    by (rule runs_step [rotated]) (use False in \<open>auto simp: quiet_def\<close>)
  note start = runs_trans [OF this serve_runs [OF wf_at_shards [OF wf] wf_at_lookup [OF wf] T]]
  show ?thesis
  proof (cases ok)
    case True
    have res: "res = Return (Inr True, if o_preBorrowEnabled (l_opts l2) \<and>
        belowPreBorrowThreshold (e_oor E) (o_minBorrow (l_opts l2)) (o_preBorrowThreshold (l_opts l2)) b2
        then maybePreBorrow key b2 l2 else l2, w2)"
      using run True False by simp
    show ?thesis
    proof (cases "o_preBorrowEnabled (l_opts l2)")
      case False
      then show ?thesis using start res True by (auto simp: served_at_def intro: ends_return)
    next
      case on: True
      let ?low = "belowPreBorrowThreshold (e_oor E) (o_minBorrow (l_opts l2)) (o_preBorrowThreshold (l_opts l2)) b2"
      have "runs E key (Call n (ABelow Live)) l2 w2 (if ?low then Call n (AMark Live) else Returned (Inr True)) l2 w2"
        by (rule runs_step [OF _ runs_refl]) (use wf_at_lookup [OF l2] in \<open>auto simp: solo_defs\<close>)
      then have "runs E key (Call n (ABelow Live)) l2 w2 (Returned (Inr True)) (if ?low then maybePreBorrow key b2 l2 else l2) w2"
        using runs_trans [OF _ mark_runs [OF l2]] by (auto split: if_splits)
      then show ?thesis
        using runs_trans [OF start] True on res by (auto simp: served_at_def intro: ends_return)
    qed
  next
    case no: False
    note start = start [unfolded if_not_P [OF no] failed_at.simps]
    obtain t' w3 where t': "e_clock E w2 = (t', w3)" by (cases "e_clock E w2")
    have "runs E key (Call n (ANeeds Live (UnixMilli t'))) l2 w3
        (if needsReset (UnixMilli t') b2 then Reset n Live (RLookup (UnixMilli t')) else Call n (AExhausted Live)) l2 w3"
      by (rule runs_step [OF _ runs_refl]) (use wf_at_lookup [OF l2] in \<open>auto simp: solo_defs\<close>)
    then have "runs E key (Call n (AClock Live)) l2 w2
        (if needsReset (UnixMilli t') b2 then Reset n Live (RLookup (UnixMilli t')) else Call n (AExhausted Live)) l2 w3"
      by (rule runs_step [rotated]) (use t' in \<open>auto simp: quiet_def\<close>)
    note start = runs_trans [OF start this]
    have loop: "ends E key (Call n (AExhausted Live)) l3 w4 res"
      if "wf_at key b3 l3" "allow_loop fuel E key n (IsRedisExhausted b3) False b3 l3 w4 = Some res" for b3 l3 w4
    proof (rule ends_after [OF runs_step [OF _ runs_refl] loop_ends [OF that(2,1)]])
      show "\<exists>a lg'. lstep E key (Call n (AExhausted Live)) (alone l3 w4 lg)
          = Some (Call n (ADecide Live (IsRedisExhausted b3) False), a, alone l3 w4 lg')" for lg
        using wf_at_lookup [OF that(1)] by (auto simp: solo_defs)
    qed
    note run = run [unfolded allow_slow_def t' Let_def prod.case]
    show ?thesis
    proof (cases "needsReset (UnixMilli t') b2")
      case False
      then have "ends E key (Call n (AExhausted Live)) l2 w3 res" using loop [OF l2] run no \<open>\<not> l_closed l\<close> by simp
      then show ?thesis using ends_after start False by force
    next
      case True
      have "ends E key (Reset n Live (RLookup (UnixMilli t'))) l2 w3 res"
      proof (cases "resetWindow E key (UnixMilli t') l2 w3")
        case (Panic msg)
        then show ?thesis using run True no \<open>\<not> l_closed l\<close> reset_panics [OF Panic] by simp
      next
        case (Return y)
        obtain e l3 w4 where y: "y = (e, l3, w4)" by (rule prod_cases3)
        note R = Return [unfolded y]
        obtain ok3 b3 l4 where T3: "try_serve key n (current key b2 l3) l3 = (ok3, b3, l4)" by (rule prod_cases3)
        note l3 = resetWindow_wf(1) [OF wf_at_wf [OF l2] R, of b2]
        have run: "(if ok3 then Some (Return (Inr True, l4, w4)) else allow_loop fuel E key n (IsRedisExhausted b3) False b3 l4 w4) = Some res"
          using run True no \<open>\<not> l_closed l\<close> R T3 by simp
        have "ends E key (Call n (AConsume Live AfterReset)) l3 w4 res"
          by (rule try_ends [OF l3 T3]) (use run loop try_serve_wf(1) [OF l3 T3] in \<open>auto split: if_splits\<close>)
        then show ?thesis by (rule ends_after [OF reset_runs [OF wf_at_wf [OF l2] R]])
      qed
      then show ?thesis using ends_after start True by force
    qed
  qed
qed


lemma pre_borrow_runs:
  assumes "limiter_wf l" "lookup_bucket l key = Some b" "preBorrow_job E key l w = (l', w')"
  shows "runs E key (Flight (KPre Live) FEnter) l w Ended l' w'"
proof -
  note sh = limiter_wfD(1) [OF assms(1)]
  obtain r m b1 w1 where A: "Acquire (e_oor E) (e_redis E) (e_wall E) key 0 on_grant (l_borrowMgr l) b w = (r, m, b1, w1)"
    by (rule prod_cases4)
  let ?l = "(put_bucket key b1 l)\<lparr>l_borrowMgr := m\<rparr>"
  let ?c = "put_bucket key (ClearPreBorrowing b1) ?l"
  have e: "l' = ?c\<lparr>l_jobs := remove1 key (l_jobs l)\<rparr>" "w' = w1"
    using assms(2,3) A by (simp_all add: preBorrow_job_def put_put [OF sh])
  have "runs E key (Other BDone) ?c w1 Ended l' w'"
    by (rule runs_step [OF _ runs_refl]) (auto simp: quiet_def e)
  then have "runs E key (Other (BClear Live)) ?l w1 Ended l' w'"
    by (rule runs_step [rotated]) (auto simp: solo_defs sh)
  moreover have "runs E key (Flight (KPre Live) FEnter) l w (acquired (KPre Live) r) ?l w1"
    by (rule acquire_runs [OF sh assms(2)]) (use A in simp_all)
  ultimately show ?thesis by (auto simp: acquired_def intro: runs_trans)
qed

lemma transfer_runs:
  assumes "limiter_wf l" "ValidateTransferRequest q = None" "tr_OriginId q \<noteq> o_instanceID opts"
    and "TransferTokens (limiter_server E opts) q (l, w) = (ans, (l', w'))"
  shows "runs E (tr_LimitKey q) (Other (SLook (tr_Requested q))) l w Ended l' w'"
proof -
  let ?k = "tr_LimitKey q" and ?n = "tr_Requested q"
  obtain b l1 w1 where g: "getOrCreateBucket E ?k l w = (b, l1, w1)" by (rule prod_cases3)
  have l1: "wf_at ?k b l1" using getOrCreate_wf [OF assms(1) g] by blast
  note lk = wf_at_lookup [OF l1]
  have o: "l_opts l1 = l_opts l"
    using g by (auto simp: getOrCreateBucket_def Let_def split_beta split: option.splits)
  have g1: "getOrCreateBucket E ?k l1 w1 = (b, l1, w1)" using lk by (simp add: getOrCreateBucket_def)
  let ?res = "u64_of_f64 (e_oor E) (fmul (f64_of_u64 (o_limit (l_opts l))) (o_reservedMinimum (l_opts l)))"
  let ?amt = "if remaining b - ?res < ?n then remaining b - ?res else ?n"
  let ?tr = "if remaining b < ?amt then remaining b else ?amt"
  note T = assms(4) [unfolded TransferTokens_def limiter_server_fields assms(2) option.case prod.case tokenAccessor_def
      tokenTransferer_def g Let_def]
  have start: "runs E ?k (Other (SLook ?n)) l w (Other (SRem ?n Live)) l1 w1"
    by (rule look_up_runs [OF g]) simp
  show ?thesis
  proof (cases "remaining b \<le> ?res")
    case True
    then have "l' = l1" "w' = w1" using T assms(3) by simp_all
    moreover have "runs E ?k (Other (SRem ?n Live)) l1 w1 Ended l1 w1"
      by (rule runs_step [OF _ runs_refl]) (use True lk o in \<open>auto simp: solo_defs\<close>)
    ultimately show ?thesis using runs_trans [OF start] by simp
  next
    case False
    then have pos: "remaining b - ?res \<noteq> 0" by auto
    note T = T [unfolded if_not_P [OF False] prod.case sum.case if_not_P [OF pos] g1]
    have "runs E ?k (Other (SRem ?n Live)) l1 w1 (Other (TLook ?amt)) l1 w1"
      by (rule runs_step [OF _ runs_refl]) (use False lk o in \<open>auto simp: solo_defs\<close>)
    note start = runs_trans [OF runs_trans [OF start this] look_up_runs [OF g1, of "Other (TLook ?amt)" "Other (TRem ?amt Live)"]]
    have "runs E ?k (Other (TRem ?amt Live)) l1 w1 Ended l' w'"
    proof (cases "?tr = 0")
      case True
      then have "l' = l1" "w' = w1" using T assms(3) by (simp_all split: if_splits)
      moreover have "runs E ?k (Other (TRem ?amt Live)) l1 w1 Ended l1 w1"
        by (rule runs_step [OF _ runs_refl]) (use True lk in \<open>auto simp: solo_defs\<close>)
      ultimately show ?thesis by simp
    next
      case False
      obtain ok b1 where c: "tryConsume ?tr b = (ok, b1)" by (cases "tryConsume ?tr b")
      have e: "l' = put_bucket ?k b1 l1" "w' = w1"
        using T assms(3) False c by (cases ok; simp)+
      have "runs E ?k (Other (TConsume ?tr Live)) l1 w1 Ended l' w'"
        by (rule runs_step [OF _ runs_refl]) (use lk c e in \<open>auto simp: solo_defs\<close>)
      then show ?thesis
        by (rule runs_step [rotated]) (use False lk in \<open>auto simp: solo_defs\<close>)
    qed
    then show ?thesis by (rule runs_trans [OF start, rotated]) simp
  qed
qed


lemma solo_unique:
  assumes "(solo E key)\<^sup>*\<^sup>* x (q1, s1)" "lstep E key q1 s1 = None" "(solo E key)\<^sup>*\<^sup>* x (q2, s2)" "lstep E key q2 s2 = None"
  shows "q1 = q2 \<and> s1 = s2"
  using assms
proof (induction rule: converse_rtranclp_induct)
  case base
  from base(2) show ?case by (cases rule: converse_rtranclpE) (use base in \<open>auto simp: solo_def\<close>)
next
  case (step x y)
  from step.prems(2) show ?case
  proof (cases rule: converse_rtranclpE)
    case base
    then show ?thesis using step(1) step.prems(3) by (auto simp: solo_def)
  next
    case (step z)
    have "y = z" using \<open>solo E key x y\<close> step(1) by (auto simp: solo_def split: prod.splits)
    then show ?thesis using step.IH step.prems step(2) by blast
  qed
qed

text \<open>
  C5. The functions of the limiter are the goroutines run without interruption, with their locks,
  flights and every access to shared state in the order of the code: alone, a call of \<^verbatim>\<open>AllowN\<close> ends
  with the same answer or the same panic, the same limiter and the same world, and in no other way;
  so do a pre-borrow and a request of a peer.
\<close>
theorem uninterrupted:
  assumes "limiter_wf l"
  shows "(\<forall>fuel n r l' w' lg. AllowN fuel E key n l w = Some (Return (r, l', w')) \<longrightarrow>
      (\<forall>q s. (solo E key)\<^sup>*\<^sup>* (Call n AStart, alone l w lg) (q, s) \<and> lstep E key q s = None \<longrightarrow>
        q = Returned r \<and> (\<exists>lg'. s = alone l' w' lg')) \<and>
      (\<exists>s. (solo E key)\<^sup>*\<^sup>* (Call n AStart, alone l w lg) (Returned r, s))) \<and>
    (\<forall>fuel n msg lg. AllowN fuel E key n l w = Some (Panic msg) \<longrightarrow>
      (\<exists>s. (solo E key)\<^sup>*\<^sup>* (Call n AStart, alone l w lg) (Panicked msg, s))) \<and>
    (\<forall>l' w' lg. lookup_bucket l key \<noteq> None \<and> preBorrow_job E key l w = (l', w') \<longrightarrow>
      (\<exists>lg'. (solo E key)\<^sup>*\<^sup>* (Flight (KPre Live) FEnter, alone l w lg) (Ended, alone l' w' lg'))) \<and>
    (\<forall>q opts ans l' w' lg. ValidateTransferRequest q = None \<and> tr_OriginId q \<noteq> o_instanceID opts \<and> tr_LimitKey q = key \<and>
        TransferTokens (limiter_server E opts) q (l, w) = (ans, (l', w')) \<longrightarrow>
      (\<exists>lg'. (solo E key)\<^sup>*\<^sup>* (Other (SLook (tr_Requested q)), alone l w lg) (Ended, alone l' w' lg')))"
proof (intro conjI allI impI)
  fix fuel n r l' w' lg
  assume "AllowN fuel E key n l w = Some (Return (r, l', w'))"
  from AllowN_ends_as [OF assms this]
  obtain lg' where run: "(solo E key)\<^sup>*\<^sup>* (Call n AStart, alone l w lg) (Returned r, alone l' w' lg')"
    unfolding ends_def go.case prod.case by blast
  then show "\<exists>s. (solo E key)\<^sup>*\<^sup>* (Call n AStart, alone l w lg) (Returned r, s)" by blast
  fix q s
  assume "(solo E key)\<^sup>*\<^sup>* (Call n AStart, alone l w lg) (q, s) \<and> lstep E key q s = None"
  then have "q = Returned r \<and> s = alone l' w' lg'" using solo_unique [OF run] by auto
  then show "q = Returned r" "\<exists>lg'. s = alone l' w' lg'" by blast+
next
  fix fuel n msg lg
  assume "AllowN fuel E key n l w = Some (Panic msg)"
  from AllowN_ends_as [OF assms this]
  show "\<exists>s. (solo E key)\<^sup>*\<^sup>* (Call n AStart, alone l w lg) (Panicked msg, s)" unfolding ends_def go.case by blast
next
  fix l' w' lg
  assume "lookup_bucket l key \<noteq> None \<and> preBorrow_job E key l w = (l', w')"
  then obtain b where "lookup_bucket l key = Some b" "preBorrow_job E key l w = (l', w')" by blast
  from pre_borrow_runs [OF assms this]
  show "\<exists>lg'. (solo E key)\<^sup>*\<^sup>* (Flight (KPre Live) FEnter, alone l w lg) (Ended, alone l' w' lg')"
    unfolding runs_def by blast
next
  fix q opts ans l' w' lg
  assume "ValidateTransferRequest q = None \<and> tr_OriginId q \<noteq> o_instanceID opts \<and> tr_LimitKey q = key \<and>
    TransferTokens (limiter_server E opts) q (l, w) = (ans, (l', w'))"
  then have q: "ValidateTransferRequest q = None" "tr_OriginId q \<noteq> o_instanceID opts" "tr_LimitKey q = key"
    "TransferTokens (limiter_server E opts) q (l, w) = (ans, (l', w'))"
    by blast+
  from transfer_runs [OF assms q(1,2,4)]
  show "\<exists>lg'. (solo E key)\<^sup>*\<^sup>* (Other (SLook (tr_Requested q)), alone l w lg) (Ended, alone l' w' lg')"
    unfolding runs_def q(3) by blast
qed

theorem uninterrupted_witness:
  "\<exists>s. (solo (meter_env ''k'' demo_env) ''k'')\<^sup>*\<^sup>* (Call 5 AStart, alone demo_limiter demo_world []) (Returned (Inr True), s)"
proof -
  have "limiter_wf demo_limiter" by (simp add: demo_limiter_def newLimiter_wf)
  from uninterrupted [OF this, of "meter_env ''k'' demo_env" "''k''" demo_world] demo_run
  show ?thesis by blast
qed

end
