(* ===== verification/Goroutines_Live.thy ===== *)
theory Goroutines_Live
  imports Goroutines
begin

text \<open>
  No deadlock among the goroutines of a limiter. Three kinds of resources are held across accesses:
  the mutex of a bucket, the flight of a borrow and the flight of a probe; \<open>resource\<close> is their common
  contract. Every one that is taken is held by a goroutine that can go on, and every goroutine that
  waits for the result of a flight is handed it.
\<close>

subsection \<open>Pointers\<close>

definition call_ptrs :: "call_pc \<Rightarrow> ptr list" where
  "call_ptrs c = (case c of ATouch p ms \<Rightarrow> [p] | AConsume p sp \<Rightarrow> [p] | ACount p sp \<Rightarrow> [p]
     | ASize p sp \<Rightarrow> [p] | ABelow p \<Rightarrow> [p] | AMark p \<Rightarrow> [p] | AClock p \<Rightarrow> [p]
     | ANeeds p ms \<Rightarrow> [p] | AExhausted p \<Rightarrow> [p] | ADecide p re pchk \<Rightarrow> [p]
     | ABooked p re pchk \<Rightarrow> [p] | AMarkEx p pchk \<Rightarrow> [p] | _ \<Rightarrow> [])"

definition reset_ptrs :: "reset_pc \<Rightarrow> ptr list" where
  "reset_ptrs c = (case c of RLock ms q \<Rightarrow> [q] | RCheck ms q \<Rightarrow> [q] | RPool st q \<Rightarrow> [q]
     | RDrain st q \<Rightarrow> [q] | RClear st q \<Rightarrow> [q] | RZero st q \<Rightarrow> [q] | RWindow st q \<Rightarrow> [q]
     | RForget q \<Rightarrow> [q] | RUnlock q \<Rightarrow> [q] | RLookup ms \<Rightarrow> [])"

definition other_ptrs :: "other_pc \<Rightarrow> ptr list" where
  "other_ptrs c = (case c of BClear p \<Rightarrow> [p] | SRem amt p \<Rightarrow> [p] | TRem amt p \<Rightarrow> [p]
     | TConsume tr p \<Rightarrow> [p] | XRefill g p \<Rightarrow> [p] | _ \<Rightarrow> [])"

fun ptrs :: "pc \<Rightarrow> ptr list" where
  "ptrs (Call n c) = call_ptrs c"
| "ptrs (Reset n p c) = p # reset_ptrs c"
| "ptrs (Flight k c) = [k_ptr k]"
| "ptrs (Probe n p re c) = [p]"
| "ptrs (Other c) = other_ptrs c"
| "ptrs q = []"

lemma ptrs_moved [simp]: "ptrs (moved_pc i q) = map (moved i) (ptrs q)"
proof (cases q)
  case (Call n c)
  then show ?thesis by (cases c) (simp_all add: map_call_def call_ptrs_def)
next
  case (Reset n p c)
  then show ?thesis by (cases c) (simp_all add: map_reset_def reset_ptrs_def)
next
  case (Flight k c)
  then show ?thesis by (cases k) simp_all
next
  case (Other c)
  then show ?thesis by (cases c) (simp_all add: map_other_def other_ptrs_def)
qed simp_all

definition has_bucket :: "string \<Rightarrow> ptr \<Rightarrow> ('w, 'r) shared \<Rightarrow> bool" where
  "has_bucket key p s \<longleftrightarrow> get_bucket key p s \<noteq> None"

text \<open>No step takes a bucket away from a goroutine that has a pointer to it.\<close>

definition keeps_buckets :: "('w, 'r) shared \<Rightarrow> ('w, 'r) shared \<Rightarrow> bool" where
  "keeps_buckets s s' \<longleftrightarrow> shards_ok shardIndex shardCount (l_shards (s_lim s')) \<and>
     (\<forall>k p. has_bucket k p s \<longrightarrow> has_bucket k p s')"

definition ptrs_ok :: "string \<Rightarrow> pc \<Rightarrow> ('w, 'r) shared \<Rightarrow> bool" where
  "ptrs_ok key q s \<longleftrightarrow> (\<forall>p \<in> set (ptrs q). has_bucket key p s)"

definition safe_step :: "string \<Rightarrow> ('w, 'r) shared \<Rightarrow> (pc \<times> action \<times> ('w, 'r) shared) option \<Rightarrow> bool" where
  "safe_step key s x \<longleftrightarrow> (case x of None \<Rightarrow> True | Some (q', a, s') \<Rightarrow>
     keeps_buckets s s' \<and> ptrs_ok key q' s' \<and> (\<forall>q1 \<in> set (started a). ptrs_ok key q1 s'))"

abbreviation sok :: "('w, 'r) shared \<Rightarrow> bool" where
  "sok s \<equiv> shards_ok shardIndex shardCount (l_shards (s_lim s))"

lemma keeps_buckets_set: "sok s \<Longrightarrow> has_bucket key p s \<Longrightarrow> keeps_buckets s (set_bucket key p b s)"
  by (cases p) (auto simp: keeps_buckets_def has_bucket_def set_bucket_def get_bucket_def lookup_put shards_put nth_list_update
      split: ptr.splits if_splits)

lemma keeps_buckets_same:
  "sok s \<Longrightarrow> l_shards (s_lim s') = l_shards (s_lim s) \<Longrightarrow> s_orphans s' = s_orphans s \<Longrightarrow> keeps_buckets s s'"
  by (simp add: keeps_buckets_def has_bucket_def get_bucket_def lookup_bucket_def split: ptr.split)

lemma keeps_buckets_trans: "keeps_buckets s s1 \<Longrightarrow> keeps_buckets s1 s' \<Longrightarrow> keeps_buckets s s'"
  by (simp add: keeps_buckets_def)

lemma ptrs_ok_sub: "ptrs_ok key q s \<Longrightarrow> keeps_buckets s s' \<Longrightarrow> set (ptrs q') \<subseteq> set (ptrs q) \<Longrightarrow> ptrs_ok key q' s'"
  by (auto simp: ptrs_ok_def keeps_buckets_def)

lemma safe_None [simp]: "safe_step key s None"
  by (simp add: safe_step_def)

lemma safe_quiet:
  assumes "sok s" "l_shards (s_lim s') = l_shards (s_lim s)" "s_orphans s' = s_orphans s" "ptrs_ok key q s" "set (ptrs q') \<subseteq> set (ptrs q)"
  shows "safe_step key s (quiet q' s')"
  using keeps_buckets_same [OF assms(1-3)] ptrs_ok_sub [OF assms(4) _ assms(5)] by (simp add: safe_step_def quiet_def)

lemma safe_on_bucket:
  assumes "sok s" "ptrs_ok key q s" "p \<in> set (ptrs q)" "\<And>x. set (ptrs (qf x)) \<subseteq> set (ptrs q)"
  shows "safe_step key s (on_bucket key p f qf ev s)"
proof -
  have g: "has_bucket key p s" using assms(2,3) by (simp add: ptrs_ok_def)
  then obtain b where b: "get_bucket key p s = Some b" by (auto simp: has_bucket_def)
  obtain x b' where f: "f b = (x, b')" by (cases "f b")
  let ?s = "set_bucket key p b' s"
  have k: "keeps_buckets s ?s" by (rule keeps_buckets_set [OF assms(1) g])
  have "keeps_buckets ?s (?s\<lparr>s_log := lg\<rparr>)" for lg
    by (rule keeps_buckets_same) (use k in \<open>simp_all add: keeps_buckets_def\<close>)
  then have "keeps_buckets s (?s\<lparr>s_log := lg\<rparr>)" for lg using keeps_buckets_trans [OF k] by blast
  then show ?thesis
    using ptrs_ok_sub [OF assms(2) _ assms(4)] b f by (simp add: safe_step_def on_bucket_def quiet_def Let_def)
qed

lemma safe_touch:
  "sok s \<Longrightarrow> ptrs_ok key q s \<Longrightarrow> p \<in> set (ptrs q) \<Longrightarrow> set (ptrs q') \<subseteq> set (ptrs q) \<Longrightarrow> safe_step key s (touch key p f q' s)"
  unfolding touch_def by (rule safe_on_bucket)

lemma safe_read:
  "sok s \<Longrightarrow> ptrs_ok key q s \<Longrightarrow> (\<And>b. set (ptrs (qf b)) \<subseteq> set (ptrs q)) \<Longrightarrow> safe_step key s (read_bucket key p qf s)"
  by (auto simp: read_bucket_def split: option.split intro!: safe_quiet)

lemma safe_look_up:
  assumes "sok s" "ptrs_ok key q s" "set (ptrs q') \<subseteq> insert Live (set (ptrs q))"
  shows "safe_step key s (look_up E key q' (s\<lparr>s_world := w\<rparr>))"
proof -
  obtain b l w' where g: "getOrCreateBucket E key (s_lim s) w = (b, l, w')" by (rule prod_cases3)
  let ?s = "s\<lparr>s_lim := l, s_world := w'\<rparr>"
  have l: "l = s_lim s \<or> l = put_bucket key b (s_lim s)" "lookup_bucket l key \<noteq> None"
    using g assms(1) by (auto simp: getOrCreateBucket_def Let_def split_beta lookup_put split: option.splits)
  have "sok ?s" using l assms(1) shards_put by auto
  moreover have "has_bucket k p ?s" if "has_bucket k p s" for k p
    using l that assms(1) by (auto simp: has_bucket_def get_bucket_def lookup_put split: ptr.splits if_splits)
  ultimately have "keeps_buckets s ?s" by (simp add: keeps_buckets_def)
  moreover have "has_bucket key Live ?s" using l(2) by (simp add: has_bucket_def get_bucket_def)
  ultimately show ?thesis
    using assms(2,3) g by (auto simp: safe_step_def look_up_def quiet_def ptrs_ok_def keeps_buckets_def)
qed

lemmas ptr_defs = call_ptrs_def reset_ptrs_def other_ptrs_def

lemma acquired_ptrs: "set (ptrs (acquired k r)) \<subseteq> {k_ptr k}"
  by (cases k; cases r; simp add: acquired_def ptr_defs)

lemma asked_ptrs: "set (ptrs (asked n p re v)) \<subseteq> {p}"
  by (simp add: asked_def ptr_defs split: sum.split)

lemma failed_ptrs: "set (ptrs (failed_at n p sp)) \<subseteq> {p}"
  by (cases sp) (simp_all add: ptr_defs)

lemma lstep_safe:
  assumes "sok s" "ptrs_ok key q s"
  shows "safe_step key s (lstep E key q s)"
proof -
  have look: "safe_step key s (look_up E key q' s)" if "set (ptrs q') \<subseteq> insert Live (set (ptrs q))" for q'
    using safe_look_up [OF assms that, of E "s_world s"] by simp
  note same = safe_quiet [OF assms(1) _ _ assms(2)] and tch = safe_touch [OF assms] and rd = safe_read [OF assms] and
    onb = safe_on_bucket [OF assms] and lu = safe_look_up [OF assms]
  show ?thesis
  proof (cases q)
    case (Call n c)
    show ?thesis
    proof (cases c)
      case (AConsume p sp)
      show ?thesis
        unfolding Call AConsume lstep.simps call_step.simps
        by (rule onb) (use failed_ptrs [of n p sp] in \<open>auto simp: Call AConsume ptr_defs\<close>)
    next
      case (AMark p)
      have g: "has_bucket key p s" using assms(2) by (simp add: Call AMark ptrs_ok_def ptr_defs)
      then obtain b where b: "get_bucket key p s = Some b" by (auto simp: has_bucket_def)
      obtain ok b' where t: "TryMarkPreBorrowing b = (ok, b')" by (cases "TryMarkPreBorrowing b")
      let ?s = "set_bucket key p b' s"
      have k: "keeps_buckets s ?s" by (rule keeps_buckets_set [OF assms(1) g])
      have "keeps_buckets ?s (?s\<lparr>s_lim := (s_lim ?s)\<lparr>l_jobs := js\<rparr>\<rparr>)" for js
        by (rule keeps_buckets_same) (use k in \<open>simp_all add: keeps_buckets_def\<close>)
      then have "keeps_buckets s (?s\<lparr>s_lim := (s_lim ?s)\<lparr>l_jobs := js\<rparr>\<rparr>)" for js using keeps_buckets_trans [OF k] by blast
      then show ?thesis
        using k b t g by (auto simp: Call AMark Let_def safe_step_def quiet_def ptrs_ok_def keeps_buckets_def)
    qed (auto simp: Call ptr_defs Let_def split_beta manage_def split: option.split sum.split Decision.split if_splits
        intro!: same tch rd lu look)
  next
    case (Reset n p c)
    then show ?thesis
      by (cases c) (auto simp: ptr_defs Let_def split_beta manage_def split: if_splits intro!: same tch rd onb look)
  next
    case (Flight k c)
    show ?thesis
    proof (cases c)
      case (FLeave v)
      have "keeps_buckets s (s\<lparr>s_borrowing := bs\<rparr>)" for bs using assms(1) by (intro keeps_buckets_same) simp_all
      then show ?thesis
        using ptrs_ok_sub [OF assms(2)] by (simp add: Flight FLeave safe_step_def)
    next
      case (FShared v)
      obtain r m where r: "acquire_finish v (l_borrowMgr (s_lim s)) = (r, m)" by (cases "acquire_finish v (l_borrowMgr (s_lim s))")
      show ?thesis
        unfolding Flight FShared lstep.simps flight_step.simps r Let_def prod.case
        by (rule same) (use acquired_ptrs [of k r] in \<open>auto simp: manage_def Flight\<close>)
    qed (auto simp: Flight Let_def split_beta manage_def split: sum.split intro!: same tch)
  next
    case (Probe n p re c)
    show ?thesis
    proof (cases c)
      case (PLeave v)
      have "keeps_buckets s (s\<lparr>s_probing := bs\<rparr>)" for bs using assms(1) by (intro keeps_buckets_same) simp_all
      then show ?thesis
        using ptrs_ok_sub [OF assms(2)] by (simp add: Probe PLeave safe_step_def)
    next
      case (PShared v)
      then show ?thesis using asked_ptrs [of n p re v] by (auto simp: Probe intro!: same)
    qed (auto simp: Probe Let_def split_beta split: option.split sum.split go.split prod.split intro!: same tch)
  next
    case (Other c)
    then show ?thesis
      by (cases c) (auto simp: ptr_defs Let_def split_beta split: if_splits intro!: same tch rd onb look)
  qed simp_all
qed


subsection \<open>Resources\<close>

text \<open>Which resource a goroutine holds, and whether it waits for a flight.\<close>

fun flies :: "pc \<Rightarrow> bool" where
  "flies (Flight k c) = (case c of FEnter \<Rightarrow> False | FWait \<Rightarrow> False | FShared v \<Rightarrow> False | _ \<Rightarrow> True)"
| "flies q = False"

fun probes :: "pc \<Rightarrow> bool" where
  "probes (Probe n p re c) = (case c of PEnter \<Rightarrow> False | PWait \<Rightarrow> False | PShared v \<Rightarrow> False | _ \<Rightarrow> True)"
| "probes q = False"

fun locks :: "pc \<Rightarrow> ptr option" where
  "locks (Reset n p c) = (case c of RLookup ms \<Rightarrow> None | RLock ms q \<Rightarrow> None | RCheck ms q \<Rightarrow> Some q | RPool st q \<Rightarrow> Some q
     | RDrain st q \<Rightarrow> Some q | RClear st q \<Rightarrow> Some q | RZero st q \<Rightarrow> Some q | RWindow st q \<Rightarrow> Some q
     | RForget q \<Rightarrow> Some q | RUnlock q \<Rightarrow> Some q)"
| "locks q = None"

fun waits_borrow :: "pc \<Rightarrow> bool" where
  "waits_borrow (Flight k FWait) = True"
| "waits_borrow q = False"

fun waits_probe :: "pc \<Rightarrow> bool" where
  "waits_probe (Probe n p re PWait) = True"
| "waits_probe q = False"

fun panicked :: "pc \<Rightarrow> bool" where
  "panicked (Panicked msg) = True"
| "panicked q = False"

fun finished :: "pc \<Rightarrow> bool" where
  "finished (Returned r) = True"
| "finished Ended = True"
| "finished q = False"

text \<open>
  The contract: a step keeps what is taken and who holds it, or takes something free, or gives back
  what it holds; waking a goroutine does not change what it holds, and a new one holds nothing. Then
  what is taken is what the goroutines hold, each by one of them.
\<close>

locale resource =
  fixes E :: "('w, 'r, 'c) env" and taken :: "('w, 'r) shared \<Rightarrow> 'x list" and holds :: "string \<Rightarrow> pc \<Rightarrow> 'x option"
  assumes local_step: "lstep E key q s = Some (q', a, s') \<Longrightarrow> \<not> panicked q' \<Longrightarrow>
      (taken s' = taken s \<and> holds key q' = holds key q) \<or>
      (\<exists>x. x \<notin> set (taken s) \<and> taken s' = x # taken s \<and> holds key q = None \<and> holds key q' = Some x) \<or>
      (\<exists>x. holds key q = Some x \<and> taken s' = remove1 x (taken s) \<and> holds key q' = None)"
    and starting: "lstep E key q s = Some (q', a, s') \<Longrightarrow> q1 \<in> set (started a) \<Longrightarrow> holds key q1 = None"
    and waking: "holds key (wake a q) = holds key q"
begin

definition held_by :: "(string \<times> pc) list \<Rightarrow> 'x list" where
  "held_by ts = List.map_filter (\<lambda>(k, q). holds k q) ts"

definition owned :: "('w, 'r) shared \<Rightarrow> (string \<times> pc) list \<Rightarrow> bool" where
  "owned s ts \<longleftrightarrow> distinct (taken s) \<and> mset (held_by ts) = mset (taken s)"

lemma held_simps [simp]:
  "held_by [] = []" "held_by ((k, q) # ts) = (case holds k q of None \<Rightarrow> [] | Some x \<Rightarrow> [x]) @ held_by ts"
  by (simp_all add: held_by_def List.map_filter_def split: option.split)

lemma held_append [simp]: "held_by (ts @ us) = held_by ts @ held_by us"
  by (induction ts) (auto split: option.split)

lemma held_none: "(\<And>k q. (k, q) \<in> set ts \<Longrightarrow> holds k q = None) \<Longrightarrow> held_by ts = []"
  by (induction ts) (auto split: option.split)

lemma owned_more: "owned s ts \<Longrightarrow> (\<And>k q. (k, q) \<in> set us \<Longrightarrow> holds k q = None) \<Longrightarrow> taken s' = taken s \<Longrightarrow> owned s' (ts @ us)"
  using held_none [of us] by (simp add: owned_def)

lemma owned_map:
  assumes "owned s ts" "\<And>k q. holds k (g k q) = map_option f (holds k q)" "taken s' = map f (taken s)" "inj_on f (set (taken s))"
  shows "owned s' (map (\<lambda>(k, q). (k, g k q)) ts)"
proof -
  have "held_by (map (\<lambda>(k, q). (k, g k q)) ts) = map f (held_by ts)"
    by (induction ts) (auto simp: assms(2) split: option.split)
  then show ?thesis using assms(1,3,4) by (simp add: owned_def distinct_map)
qed

lemma owned_settle:
  assumes "owned s ts" "lstep E key q s0 = Some (q', a, s)"
  shows "owned s (settle key a ts)"
  unfolding settle_def
proof (rule owned_more [OF owned_map [OF assms(1), where f = id and s' = s]])
  show "holds k (if k = key then wake a q1 else q1) = map_option id (holds k q1)" for k q1
    by (cases "k = key") (simp_all add: waking option.map_id)
  show "holds k q1 = None" if "(k, q1) \<in> set (map (Pair key) (started a))" for k q1
    using that starting [OF assms(2)] by auto
qed simp_all

lemma owned_update:
  assumes "owned s ts" "i < length ts" "ts ! i = (key, q)" "lstep E key q s = Some (q', a, s')" "\<not> panicked q'"
  shows "owned s' (ts[i := (key, q')])"
proof -
  have ts: "ts = take i ts @ (key, q) # drop (Suc i) ts" using id_take_nth_drop [OF assms(2)] assms(3) by simp
  have us: "ts[i := (key, q')] = take i ts @ (key, q') # drop (Suc i) ts" using upd_conv_take_nth_drop [OF assms(2)] .
  have o: "distinct (taken s)" "mset (held_by (take i ts @ (key, q) # drop (Suc i) ts)) = mset (taken s)"
    using assms(1) ts by (simp_all add: owned_def)
  from local_step [OF assms(4,5)] show ?thesis
    unfolding owned_def us
  proof (elim disjE exE conjE)
    assume "taken s' = taken s" "holds key q' = holds key q"
    then show "distinct (taken s') \<and> mset (held_by (take i ts @ (key, q') # drop (Suc i) ts)) = mset (taken s')" using o by simp
  next
    fix x assume "x \<notin> set (taken s)" "taken s' = x # taken s" "holds key q = None" "holds key q' = Some x"
    then show "distinct (taken s') \<and> mset (held_by (take i ts @ (key, q') # drop (Suc i) ts)) = mset (taken s')" using o by simp
  next
    fix x assume x: "holds key q = Some x" "taken s' = remove1 x (taken s)" "holds key q' = None"
    have "mset (taken s') = mset (taken s) - {#x#}" using x(2) by simp
    then show "distinct (taken s') \<and> mset (held_by (take i ts @ (key, q') # drop (Suc i) ts)) = mset (taken s')"
      using o x by (simp flip: o(2))
  qed
qed

lemma owner: "owned s ts \<Longrightarrow> x \<in> set (taken s) \<Longrightarrow> \<exists>k q. (k, q) \<in> set ts \<and> holds k q = Some x"
proof -
  assume "owned s ts" "x \<in> set (taken s)"
  then have "x \<in> set (held_by ts)" unfolding owned_def by (metis set_mset_mset)
  then show ?thesis by (force simp: held_by_def List.map_filter_def)
qed

lemma exclusive:
  assumes "owned s ts" "i < j" "j < length ts" "ts ! i = (k1, q1)" "ts ! j = (k2, q2)" "holds k1 q1 = Some x"
  shows "holds k2 q2 \<noteq> Some x"
proof
  assume y: "holds k2 q2 = Some x"
  have "ts = take i ts @ (k1, q1) # drop (Suc i) ts" using id_take_nth_drop [of i ts] assms by simp
  moreover have "(k2, q2) \<in> set (drop (Suc i) ts)"
    using assms(2,3,5) by (auto simp: in_set_conv_nth intro!: exI [of _ "j - Suc i"])
  then obtain us vs where "drop (Suc i) ts = us @ (k2, q2) # vs" by (meson split_list)
  ultimately have "ts = take i ts @ (k1, q1) # us @ (k2, q2) # vs" by simp
  then have "\<not> distinct (held_by ts)" by (metis assms(6) y distinct.simps(2) distinct_append held_append held_simps(2)
        option.simps(5) append_Cons append_Nil in_set_conv_decomp)
  moreover have "distinct (held_by ts)" using assms(1) by (metis owned_def mset_eq_imp_distinct_iff)
  ultimately show False by blast
qed

end

definition borrow_holds :: "string \<Rightarrow> pc \<Rightarrow> string option" where
  "borrow_holds key q = (if flies q then Some key else None)"

definition probe_holds :: "string \<Rightarrow> pc \<Rightarrow> string option" where
  "probe_holds key q = (if probes q then Some key else None)"

definition lock_holds :: "string \<Rightarrow> pc \<Rightarrow> (string \<times> ptr) option" where
  "lock_holds key q = map_option (Pair key) (locks q)"

lemma set_bucket_locks [simp]:
  "s_locks (set_bucket key p b s) = s_locks s" "s_borrowing (set_bucket key p b s) = s_borrowing s"
  "s_probing (set_bucket key p b s) = s_probing s"
  by (simp_all add: set_bucket_def split: ptr.split)

lemma failed_at_call: "\<exists>c. failed_at n p sp = Call n c"
  by (cases sp) auto

lemma failed_holds [simp]:
  "flies (failed_at n p sp) = False" "probes (failed_at n p sp) = False" "locks (failed_at n p sp) = None"
  "waits_borrow (failed_at n p sp) = False" "waits_probe (failed_at n p sp) = False" "panicked (failed_at n p sp) = False"
  using failed_at_call [of n p sp] by auto

lemma wake_holds [simp]:
  "flies (wake a q) = flies q" "probes (wake a q) = probes q" "locks (wake a q) = locks q" "panicked (wake a q) = panicked q"
  by (cases "(a, q)" rule: wake.cases; simp)+

definition borrow_step :: "string \<Rightarrow> pc \<Rightarrow> ('w, 'r) shared \<Rightarrow> pc \<Rightarrow> action \<Rightarrow> ('w, 'r) shared \<Rightarrow> bool" where
  "borrow_step key q s q' a s' \<longleftrightarrow>
     (s_borrowing s' = s_borrowing s \<and> flies q' = flies q \<and> (waits_borrow q' \<longrightarrow> key \<in> set (s_borrowing s))) \<or>
     (key \<notin> set (s_borrowing s) \<and> s_borrowing s' = key # s_borrowing s \<and> \<not> flies q \<and> flies q' \<and> \<not> waits_borrow q') \<or>
     (flies q \<and> \<not> flies q' \<and> s_borrowing s' = remove1 key (s_borrowing s) \<and> \<not> waits_borrow q' \<and> (\<exists>v. a = Borrow_result v))"

definition probe_moves :: "string \<Rightarrow> pc \<Rightarrow> ('w, 'r) shared \<Rightarrow> pc \<Rightarrow> action \<Rightarrow> ('w, 'r) shared \<Rightarrow> bool" where
  "probe_moves key q s q' a s' \<longleftrightarrow>
     (s_probing s' = s_probing s \<and> probes q' = probes q \<and> (waits_probe q' \<longrightarrow> key \<in> set (s_probing s))) \<or>
     (key \<notin> set (s_probing s) \<and> s_probing s' = key # s_probing s \<and> \<not> probes q \<and> probes q' \<and> \<not> waits_probe q') \<or>
     (probes q \<and> \<not> probes q' \<and> s_probing s' = remove1 key (s_probing s) \<and> \<not> waits_probe q' \<and> (\<exists>v. a = Probe_result v))"

definition lock_moves :: "string \<Rightarrow> pc \<Rightarrow> ('w, 'r) shared \<Rightarrow> pc \<Rightarrow> ('w, 'r) shared \<Rightarrow> bool" where
  "lock_moves key q s q' s' \<longleftrightarrow>
     (s_locks s' = s_locks s \<and> locks q' = locks q) \<or>
     (\<exists>p. (key, p) \<notin> set (s_locks s) \<and> s_locks s' = (key, p) # s_locks s \<and> locks q = None \<and> locks q' = Some p) \<or>
     (\<exists>p. locks q = Some p \<and> locks q' = None \<and> s_locks s' = remove1 (key, p) (s_locks s))"

lemmas move_defs = borrow_step_def probe_moves_def lock_moves_def


definition free :: "pc \<Rightarrow> bool" where
  "free q \<longleftrightarrow> \<not> flies q \<and> \<not> probes q \<and> locks q = None \<and> \<not> waits_borrow q \<and> \<not> waits_probe q"

definition same_res :: "('w, 'r) shared \<Rightarrow> ('w, 'r) shared \<Rightarrow> bool" where
  "same_res s s' \<longleftrightarrow> s_borrowing s' = s_borrowing s \<and> s_probing s' = s_probing s \<and> s_locks s' = s_locks s"

text \<open>Steps that take, give back and wait for nothing.\<close>

definition plain :: "('w, 'r) shared \<Rightarrow> (pc \<times> action \<times> ('w, 'r) shared) option \<Rightarrow> bool" where
  "plain s x \<longleftrightarrow> (case x of None \<Rightarrow> True | Some (q', a, s') \<Rightarrow> free q' \<and> same_res s s')"

lemma plain_None [simp]: "plain s None"
  by (simp add: plain_def)

lemma plain_quiet [simp]: "plain s (quiet q s') \<longleftrightarrow> free q \<and> same_res s s'"
  by (simp add: plain_def quiet_def)

lemma plain_on_bucket: "(\<And>x. free (qf x)) \<Longrightarrow> plain s (on_bucket key p f qf ev s)"
  by (auto simp: on_bucket_def same_res_def Let_def split_beta split: option.split)

lemma plain_touch: "free q \<Longrightarrow> plain s (touch key p f q s)"
  by (simp add: touch_def plain_on_bucket)

lemma plain_read: "(\<And>b. free (qf b)) \<Longrightarrow> plain s (read_bucket key p qf s)"
  by (auto simp: read_bucket_def same_res_def split: option.split)

lemma plain_look_up: "free q \<Longrightarrow> plain s (look_up E key q (s\<lparr>s_world := w\<rparr>))"
  by (auto simp: look_up_def same_res_def Let_def split_beta)

lemma free_simps [simp]:
  "free (Call n c)" "free (Other oc)" "free (Returned r)" "free Ended" "free (Panicked msg)" "free (Flight k FEnter)"
  "free (Probe n p re PEnter)" "free (Reset n p (RLookup ms))" "free (Reset n p (RLock ms q))" "free (failed_at n p sp)"
  by (simp_all add: free_def)

lemma same_res_simps [simp]:
  "same_res s s" "same_res s (manage f s)" "same_res s (s\<lparr>s_lim := l, s_world := w\<rparr>)" "same_res s (s\<lparr>s_world := w\<rparr>)"
  "same_res s (s\<lparr>s_lim := l\<rparr>)" "same_res s (set_bucket key p b s)" "same_res s ((set_bucket key p b s)\<lparr>s_lim := l\<rparr>)"
  by (simp_all add: same_res_def manage_def)

lemma call_plain: "plain s (call_step E key n c s)"
proof (cases c)
  case ALookup
  then show ?thesis by (simp add: Let_def split_beta plain_look_up)
next
  case (ADecide p re pchk)
  then show ?thesis by (simp add: Let_def split_beta split: option.split sum.split Decision.split)
next
  case (AMark p)
  then show ?thesis by (auto simp: Let_def split_beta plain_def quiet_def split: option.split)
qed (auto simp: Let_def split_beta intro!: plain_touch plain_on_bucket plain_read split: option.split)

lemma other_plain: "plain s (other_step E key c s)"
proof -
  have "plain s (look_up E key q s)" if "free q" for q using plain_look_up [OF that, of s E key "s_world s"] by simp
  then show ?thesis by (cases c) (auto simp: Let_def intro!: plain_touch plain_on_bucket plain_read)
qed

lemma plain_moves:
  assumes "plain s x" "x = Some (q', a, s')" "free q"
  shows "borrow_step key q s q' a s' \<and> probe_moves key q s q' a s' \<and> lock_moves key q s q' s'"
  using assms by (simp add: plain_def free_def same_res_def move_defs)

lemma acquired_free [simp]: "free (acquired k r)"
  by (simp add: acquired_def split: kont.split sum.split)

lemma asked_free [simp]: "free (asked n p re v)"
  by (simp add: asked_def split: sum.split)

lemmas moves = move_defs free_def [abs_def]

lemma lstep_resources:
  assumes "lstep E key q s = Some (q', a, s')" "\<not> panicked q'"
  shows "borrow_step key q s q' a s' \<and> probe_moves key q s q' a s' \<and> lock_moves key q s q' s'"
proof (cases q)
  case (Call n c)
  then show ?thesis using plain_moves [OF call_plain [of s E key n c], of q' a s' q key] assms by simp
next
  case (Other c)
  then show ?thesis using plain_moves [OF other_plain [of s E key c], of q' a s' q key] assms by simp
next
  case (Reset n p c)
  then show ?thesis
    using assms
    by (cases c) (auto simp: move_defs look_up_def touch_def on_bucket_def read_bucket_def quiet_def manage_def Let_def split_beta
        split: option.splits if_splits)
next
  case (Flight k c)
  show ?thesis
  proof (cases c)
    case (FShared v)
    have "plain s (lstep E key (Flight k (FShared v)) s)" by (simp add: Let_def split_beta)
    then show ?thesis using assms Flight FShared by (auto simp: plain_def free_def same_res_def move_defs)
  qed (use assms Flight in \<open>auto simp: move_defs touch_def on_bucket_def quiet_def Let_def split_beta split: option.splits sum.splits if_splits\<close>)
next
  case (Probe n p re c)
  show ?thesis
  proof (cases c)
    case (PShared v)
    have "plain s (lstep E key (Probe n p re (PShared v)) s)" by simp
    then show ?thesis using assms Probe PShared by (auto simp: plain_def free_def same_res_def move_defs)
  qed (use assms Probe in \<open>auto simp: move_defs touch_def on_bucket_def quiet_def Let_def split_beta split: option.splits sum.splits if_splits go.splits\<close>)
qed (use assms in simp_all)

lemma started_free:
  assumes "lstep E key q s = Some (q', a, s')" "q1 \<in> set (started a)"
  shows "\<exists>p. q1 = Flight (KPre p) FEnter"
proof -
  have "\<exists>p. a = Spawn (Flight (KPre p) FEnter)" if "a \<noteq> Quiet" "\<nexists>v. a = Borrow_result v" "\<nexists>v. a = Probe_result v"
  proof (cases q)
    case (Call n c)
    then show ?thesis
      using assms(1) that(1)
      by (cases c) (auto simp: look_up_def touch_def on_bucket_def read_bucket_def quiet_def Let_def split_beta
          split: option.splits if_splits)
  next
    case (Reset n p c)
    then show ?thesis
      using assms(1) that(1)
      by (cases c) (auto simp: look_up_def touch_def on_bucket_def read_bucket_def quiet_def Let_def split_beta
          split: option.splits if_splits)
  next
    case (Flight k c)
    then show ?thesis
      using assms(1) that
      by (cases c) (auto simp: touch_def on_bucket_def quiet_def Let_def split_beta split: option.splits sum.splits if_splits)
  next
    case (Probe n p re c)
    then show ?thesis
      using assms(1) that
      by (cases c) (auto simp: touch_def on_bucket_def quiet_def Let_def split_beta split: option.splits sum.splits if_splits go.splits)
  next
    case (Other c)
    then show ?thesis
      using assms(1) that(1)
      by (cases c) (auto simp: look_up_def touch_def on_bucket_def read_bucket_def quiet_def Let_def split_beta
          split: option.splits if_splits)
  qed (use assms(1) in simp_all)
  then show ?thesis using assms(2) by (cases a) auto
qed

lemma started_holds:
  assumes "lstep E key q s = Some (q', a, s')" "q1 \<in> set (started a)"
  shows "borrow_holds k q1 = None" "probe_holds k q1 = None" "lock_holds k q1 = None"
  using started_free [OF assms] by (auto simp: borrow_holds_def probe_holds_def lock_holds_def)

interpretation borrowing: resource E s_borrowing borrow_holds for E
proof unfold_locales
  show "(s_borrowing s' = s_borrowing s \<and> borrow_holds key q' = borrow_holds key q) \<or>
      (\<exists>x. x \<notin> set (s_borrowing s) \<and> s_borrowing s' = x # s_borrowing s \<and> borrow_holds key q = None \<and> borrow_holds key q' = Some x) \<or>
      (\<exists>x. borrow_holds key q = Some x \<and> s_borrowing s' = remove1 x (s_borrowing s) \<and> borrow_holds key q' = None)"
    if "lstep E key q s = Some (q', a, s')" "\<not> panicked q'" for key q s q' a s'
    using lstep_resources [OF that] by (auto simp: borrow_step_def borrow_holds_def)
qed (rule started_holds(1), assumption+, simp add: borrow_holds_def)

interpretation probing: resource E s_probing probe_holds for E
proof unfold_locales
  show "(s_probing s' = s_probing s \<and> probe_holds key q' = probe_holds key q) \<or>
      (\<exists>x. x \<notin> set (s_probing s) \<and> s_probing s' = x # s_probing s \<and> probe_holds key q = None \<and> probe_holds key q' = Some x) \<or>
      (\<exists>x. probe_holds key q = Some x \<and> s_probing s' = remove1 x (s_probing s) \<and> probe_holds key q' = None)"
    if "lstep E key q s = Some (q', a, s')" "\<not> panicked q'" for key q s q' a s'
    using lstep_resources [OF that] by (auto simp: probe_moves_def probe_holds_def)
qed (rule started_holds(2), assumption+, simp add: probe_holds_def)

interpretation locking: resource E s_locks lock_holds for E
proof unfold_locales
  show "(s_locks s' = s_locks s \<and> lock_holds key q' = lock_holds key q) \<or>
      (\<exists>x. x \<notin> set (s_locks s) \<and> s_locks s' = x # s_locks s \<and> lock_holds key q = None \<and> lock_holds key q' = Some x) \<or>
      (\<exists>x. lock_holds key q = Some x \<and> s_locks s' = remove1 x (s_locks s) \<and> lock_holds key q' = None)"
    if "lstep E key q s = Some (q', a, s')" "\<not> panicked q'" for key q s q' a s'
    using lstep_resources [OF that] by (auto simp: lock_moves_def lock_holds_def)
qed (rule started_holds(3), assumption+, simp add: lock_holds_def)

subsection \<open>The invariant\<close>

definition thread_ok :: "('w, 'r) shared \<Rightarrow> string \<Rightarrow> pc \<Rightarrow> bool" where
  "thread_ok s key q \<longleftrightarrow> ptrs_ok key q s \<and> (waits_borrow q \<longrightarrow> key \<in> set (s_borrowing s)) \<and>
     (waits_probe q \<longrightarrow> key \<in> set (s_probing s))"

definition g_ok :: "('w, 'r) csys \<Rightarrow> bool" where
  "g_ok c \<longleftrightarrow> sok (c_sh c) \<and> borrowing.owned (c_sh c) (c_threads c) \<and> probing.owned (c_sh c) (c_threads c) \<and>
     locking.owned (c_sh c) (c_threads c) \<and> (\<forall>(k, q) \<in> set (c_threads c). thread_ok (c_sh c) k q)"

definition calm :: "('w, 'r) csys \<Rightarrow> bool" where
  "calm c \<longleftrightarrow> (\<forall>(k, q) \<in> set (c_threads c). \<not> panicked q)"

lemma wake_ptrs [simp]: "ptrs (wake a q) = ptrs q"
  by (cases "(a, q)" rule: wake.cases) auto

lemma wake_waits:
  "waits_borrow (wake a q) \<Longrightarrow> waits_borrow q \<and> (\<nexists>v. a = Borrow_result v)"
  "waits_probe (wake a q) \<Longrightarrow> waits_probe q \<and> (\<nexists>v. a = Probe_result v)"
  by (cases "(a, q)" rule: wake.cases; simp)+

lemma settle_cases:
  assumes "(k, q1) \<in> set (settle key a (ts[i := (key, q')]))"
  obtains (old) q where "(k, q) \<in> set ts" "q1 = (if k = key then wake a q else q)"
    | (self) "k = key" "q1 = wake a q'"
    | (fresh) "k = key" "q1 \<in> set (started a)"
proof -
  from assms consider q where "(k, q) \<in> set (ts[i := (key, q')])" "q1 = (if k = key then wake a q else q)" | "k = key" "q1 \<in> set (started a)"
    unfolding settle_def by auto
  then show thesis
  proof cases
    case (1 q)
    have "(k, q) = (key, q') \<or> (k, q) \<in> set ts" using 1(1) set_update_subset_insert [of ts i "(key, q')"] by blast
    then show ?thesis using 1(2) old self by auto
  qed (rule fresh)
qed

lemma settle_self: "i < length ts \<Longrightarrow> (key, wake a q') \<in> set (settle key a (ts[i := (key, q')]))"
  using set_update_memI [of i ts "(key, q')"] by (force simp: settle_def)

lemma thread_ok_step:
  assumes "keeps_buckets s s'" "borrow_step key q s q' a s'" "probe_moves key q s q' a s'" "thread_ok s k q1"
  shows "thread_ok s' k (if k = key then wake a q1 else q1)"
proof -
  have p: "ptrs_ok k (if k = key then wake a q1 else q1) s'" using assms(1,4) by (auto simp: thread_ok_def ptrs_ok_def keeps_buckets_def)
  have "k \<in> set (s_borrowing s')" if "waits_borrow (if k = key then wake a q1 else q1)"
  proof -
    have w: "waits_borrow q1" "k = key \<Longrightarrow> \<nexists>v. a = Borrow_result v" using that wake_waits(1) by (auto split: if_splits)
    then have "k \<in> set (s_borrowing s)" using assms(4) by (simp add: thread_ok_def)
    then show ?thesis using assms(2) w(2) in_set_remove1 [of k key] unfolding borrow_step_def by (cases "k = key") auto
  qed
  moreover have "k \<in> set (s_probing s')" if "waits_probe (if k = key then wake a q1 else q1)"
  proof -
    have w: "waits_probe q1" "k = key \<Longrightarrow> \<nexists>v. a = Probe_result v" using that wake_waits(2) by (auto split: if_splits)
    then have "k \<in> set (s_probing s)" using assms(4) by (simp add: thread_ok_def)
    then show ?thesis using assms(3) w(2) in_set_remove1 [of k key] unfolding probe_moves_def by (cases "k = key") auto
  qed
  ultimately show ?thesis using p by (simp add: thread_ok_def)
qed

lemma g_ok_thread:
  assumes "g_ok c" "i < length (c_threads c)" "c_threads c ! i = (key, q)" "lstep E key q (c_sh c) = Some (q', a, s')"
    and "\<not> panicked q'"
  shows "g_ok \<lparr>c_sh = s', c_threads = settle key a ((c_threads c)[i := (key, q')])\<rparr>"
proof -
  note res = lstep_resources [OF assms(4,5)]
  have b: "borrow_step key q (c_sh c) q' a s'" and p: "probe_moves key q (c_sh c) q' a s'" using res by blast+
  have sok: "sok (c_sh c)" and ts: "\<And>k q. (k, q) \<in> set (c_threads c) \<Longrightarrow> thread_ok (c_sh c) k q"
    using assms(1) by (auto simp: g_ok_def)
  have q: "(key, q) \<in> set (c_threads c)" using assms(2,3) by (metis nth_mem)
  have "ptrs_ok key q (c_sh c)" using ts [OF q] by (simp add: thread_ok_def)
  from lstep_safe [OF sok this, of E] assms(4) have
    safe: "keeps_buckets (c_sh c) s'" "ptrs_ok key q' s'" "\<And>q1. q1 \<in> set (started a) \<Longrightarrow> ptrs_ok key q1 s'"
    by (simp_all add: safe_step_def)
  have "thread_ok s' k q1" if "(k, q1) \<in> set (settle key a ((c_threads c)[i := (key, q')]))" for k q1
    using that
  proof (cases rule: settle_cases)
    case (old q2)
    then show ?thesis using thread_ok_step [OF safe(1) b p ts] by blast
  next
    case self
    have "waits_borrow q' \<longrightarrow> key \<in> set (s_borrowing s') \<or> (\<exists>v. a = Borrow_result v)"
      "waits_probe q' \<longrightarrow> key \<in> set (s_probing s') \<or> (\<exists>v. a = Probe_result v)"
      using b p unfolding borrow_step_def probe_moves_def by auto
    then show ?thesis using self safe(2) wake_waits [of a q'] by (auto simp: thread_ok_def ptrs_ok_def)
  next
    case fresh
    then show ?thesis using safe(3) started_free [OF assms(4) fresh(2)] by (auto simp: thread_ok_def)
  qed
  moreover have "sok s'" using safe(1) by (simp add: keeps_buckets_def)
  ultimately show ?thesis
    using assms(1) borrowing.owned_settle [OF borrowing.owned_update [OF _ assms(2-5)] assms(4)]
      probing.owned_settle [OF probing.owned_update [OF _ assms(2-5)] assms(4)]
      locking.owned_settle [OF locking.owned_update [OF _ assms(2-5)] assms(4)]
    unfolding g_ok_def by auto
qed

lemma moved_holds [simp]:
  "flies (moved_pc i q) = flies q" "probes (moved_pc i q) = probes q" "locks (moved_pc i q) = map_option (moved i) (locks q)"
  "waits_borrow (moved_pc i q) = waits_borrow q" "waits_probe (moved_pc i q) = waits_probe q" "panicked (moved_pc i q) = panicked q"
proof -
  show "flies (moved_pc i q) = flies q" by (cases q) (auto split: flight_pc.split)
  show "probes (moved_pc i q) = probes q" by (cases q) (auto split: probe_pc.split)
  show "locks (moved_pc i q) = map_option (moved i) (locks q)"
    by (cases q) (auto simp: map_reset_def split: reset_pc.split)
  show "waits_borrow (moved_pc i q) = waits_borrow q" by (cases q rule: waits_borrow.cases) auto
  show "waits_probe (moved_pc i q) = waits_probe q" by (cases q rule: waits_probe.cases) auto
  show "panicked (moved_pc i q) = panicked q" by (cases q) auto
qed

lemma has_bucket_iff:
  "has_bucket k Live s \<longleftrightarrow> lookup_bucket (s_lim s) k \<noteq> None"
  "has_bucket k (Orphan j) s \<longleftrightarrow> j < length (s_orphans s) \<and> fst (s_orphans s ! j) = k"
  by (simp_all add: has_bucket_def get_bucket_def)

lemma g_ok_evict:
  assumes "g_ok c" "lookup_bucket (s_lim (c_sh c)) key = Some b"
  shows "g_ok (orphan key b c)"
proof -
  let ?s = "c_sh c" and ?s' = "c_sh (orphan key b c)"
  let ?i = "length (s_orphans ?s)"
  let ?g = "\<lambda>k q. if k = key then moved_pc ?i q else q" and ?f = "\<lambda>(k, p). (k, if k = key then moved ?i p else p)"
  have sok: "sok ?s" and ts: "\<And>k q. (k, q) \<in> set (c_threads c) \<Longrightarrow> thread_ok ?s k q" using assms(1) by (auto simp: g_ok_def)
  have lk: "lookup_bucket (s_lim ?s') k = (if k = key then None else lookup_bucket (s_lim ?s) k)" for k
    using fnv.lookup_delete [OF sok, of key k] by (simp add: orphan_def Let_def lookup_bucket_def)
  have sok': "sok ?s'" using fnv.shards_ok_delete [OF sok] by (simp add: orphan_def Let_def)
  have f: "s_orphans ?s' = s_orphans ?s @ [(key, b)]" "s_locks ?s' = map ?f (s_locks ?s)"
    "s_borrowing ?s' = s_borrowing ?s" "s_probing ?s' = s_probing ?s"
    "c_threads (orphan key b c) = map (\<lambda>(k, q). (k, ?g k q)) (c_threads c)"
    by (simp_all add: orphan_def Let_def)
  have old: "j < ?i" if "has_bucket k (Orphan j) ?s" for k j
    using that by (simp add: has_bucket_iff)
  have hb: "has_bucket k (if k = key then moved ?i p else p) ?s'" if "has_bucket k p ?s" for k p
  proof (cases p)
    case Live
    then show ?thesis using that lk [of k] f(1) by (cases "k = key") (simp_all add: has_bucket_iff)
  next
    case (Orphan j)
    have "j < ?i" "fst (s_orphans ?s ! j) = k" using that Orphan by (simp_all add: has_bucket_iff)
    then show ?thesis using Orphan f(1) by (cases "k = key") (simp_all add: has_bucket_iff nth_append)
  qed
  have "ptrs_ok k (?g k q) ?s'" if "ptrs_ok k q ?s" for k q
    using that hb by (cases "k = key") (fastforce simp: ptrs_ok_def)+
  then have "thread_ok ?s' k (?g k q)" if "thread_ok ?s k q" for k q
    using that by (auto simp: thread_ok_def f(3,4))
  then have t: "\<forall>(k, q) \<in> set (c_threads (orphan key b c)). thread_ok ?s' k q" using ts by (auto simp: f(5))
  have own: "borrowing.owned ?s (c_threads c)" "probing.owned ?s (c_threads c)" "locking.owned ?s (c_threads c)"
    using assms(1) by (simp_all add: g_ok_def)
  have held: "\<exists>q. (k, q) \<in> set (c_threads c) \<and> locks q = Some p" if "(k, p) \<in> set (s_locks ?s)" for k p
    using locking.owner [OF own(3) that] by (auto simp: lock_holds_def)
  have has: "has_bucket k p ?s" if locked: "(k, p) \<in> set (s_locks ?s)" for k p
  proof -
    obtain q where q: "(k, q) \<in> set (c_threads c)" "locks q = Some p" using held [OF locked] by blast
    have "p \<in> set (ptrs q)" using q(2) by (cases q) (auto simp: reset_ptrs_def split: reset_pc.splits)
    then show ?thesis using ts [OF q(1)] by (simp add: thread_ok_def ptrs_ok_def)
  qed
  have inj: "inj_on ?f (set (s_locks ?s))"
  proof (rule inj_onI)
    fix x y assume xy: "x \<in> set (s_locks ?s)" "y \<in> set (s_locks ?s)" "?f x = ?f y"
    obtain k p k' p' where e: "x = (k, p)" "y = (k', p')" by (cases x, cases y) blast
    have "p = Orphan j \<Longrightarrow> j < ?i" "p' = Orphan j \<Longrightarrow> j < ?i" for j using has xy(1,2) e old by blast+
    then show "x = y" using xy(3) e by (cases p; cases p') (auto split: if_splits)
  qed
  have "borrowing.owned ?s' (c_threads (orphan key b c))"
    unfolding f(5) by (rule borrowing.owned_map [OF own(1), where f = id]) (simp_all add: f borrow_holds_def)
  moreover have "probing.owned ?s' (c_threads (orphan key b c))"
    unfolding f(5) by (rule probing.owned_map [OF own(2), where f = id]) (simp_all add: f probe_holds_def)
  moreover have "locking.owned ?s' (c_threads (orphan key b c))"
    unfolding f(5)
    by (rule locking.owned_map [OF own(3) _ f(2) inj]) (auto simp: lock_holds_def option.map_comp comp_def intro!: option.map_cong)
  ultimately show ?thesis using sok' t by (simp add: g_ok_def)
qed

lemma g_ok_more:
  assumes "g_ok c" "sok s'" "s_borrowing s' = s_borrowing (c_sh c)" "s_probing s' = s_probing (c_sh c)" "s_locks s' = s_locks (c_sh c)"
    and "keeps_buckets (c_sh c) s'" "\<And>k q. (k, q) \<in> set us \<Longrightarrow> free q \<and> ptrs q = []"
  shows "g_ok \<lparr>c_sh = s', c_threads = c_threads c @ us\<rparr>"
proof -
  have own: "borrowing.owned (c_sh c) (c_threads c)" "probing.owned (c_sh c) (c_threads c)" "locking.owned (c_sh c) (c_threads c)"
    using assms(1) by (simp_all add: g_ok_def)
  have n: "borrow_holds k q = None" "probe_holds k q = None" "lock_holds k q = None" if "(k, q) \<in> set us" for k q
    using assms(7) [OF that] by (simp_all add: free_def borrow_holds_def probe_holds_def lock_holds_def)
  have "thread_ok s' k q" if "(k, q) \<in> set (c_threads c)" for k q
  proof -
    have "thread_ok (c_sh c) k q" using assms(1) that unfolding g_ok_def by blast
    then show ?thesis using assms(3,4,6) by (simp add: thread_ok_def ptrs_ok_def keeps_buckets_def)
  qed
  moreover have "thread_ok s' k q" if "(k, q) \<in> set us" for k q
    using assms(7) [OF that] by (simp add: thread_ok_def ptrs_ok_def free_def)
  ultimately have "thread_ok s' k q" if "(k, q) \<in> set (c_threads c @ us)" for k q using that by auto
  then show ?thesis
    using borrowing.owned_more [OF own(1) n(1) assms(3)] probing.owned_more [OF own(2) n(2) assms(4)]
      locking.owned_more [OF own(3) n(3) assms(5)] assms(2)
    by (auto simp: g_ok_def)
qed

lemma g_ok_same:
  fixes c :: "('w, 'r) csys" and s' :: "('w, 'r) shared"
  assumes "g_ok c" "l_shards (s_lim s') = l_shards (s_lim (c_sh c))" "s_orphans s' = s_orphans (c_sh c)"
    and "s_borrowing s' = s_borrowing (c_sh c)" "s_probing s' = s_probing (c_sh c)" "s_locks s' = s_locks (c_sh c)"
    and "\<And>k q. (k, q) \<in> set us \<Longrightarrow> free q \<and> ptrs q = []"
  shows "g_ok \<lparr>c_sh = s', c_threads = c_threads c @ us\<rparr>"
proof -
  have "sok (c_sh c)" using assms(1) by (simp add: g_ok_def)
  then have k: "sok s'" "keeps_buckets (c_sh c) s'" using assms(2,3) by (simp_all add: keeps_buckets_same)
  show ?thesis by (rule g_ok_more) (use assms k in blast)+
qed

lemma g_ok_step: "c_step E c c' \<Longrightarrow> g_ok c \<Longrightarrow> calm c' \<Longrightarrow> g_ok c'"
proof (induction rule: c_step.induct)
  case (thread i c key q q' a s')
  have "\<not> panicked (wake a q')" using settle_self [OF thread(1), of key a q'] thread(5) by (auto simp: calm_def)
  then have "\<not> panicked q'" by simp
  then show ?case using g_ok_thread [OF thread(4,1-3)] by blast
next
  case (call n c key)
  have e: "c\<lparr>c_threads := c_threads c @ us\<rparr> = \<lparr>c_sh = c_sh c, c_threads = c_threads c @ us\<rparr>" for us by simp
  show ?case unfolding e by (rule g_ok_same [OF call(2)]) (auto simp: ptr_defs)
next
  case (request c key amt)
  have e: "c\<lparr>c_threads := c_threads c @ us\<rparr> = \<lparr>c_sh = c_sh c, c_threads = c_threads c @ us\<rparr>" for us by simp
  show ?case unfolding e by (rule g_ok_same [OF request(1)]) (auto simp: ptr_defs)
next
  case (extra c key g rest)
  have e: "c\<lparr>c_sh := s, c_threads := c_threads c @ us\<rparr> = \<lparr>c_sh = s, c_threads = c_threads c @ us\<rparr>" for s us by simp
  show ?case unfolding e by (rule g_ok_same [OF extra(2)]) (auto simp: ptr_defs)
next
  case (evict c key b shouldEvict nowMs)
  then show ?case by (rule_tac g_ok_evict)
next
  case (forget c ks)
  have e: "c\<lparr>c_sh := s\<rparr> = \<lparr>c_sh = s, c_threads = c_threads c @ []\<rparr>" for s by simp
  show ?case unfolding e by (rule g_ok_same [OF forget(1)]) (simp_all add: manage_def)
next
  case (close c)
  have e: "c\<lparr>c_sh := s\<rparr> = \<lparr>c_sh = s, c_threads = c_threads c @ []\<rparr>" for s by simp
  show ?case unfolding e by (rule g_ok_same [OF close(1)]) simp_all
next
  case (others c w g r ps)
  have e: "c\<lparr>c_sh := s\<rparr> = \<lparr>c_sh = s, c_threads = c_threads c @ []\<rparr>" for s by simp
  show ?case unfolding e by (rule g_ok_same [OF others(1)]) simp_all
qed

lemma calm_back: "c_step E c c' \<Longrightarrow> calm c' \<Longrightarrow> calm c"
proof (induction rule: c_step.induct)
  case (thread i c key q q' a s')
  have "\<not> panicked q1" if m: "(k, q1) \<in> set (c_threads c)" for k q1
  proof
    assume p: "panicked q1"
    obtain j where j: "j < length (c_threads c)" "c_threads c ! j = (k, q1)" using m by (auto simp: in_set_conv_nth)
    have "j \<noteq> i" using p thread(2,3) j(2) by (cases q1) auto
    then have "(k, q1) \<in> set ((c_threads c)[i := (key, q')])" using j by (auto simp: in_set_conv_nth intro!: exI [of _ j])
    then have "(k, if k = key then wake a q1 else q1) \<in> set (settle key a ((c_threads c)[i := (key, q')]))"
      by (force simp: settle_def)
    then show False using thread(4) p by (auto simp: calm_def split: if_splits)
  qed
  then show ?case by (auto simp: calm_def)
next
  case (evict c key b shouldEvict nowMs)
  then show ?case by (fastforce simp: calm_def orphan_def Let_def split: if_splits)
qed (auto simp: calm_def manage_def)

lemma g_ok_init: "g_ok (c_init opts r w)"
  by (simp add: g_ok_def c_init_def borrowing.owned_def probing.owned_def locking.owned_def newLimiter_def Let_def)

lemma g_ok_reach: "(c_step E)\<^sup>*\<^sup>* (c_init opts r w) c \<Longrightarrow> calm c \<Longrightarrow> g_ok c"
  by (induction rule: rtranclp_induct) (auto intro: g_ok_init g_ok_step calm_back)

subsection \<open>Progress\<close>

fun wants :: "pc \<Rightarrow> ptr option" where
  "wants (Reset n p (RLock ms q)) = Some q"
| "wants q = None"

definition goes :: "('w, 'r, 'c) env \<Rightarrow> string \<Rightarrow> pc \<Rightarrow> ('w, 'r) shared \<Rightarrow> bool" where
  "goes E key q s \<longleftrightarrow> lstep E key q s \<noteq> None"

text \<open>How many steps a goroutine takes at most until it gives back what it holds.\<close>

fun left :: "pc \<Rightarrow> nat" where
  "left (Flight k c) = (case c of FCompute \<Rightarrow> 6 | FPool n \<Rightarrow> 5 | FClear g \<Rightarrow> 4 | FRefill g \<Rightarrow> 3 | FRecord g \<Rightarrow> 2 | FLeave v \<Rightarrow> 1 | _ \<Rightarrow> 0)"
| "left (Probe n p re c) = (case c of PAsk \<Rightarrow> 3 | PRefill g \<Rightarrow> 2 | PLeave v \<Rightarrow> 1 | _ \<Rightarrow> 0)"
| "left (Reset n p c) = (case c of RCheck ms q \<Rightarrow> 8 | RPool st q \<Rightarrow> 7 | RDrain st q \<Rightarrow> 6 | RClear st q \<Rightarrow> 5 | RZero st q \<Rightarrow> 4
     | RWindow st q \<Rightarrow> 3 | RForget q \<Rightarrow> 2 | RUnlock q \<Rightarrow> 1 | _ \<Rightarrow> 0)"
| "left q = 0"

definition holds_some :: "pc \<Rightarrow> bool" where
  "holds_some q \<longleftrightarrow> flies q \<or> probes q \<or> locks q \<noteq> None"

lemma left_holds: "holds_some q \<longleftrightarrow> 0 < left q"
  by (cases q) (auto simp: holds_some_def split: flight_pc.split probe_pc.split reset_pc.split)

lemma left_le: "left q \<le> 8"
  by (cases q) (auto split: flight_pc.split probe_pc.split reset_pc.split)

lemma left_decreases:
  assumes "lstep E key q s = Some (q', a, s')" "holds_some q"
  shows "left q' < left q"
proof (cases q)
  case (Reset n p c)
  then show ?thesis
    using assms
    by (cases c) (auto simp: holds_some_def touch_def on_bucket_def read_bucket_def quiet_def Let_def split_beta
        split: option.splits if_splits)
next
  case (Flight k c)
  then show ?thesis
    using assms
    by (cases c) (auto simp: holds_some_def touch_def on_bucket_def quiet_def Let_def split_beta
        split: option.splits sum.splits if_splits)
next
  case (Probe n p re c)
  then show ?thesis
    using assms
    by (cases c) (auto simp: holds_some_def touch_def on_bucket_def quiet_def Let_def split_beta
        split: option.splits sum.splits if_splits go.splits)
qed (use assms in \<open>simp_all add: holds_some_def\<close>)

lemma bucket_goes:
  assumes "has_bucket key p s"
  shows "on_bucket key p f qf ev s \<noteq> None" "touch key p g q s \<noteq> None" "read_bucket key p rf s \<noteq> None"
  using assms by (auto simp: has_bucket_def on_bucket_def touch_def read_bucket_def quiet_def Let_def split_beta)

lemma quiet_goes: "quiet q s \<noteq> None" "look_up E key q s \<noteq> None"
  by (simp_all add: quiet_def look_up_def Let_def split_beta)

lemma call_goes: "ptrs_ok key (Call n c) s \<Longrightarrow> call_step E key n c s \<noteq> None"
proof (cases c)
  case (AMark p)
  assume "ptrs_ok key (Call n c) s"
  then have "has_bucket key p s" by (simp add: ptrs_ok_def ptr_defs AMark)
  then show ?thesis by (auto simp: AMark has_bucket_def Let_def split_beta quiet_def)
qed (auto simp: ptrs_ok_def ptr_defs Let_def split_beta quiet_goes bucket_goes split: option.split simp del: not_None_eq)

lemma reset_goes: "ptrs_ok key (Reset n p c) s \<Longrightarrow> reset_step E key n p c s \<noteq> None \<or> (\<exists>ms q. c = RLock ms q \<and> (key, q) \<in> set (s_locks s))"
  by (cases c) (auto simp: ptrs_ok_def ptr_defs Let_def split_beta quiet_goes bucket_goes simp del: not_None_eq)

lemma flight_goes: "ptrs_ok key (Flight k c) s \<Longrightarrow> flight_step E key k c s \<noteq> None \<or> c = FWait"
  by (cases c) (auto simp: ptrs_ok_def Let_def split_beta quiet_goes bucket_goes split: sum.split simp del: not_None_eq)

lemma probe_goes: "ptrs_ok key (Probe n p re c) s \<Longrightarrow> probe_step E key n p re c s \<noteq> None \<or> c = PWait"
  by (cases c) (auto simp: ptrs_ok_def Let_def split_beta quiet_goes bucket_goes split: sum.split option.split go.split simp del: not_None_eq)

lemma other_goes: "ptrs_ok key (Other c) s \<Longrightarrow> other_step E key c s \<noteq> None"
  by (cases c) (auto simp: ptrs_ok_def ptr_defs Let_def quiet_goes bucket_goes simp del: not_None_eq)

lemma blocked:
  assumes "ptrs_ok key q s" "\<not> goes E key q s" "\<not> finished q" "\<not> panicked q"
  shows "waits_borrow q \<or> waits_probe q \<or> (\<exists>p. wants q = Some p \<and> (key, p) \<in> set (s_locks s))"
proof (cases q)
  case (Call n c)
  then show ?thesis using assms(1,2) call_goes [of key n c s E] by (simp add: goes_def)
next
  case (Reset n p c)
  then show ?thesis using assms(1,2) reset_goes [of key n p c s E] by (auto simp: goes_def)
next
  case (Flight k c)
  then show ?thesis using assms(1,2) flight_goes [of key k c s E] by (auto simp: goes_def)
next
  case (Probe n p re c)
  then show ?thesis using assms(1,2) probe_goes [of key n p re c s E] by (auto simp: goes_def)
next
  case (Other c)
  then show ?thesis using assms(1,2) other_goes [of key c s E] by (simp add: goes_def)
qed (use assms in simp_all)

lemma holder_goes: "ptrs_ok key q s \<Longrightarrow> holds_some q \<Longrightarrow> goes E key q s"
proof (rule ccontr)
  assume "ptrs_ok key q s" and h: "holds_some q" and n: "\<not> goes E key q s"
  moreover have "\<not> finished q" "\<not> panicked q" "\<not> waits_borrow q" "\<not> waits_probe q" "wants q = None"
  proof -
    show "\<not> finished q" "\<not> panicked q" using h by (cases q; simp add: holds_some_def)+
    show "\<not> waits_borrow q" using h by (cases q rule: waits_borrow.cases) (auto simp: holds_some_def)
    show "\<not> waits_probe q" using h by (cases q rule: waits_probe.cases) (auto simp: holds_some_def)
    show "wants q = None" using h by (cases q rule: wants.cases) (auto simp: holds_some_def)
  qed
  ultimately show False using blocked [of key q s E] by simp
qed

definition blocked_by :: "pc \<Rightarrow> pc \<Rightarrow> bool" where
  "blocked_by q q' \<longleftrightarrow> (waits_borrow q \<and> flies q') \<or> (waits_probe q \<and> probes q') \<or> (\<exists>p. wants q = Some p \<and> locks q' = Some p)"

lemma blocker:
  assumes "g_ok c" "(key, q) \<in> set (c_threads c)" "waits_borrow q \<or> waits_probe q \<or> (\<exists>p. wants q = Some p \<and> (key, p) \<in> set (s_locks (c_sh c)))"
  obtains q' where "(key, q') \<in> set (c_threads c)" "blocked_by q q'" "holds_some q'"
proof -
  have own: "borrowing.owned (c_sh c) (c_threads c)" "probing.owned (c_sh c) (c_threads c)" "locking.owned (c_sh c) (c_threads c)"
    and ok: "thread_ok (c_sh c) key q" using assms(1,2) by (auto simp: g_ok_def)
  have "\<exists>q'. (key, q') \<in> set (c_threads c) \<and> flies q'" if "waits_borrow q"
    using borrowing.owner [OF own(1), of key] ok that by (auto simp: thread_ok_def borrow_holds_def split: if_splits)
  moreover have "\<exists>q'. (key, q') \<in> set (c_threads c) \<and> probes q'" if "waits_probe q"
    using probing.owner [OF own(2), of key] ok that by (auto simp: thread_ok_def probe_holds_def split: if_splits)
  moreover have "\<exists>q'. (key, q') \<in> set (c_threads c) \<and> locks q' = Some p" if "(key, p) \<in> set (s_locks (c_sh c))" for p
    using locking.owner [OF own(3) that] by (auto simp: lock_holds_def)
  ultimately obtain q' where "(key, q') \<in> set (c_threads c)" "blocked_by q q'"
    using assms(3) unfolding blocked_by_def by blast
  then show thesis by (rule that) (use \<open>blocked_by q q'\<close> in \<open>auto simp: blocked_by_def holds_some_def\<close>)
qed

text \<open>
  C6. No deadlock. In every state the goroutines of a limiter can reach without a panic, a goroutine
  that has not finished can go on, or waits for one goroutine of the same key: for the mutex of the
  bucket it resets, or for the result of its flight to Redis or to the peers. That one can go on, and
  with each of its steps it is nearer to giving back what it holds: at most eight are left. The
  removal of buckets by the janitor, at any time, does not change this.
\<close>
theorem no_deadlock:
  assumes "(c_step E)\<^sup>*\<^sup>* (c_init opts r w) c" "calm c" "(key, q) \<in> set (c_threads c)" "\<not> finished q"
  shows "goes E key q (c_sh c) \<or>
    (\<exists>q'. (key, q') \<in> set (c_threads c) \<and> blocked_by q q' \<and> goes E key q' (c_sh c) \<and> left q' \<le> 8 \<and>
      (\<forall>q'' a s'. lstep E key q' (c_sh c) = Some (q'', a, s') \<longrightarrow> left q'' < left q'))"
proof (cases "goes E key q (c_sh c)")
  case False
  have g: "g_ok c" by (rule g_ok_reach [OF assms(1,2)])
  have ptrs: "ptrs_ok key q1 (c_sh c)" if "(key, q1) \<in> set (c_threads c)" for q1
    using g that by (auto simp: g_ok_def thread_ok_def)
  have "\<not> panicked q" using assms(2,3) by (auto simp: calm_def)
  from blocker [OF g assms(3) blocked [OF ptrs [OF assms(3)] False assms(4) this]] obtain q' where
    q': "(key, q') \<in> set (c_threads c)" "blocked_by q q'" "holds_some q'" by blast
  then show ?thesis using holder_goes [OF ptrs [OF q'(1)] q'(3)] left_decreases [OF _ q'(3)] left_le by blast
qed simp

theorem no_deadlock_witness:
  "\<exists>c. (c_step pour_env)\<^sup>*\<^sup>* (c_init demo_options () ()) c \<and>
     (''k'', Flight (KAllow 5 Live False True) FWait) \<in> set (c_threads c) \<and>
     (\<exists>q'. (''k'', q') \<in> set (c_threads c) \<and> flies q' \<and> goes pour_env ''k'' q' (c_sh c))"
proof -
  obtain c where c: "(c_step pour_env)\<^sup>*\<^sup>* (c_init demo_options () ()) c"
    "c_threads c = [(''k'', Flight (KAllow 5 Live False True) (FRecord 20)), (''k'', Flight (KAllow 5 Live False True) FWait),
      (''k'', Call 5 (ACount Live Fast))]"
    by (rule three_run)
  have "calm c" by (simp add: calm_def c(2))
  moreover have w: "(''k'', Flight (KAllow 5 Live False True) FWait) \<in> set (c_threads c)" by (simp add: c(2))
  moreover have "\<not> goes pour_env ''k'' (Flight (KAllow 5 Live False True) FWait) (c_sh c)" by (simp add: goes_def)
  moreover have "flies q'" if "blocked_by (Flight (KAllow 5 Live False True) FWait) q'" for q' using that by (simp add: blocked_by_def)
  ultimately show ?thesis using no_deadlock [OF c(1) _ w] c(1) w by (metis finished.simps(5))
qed

text \<open>
  C7. Mutual exclusion. However the calls, pre-borrows and resets of a key interleave, at most one
  goroutine of the key is in the flight to Redis, at most one asks the peers, and at most one resets
  the window of a bucket.
\<close>
theorem one_at_a_time:
  assumes "(c_step E)\<^sup>*\<^sup>* (c_init opts r w) c" "calm c" "i < length (c_threads c)" "j < length (c_threads c)" "i \<noteq> j"
    and "c_threads c ! i = (key, q1)" "c_threads c ! j = (key, q2)"
  shows "\<not> (flies q1 \<and> flies q2) \<and> \<not> (probes q1 \<and> probes q2) \<and> (\<forall>p. locks q1 = Some p \<longrightarrow> locks q2 \<noteq> Some p)"
proof -
  have g: "g_ok c" by (rule g_ok_reach [OF assms(1,2)])
  have own: "borrowing.owned (c_sh c) (c_threads c)" "probing.owned (c_sh c) (c_threads c)" "locking.owned (c_sh c) (c_threads c)"
    using g by (simp_all add: g_ok_def)
  have "borrow_holds key q1 = Some x \<Longrightarrow> borrow_holds key q2 \<noteq> Some x" for x
    using borrowing.exclusive [OF own(1)] assms(3-7) by (metis linorder_neqE_nat)
  moreover have "probe_holds key q1 = Some x \<Longrightarrow> probe_holds key q2 \<noteq> Some x" for x
    using probing.exclusive [OF own(2)] assms(3-7) by (metis linorder_neqE_nat)
  moreover have "lock_holds key q1 = Some x \<Longrightarrow> lock_holds key q2 \<noteq> Some x" for x
    using locking.exclusive [OF own(3)] assms(3-7) by (metis linorder_neqE_nat)
  ultimately show ?thesis by (fastforce simp: borrow_holds_def probe_holds_def lock_holds_def)
qed

theorem one_at_a_time_witness:
  "\<exists>c. (c_step pour_env)\<^sup>*\<^sup>* (c_init demo_options () ()) c \<and> flies (snd (c_threads c ! 0)) \<and> \<not> flies (snd (c_threads c ! 1))"
proof -
  obtain c where c: "(c_step pour_env)\<^sup>*\<^sup>* (c_init demo_options () ()) c"
    "c_threads c = [(''k'', Flight (KAllow 5 Live False True) (FRecord 20)), (''k'', Flight (KAllow 5 Live False True) FWait),
      (''k'', Call 5 (ACount Live Fast))]"
    by (rule three_run)
  have "calm c" by (simp add: calm_def c(2))
  from one_at_a_time [OF c(1) this, of 0 1 "''k''"] c
  show ?thesis by (auto simp: c(2))
qed

end
