(* ===== verification/Startup.thy ===== *)
theory Startup
  imports Gossip_Sync Limiter_Wf
begin

text \<open>
  Starting and stopping an instance: \<^verbatim>\<open>New\<close> (\<^verbatim>\<open>krate.go\<close>, the rest of \<^verbatim>\<open>newLimiter\<close> in \<^verbatim>\<open>limiter.go\<close>) with the
  listener of the token server (\<^verbatim>\<open>Start\<close>, \<^verbatim>\<open>Addr\<close> and \<^verbatim>\<open>Stop\<close> in \<^verbatim>\<open>internal/peer/server.go\<close>), the entry it
  registers and the goroutines it leaves running. Listening is a parameter; what the instance then
  does is in the other theories.
\<close>

subsection \<open>The listener\<close>

text \<open>The network part of a token server; \<^verbatim>\<open>server\<close> and \<^verbatim>\<open>lis\<close> are set together.\<close>

record server_net =
  sn_port :: string
  sn_lis :: "string option"
  sn_serving :: bool

definition ts_Start :: "(string \<Rightarrow> 'w \<Rightarrow> (err + string) \<times> 'w) \<Rightarrow> server_net \<Rightarrow> 'w \<Rightarrow> err option \<times> server_net \<times> 'w" where
  \<comment> \<open>a listener is known by its address\<close>
  "ts_Start listen s w =
     (case listen (sn_port s) w of
        (Inl e, w1) \<Rightarrow> (Some e, s, w1)
      | (Inr lis, w1) \<Rightarrow> (None, s\<lparr>sn_lis := Some lis, sn_serving := True\<rparr>, w1))"

definition Addr :: "server_net \<Rightarrow> string" where
  "Addr s = (case sn_lis s of Some lis \<Rightarrow> lis | None \<Rightarrow> '''')"

definition ts_Stop :: "server_net \<Rightarrow> server_net" where
  "ts_Stop s = (if sn_lis s \<noteq> None then s\<lparr>sn_serving := False\<rparr> else s)"

subsection \<open>A started instance\<close>

record Heartbeat =
  hb_info :: MemberInfo
  hb_interval :: duration

definition NewHeartbeat :: "MemberInfo \<Rightarrow> duration \<Rightarrow> Heartbeat" where
  "NewHeartbeat info iv = \<lparr>hb_info = info, hb_interval = iv\<rparr>"

lemma NewHeartbeat_simps [simp]: "hb_info (NewHeartbeat info iv) = info" "hb_interval (NewHeartbeat info iv) = iv"
  by (simp_all add: NewHeartbeat_def)

definition NewAcquirer :: "string \<Rightarrow> int \<Rightarrow> ProbeMode \<Rightarrow> Acquirer" where
  "NewAcquirer originID probeK mode = \<lparr>acq_originID = originID, acq_probeK = probeK, acq_mode = mode\<rparr>"

record ('r, 'c) node =
  st_limiter :: "'r limiter"
  st_server :: server_net
  st_heartbeat :: Heartbeat
  st_failed :: "err list"
  st_mesh :: "'c Mesh"

definition member_info :: "options \<Rightarrow> string \<Rightarrow> MemberInfo" where
  "member_info opts actualAddr =
     (let gossipAddr = (if o_gossipAddr opts = '''' then actualAddr else o_gossipAddr opts)
      in \<lparr>mi_ID = o_instanceID opts, mi_GossipAddr = gossipAddr, mi_GRPCAddr = actualAddr, mi_Metadata = [], mi_RegisteredAt = 0\<rparr>)"

text \<open>
  \<^verbatim>\<open>newLimiter\<close> up to the start of the goroutines: the registration is made before it returns, a
  failure there is only logged.
\<close>

definition start_limiter ::
    "(string \<Rightarrow> 'w \<Rightarrow> (err + string) \<times> 'w) \<Rightarrow> (duration \<Rightarrow> ('w, 'v) Membership) \<Rightarrow> ('r \<Rightarrow> 'r) \<Rightarrow> options \<Rightarrow> 'r \<Rightarrow> 'w
     \<Rightarrow> (err + ('r, 'c) node) \<times> 'w" where
  "start_limiter listen membership Init opts r w =
     (let l = newLimiter opts (Init r);
          server = \<lparr>sn_port = o_peerListen opts, sn_lis = None, sn_serving = False\<rparr>
      in case ts_Start listen server w of
           (Some e, server, w1) \<Rightarrow> (Inl (''start token server: '' @ e), w1)
         | (None, server, w1) \<Rightarrow>
             let hb = NewHeartbeat (member_info opts (Addr server)) (o_heartbeatInterval opts);
                 (failed, w2) = heartbeat_Start (membership (o_heartbeatTimeout opts)) (hb_info hb) [] w1
             in (Inr \<lparr>st_limiter = l, st_server = server, st_heartbeat = hb, st_failed = failed,
                      st_mesh = NewMesh (o_instanceID opts) (o_gossipInterval opts) (o_gzipCompression opts)\<rparr>, w2))"

definition New ::
    "(string \<Rightarrow> 'w \<Rightarrow> (err + string) \<times> 'w) \<Rightarrow> (duration \<Rightarrow> ('w, 'v) Membership) \<Rightarrow> ('r \<Rightarrow> 'r) \<Rightarrow> string \<Rightarrow>
     (options \<Rightarrow> options) list \<Rightarrow> 'r \<Rightarrow> 'w \<Rightarrow> (err + ('r, 'c) node) \<times> 'w" where
  \<comment> \<open>\<open>generated\<close> is the identifier made from the host name and the time\<close>
  "New listen membership Init generated opts = start_limiter listen membership Init (apply_options generated opts)"

text \<open>\<^verbatim>\<open>Close\<close> with the server.\<close>

definition close_instance ::
    "('w, 'r, 'c) env \<Rightarrow> ('w, 'v) Membership \<Rightarrow> ('r, 'c) node \<Rightarrow> 'w \<Rightarrow> err option \<times> ('r, 'c) node \<times> 'w" where
  "close_instance E M st w =
     (case limiter_Close E M (st_mesh st) (st_limiter st) w of
        (Some e, m, conns, l, w1) \<Rightarrow> (Some e, st\<lparr>st_limiter := l, st_mesh := m\<rparr>, w1)
      | (None, m, conns, l, w1) \<Rightarrow>
          (None, st\<lparr>st_limiter := l, st_mesh := m, st_server := ts_Stop (st_server st)\<rparr>, w1))"

subsection \<open>Its goroutines\<close>

text \<open>A ticker of \<^verbatim>\<open>time\<close> panics when its period is not positive.\<close>

definition NewTicker :: "duration \<Rightarrow> 'a \<Rightarrow> 'a go" where
  "NewTicker d x = (if sint d \<le> 0 then Panic ''non-positive interval for NewTicker'' else Return x)"

definition heartbeat_goroutine ::
    "('w, 'v) Membership \<Rightarrow> Heartbeat \<Rightarrow> heartbeat_event list \<Rightarrow> 'w \<Rightarrow> (err list \<times> 'w) go" where
  "heartbeat_goroutine M hb es w = NewTicker (hb_interval hb) (heartbeat_loop M (hb_info hb) es [] w)"

definition mesh_goroutine ::
    "('w \<Rightarrow> (err + MemberInfo list) \<times> 'w) \<Rightarrow> (string \<Rightarrow> 'w \<Rightarrow> (err + 'c) \<times> 'w) \<Rightarrow> ('w \<Rightarrow> gtime \<times> 'w) \<Rightarrow>
     (string \<Rightarrow> 's \<Rightarrow> 's) \<Rightarrow> mesh_event list \<Rightarrow> 'c Mesh \<Rightarrow> 's \<Rightarrow> 'w \<Rightarrow> ('c Mesh \<times> 's \<times> 'w) go" where
  "mesh_goroutine discover dial clk onPeerRemoved es m s w =
     (let (m1, closed, removed, w1) = refresh discover dial clk m w
      in NewTicker (m_interval m1) (mesh_loop discover dial clk onPeerRemoved es m1 (fold onPeerRemoved removed s) w1))"

definition gossip_goroutine ::
    "options \<Rightarrow> 'c Mesh \<Rightarrow> gossip_event list \<Rightarrow> 'r limiter \<Rightarrow> ('r limiter \<times> 'c gossip_msg list) go" where
  "gossip_goroutine opts mesh es l = NewTicker (gossip_interval opts) (gossipLoop mesh es l [])"

subsection \<open>Starting\<close>

lemma start_limiter_cases:
  "start_limiter listen membership Init opts r w =
     (case listen (o_peerListen opts) w of
        (Inl e, w1) \<Rightarrow> (Inl (''start token server: '' @ e), w1)
      | (Inr addr, w1) \<Rightarrow>
          let hb = NewHeartbeat (member_info opts addr) (o_heartbeatInterval opts);
              (failed, w2) = heartbeat_Start (membership (o_heartbeatTimeout opts)) (hb_info hb) [] w1
          in (Inr \<lparr>st_limiter = newLimiter opts (Init r),
                   st_server = \<lparr>sn_port = o_peerListen opts, sn_lis = Some addr, sn_serving = True\<rparr>,
                   st_heartbeat = hb, st_failed = failed,
                   st_mesh = NewMesh (o_instanceID opts) (o_gossipInterval opts) (o_gzipCompression opts)\<rparr>, w2))"
  by (auto simp: start_limiter_def ts_Start_def Addr_def Let_def split: sum.split prod.split)

lemma newLimiter_acquirer:
  "l_acquirer (newLimiter opts r) = Some (NewAcquirer (o_instanceID opts) (o_probeK opts) (o_probeMode opts))"
  by (simp add: newLimiter_def NewAcquirer_def Let_def)

lemma heartbeat_Start_none: "heartbeat_Start M info [] w = ([], w') \<longleftrightarrow> Register M info w = (None, w')"
  by (auto simp: heartbeat_Start_def split: option.splits prod.splits)

text \<open>
  C18. An instance that has started is found: when its registration was not refused, the next instance
  that discovers the members while the entry is fresh has it as a peer, at the address its listener
  has; the addresses given with \<^verbatim>\<open>WithPeerGRPCAddr\<close> and \<^verbatim>\<open>WithGossipAddr\<close> do not change what is dialled. An
  instance that cannot listen fails to start, with the listener's error, and registers nothing.
\<close>
theorem instance_found:
  assumes "member_store M entries" "membership (o_heartbeatTimeout opts) = M"
    and start: "start_limiter listen membership Init opts r w = (Inr st, w1)" "st_failed st = []" "plain_info (hb_info (st_heartbeat st))"
    and fresh: "entries w2 (o_instanceID opts) = entries w1 (o_instanceID opts)"
      "\<And>info. member_at M (entries w2) (o_instanceID opts) = Some info \<Longrightarrow> \<not> member_expired (ttl_ms M) (discover_ms M w2) info"
      "\<And>f info. member_at M (entries w2) f = Some info \<Longrightarrow> mi_ID info = f"
    and other: "mesh_ok m" "m_instanceID m \<noteq> o_instanceID opts" "GetPeer (o_instanceID opts) m = None"
    and found: "mesh_discover M w2 = (Inr ms, w3)" "refresh (mesh_discover M) dial clk m w2 = (m', conns, removed, w4)"
  shows "(\<exists>addr. fst (listen (o_peerListen opts) w) = Inr addr \<and> addr = Addr (st_server st) \<and>
      (addr \<noteq> '''' \<longrightarrow> (\<exists>p. GetPeer (o_instanceID opts) m' = Some p \<and> p_GRPCAddr p = addr))) \<and>
    (\<forall>e. start_limiter (\<lambda>port w. (Inl e, w)) membership Init opts r w = (Inl (''start token server: '' @ e), w))"
proof -
  obtain addr w0 where a: "listen (o_peerListen opts) w = (Inr addr, w0)" "Addr (st_server st) = addr" "hb_info (st_heartbeat st) = member_info opts addr"
    "heartbeat_Start M (hb_info (st_heartbeat st)) [] w0 = (st_failed st, w1)"
    using start(1) assms(2) by (auto simp: start_limiter_cases Addr_def Let_def split: sum.splits prod.splits)
  then have "Register M (hb_info (st_heartbeat st)) w0 = (None, w1)" using start(2) heartbeat_Start_none by metis
  from member_store.Register_spec [OF assms(1) start(3) this] obtain rt s where
    s: "entries w1 = (entries w0)(mi_ID (hb_info (st_heartbeat st)) \<mapsto> s)" "Unmarshal (mb_json M) s = Inr (hb_info (st_heartbeat st)\<lparr>mi_RegisteredAt := rt\<rparr>)" by blast
  let ?info = "hb_info (st_heartbeat st)\<lparr>mi_RegisteredAt := rt\<rparr>"
  have id: "mi_ID (hb_info (st_heartbeat st)) = o_instanceID opts" "peer_address ?info = (if addr = '''' then mi_GossipAddr (hb_info (st_heartbeat st)) else addr)"
    by (simp_all add: a(3) member_info_def Let_def peer_address_def)
  have at: "member_at M (entries w2) (o_instanceID opts) = Some ?info"
    using s fresh(1) id(1) by (simp add: member_at_def)
  obtain ds where D: "Discover M w2 = (Inr ms, ds, w3)" using found(1) by (auto simp: mesh_discover_def split: prod.splits)
  have ms: "set ms = {info. \<exists>i. member_at M (entries w2) i = Some info \<and> \<not> member_expired (ttl_ms M) (discover_ms M w2) info}"
    using member_store.Discover_spec(2) [OF assms(1) D refl] by blast
  have "?info \<in> set ms" using at fresh(2) unfolding ms by blast
  then obtain info where info: "map_of (current_members (m_instanceID m) ms) (o_instanceID opts) = Some info"
    using current_members_dom [of "m_instanceID m" ms "o_instanceID opts"] other(2) id(1) by force
  then have "(o_instanceID opts, info) \<in> set (map (\<lambda>m. (mi_ID m, m)) ms)"
    using map_of_SomeD [of "rev (map (\<lambda>m. (mi_ID m, m)) ms)"] other(2) by (simp add: current_members_lookup split: if_splits)
  then have "info \<in> set ms" "mi_ID info = o_instanceID opts" by auto
  moreover have "info = ?info" if "info \<in> set ms" "mi_ID info = o_instanceID opts" for info
    using that at fresh(3) unfolding ms by force
  ultimately have "map_of (current_members (m_instanceID m) ms) (o_instanceID opts) = Some ?info" using info by simp
  then obtain p where "map_of (m_peers m') (o_instanceID opts) = Some p" "joins (o_instanceID opts) ?info None p"
    using refresh_spec [OF other(1) found(2), unfolded found(1) fst_conv sum.case] other(3) by (metis GetPeer_def)
  then show ?thesis using a id(2) by (auto simp: GetPeer_def joins_def start_limiter_cases)
qed

definition demo_listen :: "string \<Rightarrow> mem_members \<Rightarrow> (err + string) \<times> mem_members" where
  "demo_listen port w = (Inr (''[::]'' @ port), w)"

definition demo_membership :: "duration \<Rightarrow> (mem_members, MemberInfo) Membership" where
  "demo_membership ttl = NewMembership mem_hash \<lparr>Marshal = Inr, Unmarshal = Inr\<rparr> (\<lambda>(m, t). (t, (m, t))) ttl"

theorem instance_found_witness:
  "\<exists>st w1 m' conns removed w4.
     New demo_listen demo_membership id ''h-1'' [WithPeerGRPCAddr ''10.0.0.7:7100''] () ([], 10000000000) =
       (Inr (st :: (unit, string) node), w1) \<and>
     refresh (mesh_discover (demo_membership 5000000000)) (\<lambda>a w. (Inr a, w)) (\<lambda>(m, t). (t, (m, t))) (NewMesh ''i2'' 1 False :: string Mesh) w1 =
       (m', conns, removed, w4) \<and>
     (\<exists>p. GetPeer ''h-1'' m' = Some p \<and> p_GRPCAddr p = ''[::]:7100'')"
proof -
  let ?o = "apply_options ''h-1'' [WithPeerGRPCAddr ''10.0.0.7:7100'']" and ?w = "([], 10000000000) :: mem_members"
  let ?i = "\<lparr>mi_ID = ''h-1'', mi_GossipAddr = ''[::]:7100'', mi_GRPCAddr = ''[::]:7100'', mi_Metadata = [], mi_RegisteredAt = 0\<rparr> :: MemberInfo"
  let ?w1 = "([(''h-1'', ?i\<lparr>mi_RegisteredAt := 10000\<rparr>)], 10000000000) :: mem_members"
  have o: "o_instanceID ?o = ''h-1''" "o_peerListen ?o = '':7100''" "o_gossipAddr ?o = ''''" "o_heartbeatTimeout ?o = 5000000000"
    by (simp_all add: apply_options_def WithPeerGRPCAddr_def defaultOptions_def)
  note defs = demo_membership_def NewMembership_def mem_hash_def UnixMilli_def Milliseconds_def i64_div_def
  have M: "demo_membership 5000000000 = mem_membership" by (simp add: demo_membership_def mem_membership_def)
  have reg: "heartbeat_Start mem_membership ?i [] ?w = ([], ?w1)"
    by (simp add: M [symmetric] heartbeat_Start_def Register_def defs)
  have st: "\<exists>st :: (unit, string) node. start_limiter demo_listen demo_membership id ?o () ?w = (Inr st, ?w1) \<and> st_failed st = [] \<and>
      Addr (st_server st) = ''[::]:7100'' \<and> plain_info (hb_info (st_heartbeat st))"
    by (simp add: start_limiter_cases demo_listen_def o M member_info_def reg Addr_def Let_def) (simp add: plain_info_def ascii_def)
  then obtain st :: "(unit, string) node" where st: "start_limiter demo_listen demo_membership id ?o () ?w = (Inr st, ?w1)" "st_failed st = []"
    "Addr (st_server st) = ''[::]:7100''" "plain_info (hb_info (st_heartbeat st))" by blast
  have d: "mesh_discover mem_membership ?w1 = (Inr [?i\<lparr>mi_RegisteredAt := 10000\<rparr>], ?w1)"
    by (simp add: M [symmetric] mesh_discover_def Discover_def defs member_expired_def)
  have at: "member_at mem_membership (case ?w1 of (m, t) \<Rightarrow> map_of m) f = (if f = ''h-1'' then Some (?i\<lparr>mi_RegisteredAt := 10000\<rparr>) else None)" for f
    by (simp add: M [symmetric] member_at_def defs)
  have young: "\<not> member_expired (ttl_ms mem_membership) (discover_ms mem_membership ?w1) (?i\<lparr>mi_RegisteredAt := 10000\<rparr>)"
    by (simp add: M [symmetric] discover_ms_def member_expired_def defs)
  have names: "member_at mem_membership (case ?w1 of (m, t) \<Rightarrow> map_of m) f = Some info \<Longrightarrow> mi_ID info = f" for f info
    using at [of f] by (auto split: if_splits)
  obtain m' conns removed w4 where r: "refresh (mesh_discover mem_membership) (\<lambda>a w. (Inr a, w)) (\<lambda>(m, t). (t, (m, t)))
      (NewMesh ''i2'' 1 False :: string Mesh) ?w1 = (m', conns, removed, w4)" by (rule prod_cases4)
  have "\<exists>p. GetPeer ''h-1'' m' = Some p \<and> p_GRPCAddr p = ''[::]:7100''"
    using instance_found [OF mem_members.member_store_axioms _ st(1,2,4), of ?w1, OF _ _ _ names mesh_ok_new _ _ d r] at young st(3)
    by (simp add: o M NewMesh_def GetPeer_def) blast
  then show ?thesis using st(1) r by (auto simp: New_def M)
qed

subsection \<open>Intervals\<close>

lemma refresh_interval: "m_interval (fst (refresh discover dial clk m w)) = m_interval m"
proof -
  have "m_interval (fst (fold (drop_peer cur) ps x)) = m_interval (fst x)" for cur ps and x :: "'a Mesh \<times> 'a list \<times> string list"
    by (induction ps arbitrary: x) (auto simp: drop_peer_def Let_def split_beta split: option.split)
  moreover have "m_interval (fst (fold (join_peer dial clk) ps x)) = m_interval (fst x)" for ps x
    by (induction ps arbitrary: x) (auto simp: join_peer_def Let_def split_beta split: option.split sum.split)
  ultimately show ?thesis by (auto simp: refresh_def drop_gone_def Let_def split_beta split: sum.split)
qed

text \<open>
  C40. Not every configuration that is accepted runs. \<^verbatim>\<open>New\<close> succeeds whenever it can listen, but the goroutine
  of the heartbeat panics, and with it the program, when the heartbeat interval is not positive, and so does that of
  the mesh, after its first refresh, for the gossip interval; the gossip loop, which raises the same interval to
  100 milliseconds, and the janitor, which is not started or takes 10 seconds instead, never do.
\<close>
theorem unchecked_intervals:
  "((\<exists>st. fst (start_limiter listen membership Init opts r w) = Inr st) \<longleftrightarrow> (\<exists>a. fst (listen (o_peerListen opts) w) = Inr a)) \<and>
   ((\<exists>msg. heartbeat_goroutine M (NewHeartbeat info (o_heartbeatInterval opts)) hs w1 = Panic msg) \<longleftrightarrow> sint (o_heartbeatInterval opts) \<le> 0) \<and>
   ((\<exists>msg. mesh_goroutine discover dial clk gone ms (NewMesh (o_instanceID opts) (o_gossipInterval opts) gz) s w2 = Panic msg) \<longleftrightarrow>
      sint (o_gossipInterval opts) \<le> 0) \<and>
   (\<exists>x. gossip_goroutine opts mesh gs l = Return x) \<and>
   0 < sint (interval (NewJanitor iv))"
proof -
  have i: "m_interval (fst (refresh discover dial clk (NewMesh (o_instanceID opts) (o_gossipInterval opts) gz) w2)) = o_gossipInterval opts"
    using refresh_interval [of discover dial clk "NewMesh (o_instanceID opts) (o_gossipInterval opts) gz" w2] by (simp add: NewMesh_def)
  show ?thesis
    using i by (auto simp: start_limiter_cases heartbeat_goroutine_def mesh_goroutine_def gossip_goroutine_def NewTicker_def gossip_interval_def
      NewJanitor_def Let_def split_beta split: sum.split)
qed

end
