(* ===== verification/Bench_Tracker.thy ===== *)
theory Bench_Tracker
  imports Sharding
begin

text \<open>
  The accuracy tracker of the benchmark (\<^verbatim>\<open>cmd/krate-bench/main.go\<close>): it counts, per key and window, the
  requests that were allowed and rejected, and reports how many were allowed beyond the limit and how
  many were rejected although the limit was not used up.
\<close>

record windowStats =
  ws_allowed :: i64
  ws_rejected :: i64

type_synonym accuracyTracker = "(string, (i64, windowStats) gomap) gomap list"

definition trackerShardCount :: nat where
  "trackerShardCount = 64"

definition trackerShardIndex :: "string \<Rightarrow> nat" where
  "trackerShardIndex key = unat (fnv32_loop 2166136261 key AND 63)"

definition new_tracker :: accuracyTracker where
  \<comment> \<open>\<^verbatim>\<open>&accuracyTracker{}\<close>; the nil maps are made by the first \<^verbatim>\<open>Record\<close>\<close>
  "new_tracker = replicate trackerShardCount []"

definition tracker_Record :: "string \<Rightarrow> i64 \<Rightarrow> bool \<Rightarrow> accuracyTracker \<Rightarrow> accuracyTracker" where
  "tracker_Record key windowNum allowed t =
     (let idx = trackerShardIndex key; s = t ! idx;
          m = (case map_of s key of None \<Rightarrow> [] | Some m \<Rightarrow> m);
          ws = (case map_of m windowNum of None \<Rightarrow> \<lparr>ws_allowed = 0, ws_rejected = 0\<rparr> | Some ws \<Rightarrow> ws);
          ws' = (if allowed then ws\<lparr>ws_allowed := ws_allowed ws + 1\<rparr> else ws\<lparr>ws_rejected := ws_rejected ws + 1\<rparr>)
      in t[idx := AList.update key (AList.update windowNum ws' m) s])"

text \<open>The body of the inner loop of \<^verbatim>\<open>ComputeAccuracy\<close>, on the two totals.\<close>

definition account_window :: "u64 \<Rightarrow> windowStats \<Rightarrow> i64 \<times> i64 \<Rightarrow> i64 \<times> i64" where
  "account_window lm ws = (\<lambda>(totalLeakage, totalFalseRejections).
     (if sint lm < sint (ws_allowed ws) then totalLeakage + (ws_allowed ws - lm) else totalLeakage,
      if 0 < sint (ws_rejected ws) \<and> sint (ws_allowed ws) < sint lm
      then let unusedCapacity = lm - ws_allowed ws
           in if sint (ws_rejected ws) < sint unusedCapacity then totalFalseRejections + ws_rejected ws
              else totalFalseRejections + unusedCapacity
      else totalFalseRejections))"

definition ComputeAccuracy :: "u64 \<Rightarrow> accuracyTracker \<Rightarrow> i64 \<times> i64" where
  "ComputeAccuracy lm t = fold (fold (\<lambda>(key, m). fold (\<lambda>(windowNum, ws). account_window lm ws) m)) t (0, 0)"

subsection \<open>What the tracker holds\<close>

lemma tracker_fnv: "trackerShardIndex = shardIndex" "trackerShardCount = shardCount"
  by (simp_all add: trackerShardIndex_def shardIndex_def fun_eq_iff trackerShardCount_def shardCount_def)

text \<open>The windows of a key that were recorded, and how often.\<close>

type_synonym history = "(string \<times> i64 \<times> bool) list"

definition seen :: "history \<Rightarrow> (string \<times> i64) set" where
  "seen hs = (\<lambda>(k, n, b). (k, n)) ` set hs"

definition counted :: "history \<Rightarrow> string \<Rightarrow> i64 \<Rightarrow> bool \<Rightarrow> nat" where
  "counted hs k n b = count_list hs (k, n, b)"

definition record_all :: "history \<Rightarrow> accuracyTracker" where
  "record_all hs = fold (\<lambda>(k, n, b). tracker_Record k n b) hs new_tracker"

definition stats_at :: "accuracyTracker \<Rightarrow> string \<Rightarrow> i64 \<Rightarrow> windowStats option" where
  "stats_at t k n = Option.bind (map_of (t ! shardIndex k) k) (\<lambda>m. map_of m n)"

definition tracker_ok :: "accuracyTracker \<Rightarrow> bool" where
  "tracker_ok t \<longleftrightarrow> shards_ok shardIndex shardCount t \<and> (\<forall>s \<in> set t. \<forall>(k, m) \<in> set s. gomap_ok m)"

lemma tracker_ok_shard: "tracker_ok t \<Longrightarrow> gomap_ok (t ! shardIndex k)" "tracker_ok t \<Longrightarrow> (k', m) \<in> set (t ! shardIndex k) \<Longrightarrow> gomap_ok m"
proof -
  assume t: "tracker_ok t"
  then have "shardIndex k < length t" using shardIndex_less by (simp add: tracker_ok_def shards_ok_def)
  then have "t ! shardIndex k \<in> set t" by simp
  then have "\<forall>(k', m) \<in> set (t ! shardIndex k). gomap_ok m" using t unfolding tracker_ok_def by blast
  then show "(k', m) \<in> set (t ! shardIndex k) \<Longrightarrow> gomap_ok m" by blast
  show "gomap_ok (t ! shardIndex k)" using t shardIndex_less unfolding tracker_ok_def shards_ok_def by blast
qed

lemma update_values:
  assumes "(k', m') \<in> set (AList.update k m s)"
  shows "m' = m \<or> (k', m') \<in> set s"
  using assms by (induction s) (auto split: if_splits)

lemma tracker_ok_Record: "tracker_ok t \<Longrightarrow> tracker_ok (tracker_Record k n b t)"
proof -
  assume t: "tracker_ok t"
  define m where "m = (case map_of (t ! shardIndex k) k of None \<Rightarrow> [] | Some m \<Rightarrow> m)"
  have m: "gomap_ok m"
    using tracker_ok_shard(2) [OF t, of k m k] by (cases "map_of (t ! shardIndex k) k") (auto simp: m_def dest: map_of_SomeD)
  have ok: "tracker_ok (t[shardIndex k := AList.update k (AList.update n w m) (t ! shardIndex k)])" for w
    unfolding tracker_ok_def
  proof (intro conjI ballI)
    show "shards_ok shardIndex shardCount (t[shardIndex k := AList.update k (AList.update n w m) (t ! shardIndex k)])"
      using t by (simp add: tracker_ok_def fnv.shards_ok_update)
    fix s x assume s: "s \<in> set (t[shardIndex k := AList.update k (AList.update n w m) (t ! shardIndex k)])" and x: "x \<in> set s"
    obtain k' m' where e: "x = (k', m')" by (cases x)
    from set_update_subset_insert [of t "shardIndex k" "AList.update k (AList.update n w m) (t ! shardIndex k)"] s
    consider "s \<in> set t" | "s = AList.update k (AList.update n w m) (t ! shardIndex k)" by blast
    then have "gomap_ok m'"
    proof cases
      case 1
      then show ?thesis using t x e unfolding tracker_ok_def by blast
    next
      case 2
      then show ?thesis
        using update_values x e m tracker_ok_shard(2) [OF t] gomap_ok_update [OF m] by metis
    qed
    then show "case x of (key, m) \<Rightarrow> gomap_ok m" by (simp add: e)
  qed
  then show ?thesis by (simp add: tracker_Record_def tracker_fnv Let_def flip: m_def)
qed

lemma stats_at_Record:
  assumes "tracker_ok t"
  shows "stats_at (tracker_Record k n b t) k' n' =
    (if k' = k \<and> n' = n
     then let ws = (case stats_at t k n of None \<Rightarrow> \<lparr>ws_allowed = 0, ws_rejected = 0\<rparr> | Some ws \<Rightarrow> ws)
          in Some (if b then ws\<lparr>ws_allowed := ws_allowed ws + 1\<rparr> else ws\<lparr>ws_rejected := ws_rejected ws + 1\<rparr>)
     else stats_at t k' n')"
  using assms
  by (auto simp: stats_at_def tracker_Record_def tracker_fnv Let_def tracker_ok_def fnv.lookup_update update_conv'
      split: option.splits)

lemma record_all_stats:
  "tracker_ok (record_all hs) \<and> (\<forall>k n. stats_at (record_all hs) k n =
     (if (k, n) \<in> seen hs then Some \<lparr>ws_allowed = of_nat (counted hs k n True), ws_rejected = of_nat (counted hs k n False)\<rparr> else None))"
proof (induction hs rule: rev_induct)
  case Nil
  have "shardIndex k < shardCount" for k by (rule shardIndex_less)
  then show ?case
    by (auto simp: record_all_def new_tracker_def tracker_fnv tracker_ok_def stats_at_def seen_def)
next
  case (snoc x hs)
  obtain k n b where x: "x = (k, n, b)" by (rule prod_cases3)
  have r: "record_all (hs @ [x]) = tracker_Record k n b (record_all hs)" by (simp add: record_all_def x)
  have z: "counted hs k' n' b' = 0" if "(k', n') \<notin> seen hs" for k' n' b'
    using that by (force simp: counted_def seen_def count_list_0_iff)
  have s: "seen (hs @ [x]) = insert (k, n) (seen hs)" by (simp add: seen_def x)
  have t: "counted (hs @ [x]) k' n' b' = counted hs k' n' b' + (if k' = k \<and> n' = n \<and> b' = b then 1 else 0)" for k' n' b'
    by (auto simp: counted_def x)
  show ?case
    using snoc z by (auto simp: r s t tracker_ok_Record stats_at_Record Let_def split: option.splits)
qed

subsection \<open>The report\<close>

definition entries :: "accuracyTracker \<Rightarrow> ((string \<times> i64) \<times> windowStats) list" where
  "entries t = concat (map (\<lambda>(k, m). map (\<lambda>(n, ws). ((k, n), ws)) m) (concat t))"

lemma fold_windows:
  "fold (\<lambda>(kn, ws). account_window lm ws) (map (\<lambda>(n, ws). ((k, n), ws)) m) acc = fold (\<lambda>(n, ws). account_window lm ws) m acc"
  by (induction m arbitrary: acc) auto

lemma fold_shard:
  "fold (\<lambda>(kn, ws). account_window lm ws) (concat (map (\<lambda>(k, m). map (\<lambda>(n, ws). ((k, n), ws)) m) s)) acc =
   fold (\<lambda>(key, m). fold (\<lambda>(n, ws). account_window lm ws) m) s acc"
  by (induction s arbitrary: acc) (auto simp: fold_windows)

lemma ComputeAccuracy_entries: "ComputeAccuracy lm t = fold (\<lambda>(kn, ws). account_window lm ws) (entries t) (0, 0)"
proof -
  have "fold (fold (\<lambda>(key, m). fold (\<lambda>(n, ws). account_window lm ws) m)) t acc =
      fold (\<lambda>(key, m). fold (\<lambda>(n, ws). account_window lm ws) m) (concat t) acc" for acc
    by (induction t arbitrary: acc) auto
  then show ?thesis by (simp add: ComputeAccuracy_def entries_def fold_shard)
qed

lemma entries_iff:
  assumes "tracker_ok t"
  shows "((k, n), ws) \<in> set (entries t) \<longleftrightarrow> stats_at t k n = Some ws"
proof -
  have sh: "shards_ok shardIndex shardCount t" using assms by (simp add: tracker_ok_def)
  have at: "(k, m) \<in> set (concat t) \<longleftrightarrow> map_of (t ! shardIndex k) k = Some m" for m
  proof
    assume "(k, m) \<in> set (concat t)"
    then obtain x where x: "x \<in> set t" "(k, m) \<in> set x" by auto
    then obtain i where i: "i < length t" "(k, m) \<in> set (t ! i)" by (metis in_set_conv_nth)
    have "i < shardCount" using i(1) shards_okD(1) [OF sh] by simp
    then have "shardIndex k = i" using shards_okD(3) [OF sh, of i] i(2) by force
    then show "map_of (t ! shardIndex k) k = Some m" using i(2) tracker_ok_shard(1) [OF assms, of k] by (simp add: map_of_mem_iff)
  next
    assume "map_of (t ! shardIndex k) k = Some m"
    then have "(k, m) \<in> set (t ! shardIndex k)" by (rule map_of_SomeD)
    moreover have "shardIndex k < length t" using shards_okD(1) [OF sh] shardIndex_less by simp
    ultimately show "(k, m) \<in> set (concat t)" using nth_mem by fastforce
  qed
  have "((k, n), ws) \<in> set (entries t) \<longleftrightarrow> (\<exists>m. (k, m) \<in> set (concat t) \<and> (n, ws) \<in> set m)"
    by (force simp: entries_def image_iff)
  also have "\<dots> \<longleftrightarrow> (\<exists>m. map_of (t ! shardIndex k) k = Some m \<and> map_of m n = Some ws)"
    using at tracker_ok_shard(2) [OF assms, of k _ k] map_of_SomeD map_of_mem_iff by metis
  finally show ?thesis by (auto simp: stats_at_def bind_eq_Some_conv)
qed

lemma distinct_windows:
  "gomap_ok xs \<Longrightarrow> \<forall>(k, m) \<in> set xs. gomap_ok m \<Longrightarrow>
   distinct (map fst (concat (map (\<lambda>(k, m). map (\<lambda>(n, ws). ((k, n), ws)) m) xs)))"
proof (induction xs)
  case (Cons x xs)
  obtain k m where x: "x = (k, m)" by (cases x)
  have "gomap_ok m" using Cons.prems(2) x by simp
  then have "distinct (map fst (map (\<lambda>(n, ws). ((k, n), ws)) m))" by (induction m) force+
  moreover have "k \<notin> fst ` set xs" using Cons.prems(1) x by simp
  then have "set (map fst (map (\<lambda>(n, ws). ((k, n), ws)) m)) \<inter>
      set (map fst (concat (map (\<lambda>(k, m). map (\<lambda>(n, ws). ((k, n), ws)) m) xs))) = {}" by force
  ultimately show ?case using Cons x by simp
qed simp

lemma entries_distinct:
  assumes "tracker_ok t"
  shows "distinct (map fst (entries t))"
  unfolding entries_def
proof (rule distinct_windows)
  show "gomap_ok (concat t)"
    using assms by (intro distinct_concat_indexed [where off = 0 and idx = shardIndex]) (auto simp: tracker_ok_def shards_ok_def)
  show "\<forall>(k, m) \<in> set (concat t). gomap_ok m" using assms by (fastforce simp: tracker_ok_def)
qed

subsection \<open>The report is what the history says\<close>

definition leakage :: "int \<Rightarrow> history \<Rightarrow> int" where
  "leakage lm hs = (\<Sum>(k, n) \<in> seen hs. max 0 (int (counted hs k n True) - lm))"

definition false_rejections :: "int \<Rightarrow> history \<Rightarrow> int" where
  "false_rejections lm hs = (\<Sum>(k, n) \<in> seen hs. min (int (counted hs k n False)) (max 0 (lm - int (counted hs k n True))))"

definition leak_of :: "u64 \<Rightarrow> windowStats \<Rightarrow> int" where
  "leak_of lm ws = max 0 (sint (ws_allowed ws) - sint lm)"

definition false_of :: "u64 \<Rightarrow> windowStats \<Rightarrow> int" where
  "false_of lm ws = min (sint (ws_rejected ws)) (max 0 (sint lm - sint (ws_allowed ws)))"

lemma account_window_adds:
  assumes "0 \<le> sint lm" "0 \<le> sint (ws_allowed ws)" "0 \<le> sint (ws_rejected ws)"
  shows "account_window lm ws (word_of_int x, word_of_int y) = (word_of_int (x + leak_of lm ws), word_of_int (y + false_of lm ws))"
proof -
  have "sint (lm - ws_allowed ws) = sint (word_of_int (sint lm - sint (ws_allowed ws)) :: i64)" by simp
  also have "\<dots> = sint lm - sint (ws_allowed ws)"
    using assms sint_i64_upper [of lm] sint_i64_upper [of "ws_allowed ws"] by (intro sint_of_int_exact) linarith+
  finally show ?thesis
    using assms by (auto simp: account_window_def leak_of_def false_of_def Let_def max_def min_def intro: signed_word_eqI signed_word_eqI [symmetric])
qed

lemma account_all:
  assumes "0 \<le> sint lm" "\<forall>(kn, ws) \<in> set xs. 0 \<le> sint (ws_allowed ws) \<and> 0 \<le> sint (ws_rejected ws)"
  shows "fold (\<lambda>(kn, ws). account_window lm ws) xs (word_of_int x, word_of_int y) =
    (word_of_int (x + sum_list (map (leak_of lm \<circ> snd) xs)), word_of_int (y + sum_list (map (false_of lm \<circ> snd) xs)))"
  using assms(2)
proof (induction xs arbitrary: x y)
  case (Cons e xs)
  obtain kn ws where e: "e = (kn, ws)" by (cases e)
  show ?case
    using Cons account_window_adds [OF assms(1), of ws x y] e Cons.IH [of "x + leak_of lm ws" "y + false_of lm ws"]
    by (simp add: add.assoc)
qed simp

lemma counted_sum:
  "(\<Sum>(k, n) \<in> seen hs. int (counted hs k n b)) \<le> int (length hs)"
proof -
  let ?f = "\<lambda>(k, n). (k, n, b)"
  have "(\<Sum>(k, n) \<in> seen hs. counted hs k n b) = sum (count_list hs) (?f ` seen hs)"
    by (subst sum.reindex) (auto simp: inj_on_def counted_def split_beta comp_def)
  also have "\<dots> \<le> sum (count_list hs) (?f ` seen hs \<union> set hs)" by (rule sum_mono2) (auto simp: seen_def)
  also have "\<dots> = length hs" by (rule sum_count_set) (auto simp: seen_def)
  finally have "int (\<Sum>(k, n) \<in> seen hs. counted hs k n b) \<le> int (length hs)" by (rule of_nat_mono)
  then show ?thesis by (simp only: case_prod_unfold of_nat_sum)
qed

lemma report_bounds:
  assumes "0 \<le> lm"
  shows "0 \<le> leakage lm hs" "leakage lm hs \<le> int (length hs)"
    "0 \<le> false_rejections lm hs" "false_rejections lm hs \<le> int (length hs)"
proof -
  show "0 \<le> leakage lm hs" unfolding leakage_def by (rule sum_nonneg) auto
  have "leakage lm hs \<le> (\<Sum>(k, n) \<in> seen hs. int (counted hs k n True))"
    unfolding leakage_def by (rule sum_mono) (use assms in auto)
  then show "leakage lm hs \<le> int (length hs)" using counted_sum [of hs True] by linarith
  show "0 \<le> false_rejections lm hs" unfolding false_rejections_def by (rule sum_nonneg) auto
  have "false_rejections lm hs \<le> (\<Sum>(k, n) \<in> seen hs. int (counted hs k n False))"
    unfolding false_rejections_def by (rule sum_mono) auto
  then show "false_rejections lm hs \<le> int (length hs)" using counted_sum [of hs False] by linarith
qed

lemma counted_le: "counted hs k n b \<le> length hs"
  by (simp add: counted_def count_le_length)

lemma sum_entries:
  assumes "tracker_ok t"
  shows "sum_list (map (f \<circ> snd) (entries t)) = (\<Sum>(k, n) \<in> {(k, n). stats_at t k n \<noteq> None}. f (the (stats_at t k n)) :: int)"
proof -
  have d: "distinct (entries t)" using entries_distinct [OF assms] by (simp add: distinct_map)
  have "sum_list (map (f \<circ> snd) (entries t)) = (\<Sum>x \<in> set (entries t). f (snd x))"
    using sum_list_distinct_conv_sum_set [OF d, of "f \<circ> snd"] by simp
  also have "\<dots> = (\<Sum>kn \<in> fst ` set (entries t). f (the (stats_at t (fst kn) (snd kn))))"
    using entries_distinct [OF assms] entries_iff [OF assms]
    by (intro sum.reindex_cong [symmetric, OF _ refl, where l = fst] | force simp: distinct_map)+
  also have "fst ` set (entries t) = {(k, n). stats_at t k n \<noteq> None}"
    using entries_iff [OF assms] by (force simp: image_iff)
  finally show ?thesis by (simp add: case_prod_unfold comp_def)
qed

text \<open>
  The report of the accuracy tracker is what the requests say: after any history of requests,
  whatever the shards and the order of the maps, the leakage is the sum over the windows of every key
  of what was allowed beyond the limit, and the false rejections the sum of the rejections that
  the unused capacity of their window would have covered.
\<close>
lemma accuracy:
  assumes "uint lm < 2 ^ 63" "length hs < 2 ^ 63"
  shows "let (totalLeakage, totalFalseRejections) = ComputeAccuracy lm (record_all hs) in
    sint totalLeakage = leakage (uint lm) hs \<and> sint totalFalseRejections = false_rejections (uint lm) hs"
proof -
  note R = record_all_stats [of hs]
  have ok: "tracker_ok (record_all hs)" using R by blast
  have lm: "sint lm = uint lm" by (rule sint_small [OF assms(1)])
  have small: "sint (of_nat (counted hs k n b) :: i64) = int (counted hs k n b)" for k n b
    using counted_le [of hs k n b] assms(2) by (intro sint_of_nat_exact) linarith
  have at: "stats_at (record_all hs) k n = (if (k, n) \<in> seen hs
      then Some \<lparr>ws_allowed = of_nat (counted hs k n True), ws_rejected = of_nat (counted hs k n False)\<rparr> else None)" for k n
    using R by blast
  have sum: "sum_list (map (f \<circ> snd) (entries (record_all hs))) =
      (\<Sum>(k, n) \<in> seen hs. f \<lparr>ws_allowed = of_nat (counted hs k n True), ws_rejected = of_nat (counted hs k n False)\<rparr>)" for f :: "windowStats \<Rightarrow> int"
  proof -
    have "{(k, n). stats_at (record_all hs) k n \<noteq> None} = seen hs" using at by (auto split: if_splits)
    then show ?thesis unfolding sum_entries [OF ok] by (intro sum.cong) (auto simp: at)
  qed
  have nn: "\<forall>(kn, ws) \<in> set (entries (record_all hs)). 0 \<le> sint (ws_allowed ws) \<and> 0 \<le> sint (ws_rejected ws)"
    using entries_iff [OF ok] at small by (auto split: if_splits)
  have "ComputeAccuracy lm (record_all hs) = (word_of_int (leakage (uint lm) hs), word_of_int (false_rejections (uint lm) hs))"
    using account_all [OF _ nn, of lm 0 0] lm
    by (simp add: ComputeAccuracy_entries sum leak_of_def false_of_def small leakage_def false_rejections_def)
  then show ?thesis
    using report_bounds [of "uint lm" hs] assms(2) by (simp add: sint_of_int_exact)
qed

end
