(* ===== verification/Bench.thy ===== *)
theory Bench
  imports Bench_Tracker Redis_Pool Go_Float
begin

text \<open>
  The rest of the benchmark (\<^verbatim>\<open>cmd/krate-bench/main.go\<close>): the scenarios and what is derived from them, the
  latency reservoir with its percentiles and histogram, the counters of the token paths, and the
  limiter it compares krate with, a script in Redis. Printing, sleeping and the Zipf generator are
  left out; random numbers come from a parameter.
\<close>

subsection \<open>Scenarios\<close>

record scenarioConfig =
  sc_Name :: string
  sc_Description :: string
  sc_Instances :: nat
  sc_Concurrency :: nat
  sc_Keys :: nat
  sc_Limit :: u64
  sc_Window :: duration
  sc_ZipfS :: f64
  sc_ProbeK :: nat
  sc_ReservedMin :: f64
  sc_SharedHotspot :: bool
  sc_TrafficSkew :: bool

definition scenarios :: "(string, scenarioConfig) gomap" where
  "scenarios =
     [(''api-gateway'', \<lparr>sc_Name = ''API Gateway'', sc_Description = ''10K API keys, power-law traffic. Top 1% handles ~50% of requests.'',
         sc_Instances = 4, sc_Concurrency = 100, sc_Keys = 10000,
         sc_Limit = 10000, sc_Window = 60000000000, sc_ZipfS = rnd (13 / 10), sc_ProbeK = 3, sc_ReservedMin = rnd (1 / 10),
         sc_SharedHotspot = False, sc_TrafficSkew = False\<rparr>),
      (''user-limiting'', \<lparr>sc_Name = ''Per-User Limiting'', sc_Description = ''10K users, moderate skew, tight per-user limits.'',
         sc_Instances = 4, sc_Concurrency = 100, sc_Keys = 10000,
         sc_Limit = 200, sc_Window = 60000000000, sc_ZipfS = rnd (13 / 10), sc_ProbeK = 3, sc_ReservedMin = rnd (1 / 10),
         sc_SharedHotspot = False, sc_TrafficSkew = False\<rparr>),
      (''ip-throttling'', \<lparr>sc_Name = ''IP Throttling'', sc_Description = ''10K unique IPs, heavy bot tail. Small limits force frequent re-borrows.'',
         sc_Instances = 4, sc_Concurrency = 150, sc_Keys = 10000,
         sc_Limit = 60, sc_Window = 60000000000, sc_ZipfS = rnd (14 / 10), sc_ProbeK = 3, sc_ReservedMin = rnd (1 / 10),
         sc_SharedHotspot = False, sc_TrafficSkew = False\<rparr>),
      (''multi-tenant'', \<lparr>sc_Name = ''Multi-Tenant SaaS'', sc_Description = ''10K tenants, high throughput per tenant. Tests borrow amortization.'',
         sc_Instances = 4, sc_Concurrency = 100, sc_Keys = 10000,
         sc_Limit = 5000, sc_Window = 60000000000, sc_ZipfS = rnd (13 / 10), sc_ProbeK = 3, sc_ReservedMin = rnd (1 / 10),
         sc_SharedHotspot = False, sc_TrafficSkew = False\<rparr>),
      (''peer'', \<lparr>sc_Name = ''Peer Token Flow'', sc_Description = ''2 instances, probeK=3. Tests peer acquisition + redis-zero bypass.'',
         sc_Instances = 2, sc_Concurrency = 50, sc_Keys = 10000,
         sc_Limit = 500, sc_Window = 60000000000, sc_ZipfS = rnd (13 / 10), sc_ProbeK = 3, sc_ReservedMin = rnd (1 / 10),
         sc_SharedHotspot = False, sc_TrafficSkew = False\<rparr>),
      (''peer-transfer'', \<lparr>sc_Name = ''Peer Transfer'', sc_Description = ''Uneven traffic + fair borrowing = peer token donations.'',
         sc_Instances = 4, sc_Concurrency = 50, sc_Keys = 10000,
         sc_Limit = 200, sc_Window = 10000000000, sc_ZipfS = rnd (13 / 10), sc_ProbeK = 3, sc_ReservedMin = rnd (5 / 100),
         sc_SharedHotspot = True, sc_TrafficSkew = True\<rparr>)]"

text \<open>The borrow sizes of an instance, smallest first.\<close>

definition borrow_sizes :: "scenarioConfig \<Rightarrow> u64 \<times> u64" where
  "borrow_sizes cfg =
     (let n = of_nat (sc_Instances cfg);
          maxBorrow = sc_Limit cfg div (2 * n);
          minBorrow = sc_Limit cfg div (10 * n)
      in (if minBorrow = 0 then 1 else minBorrow, if maxBorrow = 0 then 1 else maxBorrow))"

definition intervals :: "scenarioConfig \<Rightarrow> duration \<times> duration" where
  \<comment> \<open>of the gossip and of the heartbeat\<close>
  "intervals cfg = (if 0 < sc_ProbeK cfg then (1000000, 10000000) else (3600000000000, 3600000000000))"

definition workers :: "scenarioConfig \<Rightarrow> nat \<Rightarrow> nat" where
  "workers cfg gi =
     (if sc_TrafficSkew cfg
      then if gi = 0 then sc_Concurrency cfg * 2
           else let w = sc_Concurrency cfg div 5 in if w = 0 then 1 else w
      else sc_Concurrency cfg)"

definition key_index :: "scenarioConfig \<Rightarrow> nat \<Rightarrow> nat \<Rightarrow> nat" where
  \<comment> \<open>\<open>raw\<close> is what the Zipf generator draws\<close>
  "key_index cfg instID raw =
     (let shift = (if sc_SharedHotspot cfg then 0 else instID * (sc_Keys cfg div sc_Instances cfg))
      in (raw + shift) mod sc_Keys cfg)"

text \<open>How long to sleep until the next window begins.\<close>

definition sleep_to_boundary :: "i64 \<Rightarrow> i64 \<Rightarrow> duration" where
  "sleep_to_boundary windowMs nowMs =
     (let nextBoundary = (i64_div nowMs windowMs + 1) * windowMs in (nextBoundary - nowMs) * 1000000)"

subsection \<open>Latencies\<close>

definition i64_of_f64 :: "(f64 \<Rightarrow> i64) \<Rightarrow> f64 \<Rightarrow> i64" where
  \<comment> \<open>\<^verbatim>\<open>int64(x)\<close>\<close>
  "i64_of_f64 oor x = (case x of
     FFin q \<Rightarrow> if - (2 ^ 63) \<le> trunc_rat q \<and> trunc_rat q < 2 ^ 63 then word_of_int (trunc_rat q) else oor x
   | _ \<Rightarrow> oor x)"

record 'g rand =
  Int64N :: "i64 \<Rightarrow> 'g \<Rightarrow> i64 \<times> 'g"
  IntN :: "nat \<Rightarrow> 'g \<Rightarrow> nat \<times> 'g"

record latency =
  lat_buf :: "f64 list"
  lat_count :: i64
  lat_sum :: i64
  lat_n :: nat

definition newLatency :: "nat \<Rightarrow> latency" where
  "newLatency n = \<lparr>lat_buf = [], lat_count = 0, lat_sum = 0, lat_n = n\<rparr>"

definition lat_add :: "'g rand \<Rightarrow> (f64 \<Rightarrow> i64) \<Rightarrow> f64 \<Rightarrow> latency \<times> 'g \<Rightarrow> latency \<times> 'g" where
  "lat_add R oor ns = (\<lambda>(l, g).
     let c = lat_count l + 1;
         l1 = l\<lparr>lat_count := c, lat_sum := lat_sum l + i64_of_f64 oor ns\<rparr>;
         (keep, g1) = (if sint c \<le> int (lat_n l) then (True, g)
                       else let (x, g1) = Int64N R c g in (sint x < int (lat_n l), g1))
     in if keep
        then if length (lat_buf l1) < lat_n l1 then (l1\<lparr>lat_buf := lat_buf l1 @ [ns]\<rparr>, g1)
             else let (i, g2) = IntN R (lat_n l1) g1 in (l1\<lparr>lat_buf := (lat_buf l1)[i := ns]\<rparr>, g2)
        else (l1, g1))"

text \<open>\<^verbatim>\<open>sort.Float64s\<close>: a value that is not a number comes first.\<close>

definition float_before :: "f64 \<Rightarrow> f64 \<Rightarrow> bool" where
  "float_before a b \<longleftrightarrow> a = FNaN \<or> fleq a b"

fun float_insort :: "f64 \<Rightarrow> f64 list \<Rightarrow> f64 list" where
  "float_insort x [] = [x]"
| "float_insort x (y # ys) = (if float_before x y then x # y # ys else y # float_insort x ys)"

definition Float64s :: "f64 list \<Rightarrow> f64 list" where
  "Float64s xs = foldr float_insort xs []"

definition pct_of :: "(f64 \<Rightarrow> i64) \<Rightarrow> f64 list \<Rightarrow> f64 \<Rightarrow> f64 go" where
  "pct_of oor s p =
     (let n = length s
      in if n = 0 then Return (FFin 0)
         else let i = sint (i64_of_f64 oor (fdiv (fmul (f64_of_i64 (of_nat (n - 1))) p) (FFin 100)));
                  j = (if int n \<le> i then int n - 1 else i)
              in if j < 0 then Panic ''index out of range'' else Return (s ! nat j))"

definition pcts :: "(f64 \<Rightarrow> i64) \<Rightarrow> f64 list \<Rightarrow> latency \<Rightarrow> (f64 \<times> f64 go) list" where
  "pcts oor ps l = (let s = Float64s (lat_buf l) in map (\<lambda>p. (p, pct_of oor s p)) ps)"

definition lat_avg :: "latency \<Rightarrow> f64" where
  "lat_avg l = (if 0 < sint (lat_count l) then fdiv (f64_of_i64 (lat_sum l)) (f64_of_i64 (lat_count l)) else FFin 0)"

record histBin =
  hb_label :: string
  hb_upper :: f64
  hb_count :: nat

definition empty_bins :: "histBin list" where
  \<comment> \<open>the labels in UTF-8\<close>
  "empty_bins = map (\<lambda>(l, u). \<lparr>hb_label = l, hb_upper = FFin u, hb_count = 0\<rparr>)
     (let mu = [CHR 0xCE, CHR 0xBC] in
      [(''<200ns'', 200), (''<500ns'', 500), (''<1'' @ mu @ ''s'', 1000),
       (''<2'' @ mu @ ''s'', 2000), (''<5'' @ mu @ ''s'', 5000), (''<10'' @ mu @ ''s'', 10000),
       (''<50'' @ mu @ ''s'', 50000), (''<100'' @ mu @ ''s'', 100000), (''<500'' @ mu @ ''s'', 500000),
       (''<1ms'', 1000000), (''<5ms'', 5000000), (''<10ms'', 10000000),
       ([CHR 0xE2, CHR 0x89, CHR 0xA5] @ ''10ms'', 10 ^ 18)])"

fun bump :: "f64 \<Rightarrow> histBin list \<Rightarrow> histBin list" where
  \<comment> \<open>the inner loop, with its \<^verbatim>\<open>break\<close>\<close>
  "bump v [] = []"
| "bump v (b # bs) = (if fless v (hb_upper b) then b\<lparr>hb_count := hb_count b + 1\<rparr> # bs else b # bump v bs)"

definition bins :: "latency \<Rightarrow> histBin list" where
  "bins l = fold bump (Float64s (lat_buf l)) empty_bins"

subsection \<open>The paths of the tokens\<close>

record pathMetrics =
  pm_local :: i64
  pm_redis :: i64
  pm_redisEx :: i64
  pm_redisSkip :: i64
  pm_preBorrows :: i64
  pm_peer :: i64
  pm_peerProbes :: i64
  pm_peerStale :: i64

text \<open>A gathered family: its name, and each counter with its labels and value.\<close>

type_synonym family = "string \<times> ((string \<times> string) list \<times> f64) list"

definition gather_label :: "(string \<Rightarrow> pathMetrics \<Rightarrow> pathMetrics) \<Rightarrow> (string \<times> string) list \<Rightarrow> pathMetrics \<Rightarrow> pathMetrics" where
  \<comment> \<open>the loop over the labels of a counter\<close>
  "gather_label f = fold (\<lambda>(name, value) pm. if name = ''result'' then f value pm else pm)"

definition gather_family :: "(f64 \<Rightarrow> i64) \<Rightarrow> family \<Rightarrow> pathMetrics \<Rightarrow> pathMetrics" where
  "gather_family oor = (\<lambda>(name, ms).
     if name = ''krate_local_hits_total'' then
       fold (\<lambda>(ls, v) pm. pm\<lparr>pm_local := pm_local pm + i64_of_f64 oor v\<rparr>) ms
     else if name = ''krate_redis_borrows_total'' then
       fold (\<lambda>(ls, v). gather_label (\<lambda>value pm.
         if value = ''granted'' then pm\<lparr>pm_redis := pm_redis pm + i64_of_f64 oor v\<rparr>
         else pm\<lparr>pm_redisEx := pm_redisEx pm + i64_of_f64 oor v\<rparr>) ls) ms
     else if name = ''krate_redis_skips_total'' then
       fold (\<lambda>(ls, v) pm. pm\<lparr>pm_redisSkip := pm_redisSkip pm + i64_of_f64 oor v\<rparr>) ms
     else if name = ''krate_pre_borrows_total'' then
       fold (\<lambda>(ls, v) pm. pm\<lparr>pm_preBorrows := pm_preBorrows pm + i64_of_f64 oor v\<rparr>) ms
     else if name = ''krate_peer_probes_total'' then
       fold (\<lambda>(ls, v) pm. gather_label (\<lambda>value pm.
         if value = ''granted'' then pm\<lparr>pm_peer := pm_peer pm + i64_of_f64 oor v\<rparr>
         else if value = ''stale'' then pm\<lparr>pm_peerStale := pm_peerStale pm + i64_of_f64 oor v\<rparr>
         else pm) ls (pm\<lparr>pm_peerProbes := pm_peerProbes pm + i64_of_f64 oor v\<rparr>)) ms
     else id)"

definition gatherPath :: "(f64 \<Rightarrow> i64) \<Rightarrow> family list list \<Rightarrow> pathMetrics" where
  "gatherPath oor regs = fold (fold (gather_family oor)) regs
     \<lparr>pm_local = 0, pm_redis = 0, pm_redisEx = 0, pm_redisSkip = 0, pm_preBorrows = 0, pm_peer = 0, pm_peerProbes = 0, pm_peerStale = 0\<rparr>"

definition pct :: "i64 \<Rightarrow> i64 \<Rightarrow> f64" where
  "pct part whole = (if whole = 0 then FFin 0 else fmul (fdiv (f64_of_i64 part) (f64_of_i64 whole)) (FFin 100))"

subsection \<open>The baseline\<close>

definition baselineLua :: "'s redis_cmds \<Rightarrow> string \<Rightarrow> int \<Rightarrow> int \<Rightarrow> 's \<Rightarrow> int \<times> 's" where
  \<comment> \<open>\<^verbatim>\<open>INCR\<close> and \<^verbatim>\<open>DECR\<close> are by one, \<^verbatim>\<open>EXPIRE\<close> is in seconds\<close>
  "baselineLua R key l ttl s =
     (let c = avail R key s
      in if l \<le> c then (0, s)
         else
           let s1 = INCRBY R key 1 s; n = avail R key s1;
               s2 = (if n = 1 then PEXPIRE R key (ttl * 1000) s1 else s1)
           in if l < n then (0, DECRBY R key 1 s2) else (1, s2))"

text \<open>One request of a goroutine that has been answered; \<open>ns\<close> is how long it took.\<close>

record 'g drive =
  dr_total :: i64
  dr_allowed :: i64
  dr_rejected :: i64
  dr_tracker :: accuracyTracker
  dr_lat :: "latency \<times> 'g"

definition new_drive :: "'g \<Rightarrow> 'g drive" where
  "new_drive g = \<lparr>dr_total = 0, dr_allowed = 0, dr_rejected = 0, dr_tracker = new_tracker, dr_lat = (newLatency 500000, g)\<rparr>"

definition answered_request ::
    "'g rand \<Rightarrow> (f64 \<Rightarrow> i64) \<Rightarrow> i64 \<Rightarrow> string \<Rightarrow> i64 \<Rightarrow> bool \<Rightarrow> f64 \<Rightarrow> 'g drive \<Rightarrow> 'g drive" where
  "answered_request R oor windowMs key nowMs ok ns d =
     (let d1 = d\<lparr>dr_total := dr_total d + 1, dr_lat := lat_add R oor ns (dr_lat d),
                 dr_tracker := tracker_Record key (i64_div nowMs windowMs) ok (dr_tracker d)\<rparr>
      in if ok then d1\<lparr>dr_allowed := dr_allowed d1 + 1\<rparr> else d1\<lparr>dr_rejected := dr_rejected d1 + 1\<rparr>)"

subsection \<open>The reservoir\<close>

text \<open>What is relied on of the random numbers: they are in range.\<close>

definition rand_ok :: "'g rand \<Rightarrow> bool" where
  "rand_ok R \<longleftrightarrow> (\<forall>c g. 0 < sint c \<longrightarrow> 0 \<le> sint (fst (Int64N R c g)) \<and> sint (fst (Int64N R c g)) < sint c) \<and>
     (\<forall>n g. 0 < n \<longrightarrow> fst (IntN R n g) < n)"

definition lat_all :: "'g rand \<Rightarrow> (f64 \<Rightarrow> i64) \<Rightarrow> f64 list \<Rightarrow> latency \<times> 'g \<Rightarrow> latency \<times> 'g" where
  "lat_all R oor vs = fold (lat_add R oor) vs"

lemma lat_all_snoc [simp]: "lat_all R oor (vs @ [v]) x = lat_add R oor v (lat_all R oor vs x)" "lat_all R oor [] x = x"
  by (simp_all add: lat_all_def)

lemma reservoir:
  assumes "rand_ok R" "0 < n" "length vs < 2 ^ 63" "lat_all R oor vs (newLatency n, g) = (l, g')"
  shows "lat_n l = n \<and> lat_count l = of_nat (length vs) \<and> lat_sum l = sum_list (map (i64_of_f64 oor) vs) \<and>
    length (lat_buf l) = min n (length vs) \<and> set (lat_buf l) \<subseteq> set vs \<and> (length vs \<le> n \<longrightarrow> lat_buf l = vs)"
  using assms(3,4)
proof (induction vs arbitrary: l g' rule: rev_induct)
  case Nil
  then show ?case by (auto simp: newLatency_def)
next
  case (snoc v vs)
  obtain l0 g0 where l0: "lat_all R oor vs (newLatency n, g) = (l0, g0)" by (cases "lat_all R oor vs (newLatency n, g)")
  have IH: "lat_n l0 = n" "lat_count l0 = of_nat (length vs)" "lat_sum l0 = sum_list (map (i64_of_f64 oor) vs)"
    "length (lat_buf l0) = min n (length vs)" "set (lat_buf l0) \<subseteq> set vs" "length vs \<le> n \<longrightarrow> lat_buf l0 = vs"
    using snoc.IH [OF _ l0] snoc.prems(1) by simp_all
  have c: "lat_count l0 + 1 = of_nat (length (vs @ [v]))" by (simp add: IH(2))
  have sc: "sint (lat_count l0 + 1) = int (length vs) + 1"
    unfolding c using snoc.prems(1) by (simp add: sint_of_nat_exact del: of_nat_Suc)
  have add: "lat_add R oor v (l0, g0) = (l, g')" using snoc.prems(2) l0 by simp
  show ?case
  proof (cases "Suc (length vs) \<le> n")
    case True
    then have "length (lat_buf l0) < n" "sint (lat_count l0 + 1) \<le> int n" using IH(4) sc by auto
    then show ?thesis using add IH c True by (auto simp: lat_add_def Let_def)
  next
    case False
    then have f: "length (lat_buf l0) = n" "\<not> sint (lat_count l0 + 1) \<le> int n" using IH(4) sc by auto
    have s: "set ((lat_buf l0)[j := v]) \<subseteq> set (vs @ [v])" for j
      using set_update_subset_insert [of "lat_buf l0" j v] IH(5) by auto
    have l: "lat_n l = n \<and> lat_count l = lat_count l0 + 1 \<and> lat_sum l = lat_sum l0 + i64_of_f64 oor v \<and>
        (lat_buf l = lat_buf l0 \<or> (\<exists>j. lat_buf l = (lat_buf l0)[j := v]))"
      using add IH(1) f by (auto simp: lat_add_def Let_def split_beta split: if_splits)
    then have len: "length (lat_buf l) = n" using f(1) by auto
    from l consider "lat_buf l = lat_buf l0" | j where "lat_buf l = (lat_buf l0)[j := v]" by blast
    then have "set (lat_buf l) \<subseteq> set (vs @ [v])"
    proof cases
      case 2
      then show ?thesis using s by (simp only:)
    qed (use IH(5) in auto)
    then show ?thesis using l len IH(3) c False by auto
  qed
qed

subsection \<open>Percentiles and histogram\<close>

lemma float_insort_mset [simp]: "mset (float_insort x ys) = add_mset x (mset ys)"
  by (induction ys) auto

lemma Float64s_mset [simp]: "mset (Float64s xs) = mset xs"
  by (induction xs) (simp_all add: Float64s_def)

lemma Float64s_simps [simp]: "set (Float64s xs) = set xs" "length (Float64s xs) = length xs"
  using Float64s_mset [of xs] mset_eq_setD mset_eq_length by blast+

lemma float_before_total: "\<not> float_before a b \<Longrightarrow> float_before b a"
  by (cases a; cases b) (auto simp: float_before_def)

lemma float_before_refl [simp]: "float_before a a"
  by (cases a) (auto simp: float_before_def)

lemma float_before_trans: "float_before a b \<Longrightarrow> float_before b c \<Longrightarrow> float_before a c"
  by (cases a; cases b; cases c) (auto simp: float_before_def)

lemma float_insort_set [simp]: "set (float_insort x ys) = insert x (set ys)"
  by (induction ys) auto

lemma float_insort_sorted: "sorted_wrt float_before ys \<Longrightarrow> sorted_wrt float_before (float_insort x ys)"
proof (induction ys)
  case (Cons y ys)
  show ?case
  proof (cases "float_before x y")
    case True
    then have "\<forall>z \<in> set ys. float_before x z" using Cons.prems float_before_trans [OF True] by simp
    then show ?thesis using True Cons.prems by simp
  next
    case False
    then show ?thesis using Cons float_before_total [OF False] by simp
  qed
qed simp

lemma Float64s_sorted: "sorted_wrt float_before (Float64s xs)"
  by (induction xs) (simp_all add: Float64s_def float_insort_sorted)

lemma f64_of_i64_nat: "n \<le> 2 ^ 53 \<Longrightarrow> f64_of_i64 (of_nat n) = FFin (of_nat n)"
  using rnd_of_int [of "int n"] by (simp add: f64_of_i64_def sint_of_nat_exact)

lemma i64_of_f64_range:
  assumes "0 \<le> a" "a \<le> of_int m" "m < 2 ^ 63"
  shows "sint (i64_of_f64 oor (FFin a)) = \<lfloor>a\<rfloor>"
proof -
  have "0 \<le> \<lfloor>a\<rfloor>" "\<lfloor>a\<rfloor> \<le> m" using assms by (auto simp: floor_le_iff)
  then show ?thesis using assms by (simp add: i64_of_f64_def trunc_rat_def sint_of_int_exact)
qed

text \<open>The index of a percentile between 0 and 100 is in range, for samples of up to \<open>2 ^ 46\<close> latencies.\<close>

lemma pct_of_at:
  assumes "xs \<noteq> []" "length xs \<le> 2 ^ 46" "0 \<le> p" "p \<le> 100"
  shows "\<exists>i < length xs. pct_of oor xs (FFin p) = Return (xs ! i) \<and> (p = 0 \<longrightarrow> i = 0) \<and> (p = 100 \<longrightarrow> i = length xs - 1)"
proof -
  define m where "m = int (length xs - 1)"
  have m: "0 \<le> m" "m * 100 \<le> 2 ^ 53" "m < int (length xs)" using assms(1,2) by (auto simp: m_def)
  have n: "f64_of_i64 (of_nat (length xs - 1)) = FFin (of_int m)"
    using assms(2) f64_of_i64_nat [of "length xs - 1"] by (simp add: m_def)
  have "0 \<le> of_int m * p" "of_int m * p \<le> of_int (m * 100)" using m assms(3,4) by (auto intro: mult_left_mono)
  then obtain a where a: "rnd (of_int m * p) = FFin a" "0 \<le> a" "a \<le> of_int (m * 100)" using rnd_le_int m(2) by blast
  have "0 \<le> a / 100" "a / 100 \<le> of_int m" using a(2,3) by (simp_all add: field_simps)
  moreover have m53: "m \<le> 2 ^ 53" using m by linarith
  ultimately obtain b where b: "rnd (a / 100) = FFin b" "0 \<le> b" "b \<le> of_int m" using rnd_le_int by blast
  have x: "fdiv (fmul (f64_of_i64 (of_nat (length xs - 1))) (FFin p)) (FFin 100) = FFin b" using n a(1) b(1) by simp
  have i: "sint (i64_of_f64 oor (FFin b)) = \<lfloor>b\<rfloor>" by (rule i64_of_f64_range [OF b(2,3)]) (use m53 in simp)
  have fl: "0 \<le> \<lfloor>b\<rfloor>" "\<lfloor>b\<rfloor> \<le> m" using b(2,3) by (auto simp: floor_le_iff)
  have "pct_of oor xs (FFin p) = Return (xs ! nat \<lfloor>b\<rfloor>)"
    unfolding pct_of_def Let_def x i using assms(1) fl m(3) by simp
  moreover have "b = 0" if "p = 0"
    using that a b by (simp add: rnd_def)
  moreover have "b = of_int m" if "p = 100"
  proof -
    have "a = of_int (m * 100)" using that a(1) rnd_of_int [of "m * 100"] m by simp
    then have "a / 100 = of_int m" by simp
    then show ?thesis using b(1) rnd_of_int [of m] m by simp
  qed
  ultimately show ?thesis using fl m by (intro exI [of _ "nat \<lfloor>b\<rfloor>"]) (auto simp: m_def nat_less_iff)
qed

lemma bump_length [simp]: "length (bump v bs) = length bs" "map hb_upper (bump v bs) = map hb_upper bs"
  by (induction bs) auto

lemma bump_nth:
  "i < length bs \<Longrightarrow> hb_count (bump v bs ! i) =
    hb_count (bs ! i) + (if fless v (hb_upper (bs ! i)) \<and> (\<forall>j < i. \<not> fless v (hb_upper (bs ! j))) then 1 else 0)"
proof (induction bs arbitrary: i)
  case (Cons b bs)
  then show ?case by (cases i) (auto simp: All_less_Suc2)
qed simp

lemma fold_bump:
  "length (fold bump vs bs) = length bs \<and> map hb_upper (fold bump vs bs) = map hb_upper bs \<and>
   (\<forall>i < length bs. hb_count (fold bump vs bs ! i) = hb_count (bs ! i) +
      length (filter (\<lambda>v. fless v (hb_upper (bs ! i)) \<and> (\<forall>j < i. \<not> fless v (hb_upper (bs ! j)))) vs))"
proof (induction vs arbitrary: bs)
  case (Cons v vs)
  have u: "hb_upper (bump v bs ! j) = hb_upper (bs ! j)" if "j < length bs" for j
    using that bump_length(2) [of v bs] by (metis bump_length(1) nth_map)
  show ?case using Cons.IH [of "bump v bs"] by (auto simp: u bump_nth)
qed simp

subsection \<open>The baseline\<close>

text \<open>A Redis in which an expiry that is set does not remove the key at once.\<close>

locale counter_store = redis_store R for R :: "'s redis_cmds" +
  assumes get_pexpire_live: "0 < t \<Longrightarrow> GET R k (PEXPIRE R k t s) = GET R k s"
begin

lemma baseline_step:
  assumes "0 < ttl" "l < 2 ^ 62" "0 \<le> avail R key s" "avail R key s \<le> l"
  shows "fst (baselineLua R key l ttl s) = (if avail R key s < l then 1 else 0)"
    "avail R k (snd (baselineLua R key l ttl s)) = (if k = key \<and> avail R key s < l then avail R key s + 1 else avail R k s)"
proof -
  let ?c = "avail R key s" and ?s1 = "INCRBY R key 1 s"
  have g: "GET R k ?s1 = (if k = key then Some (?c + 1) else GET R k s)" for k
    using get_incrby [of key s 1 k] assms(2-4) by simp
  let ?s2 = "if ?c + 1 = 1 then PEXPIRE R key (ttl * 1000) ?s1 else ?s1"
  have e: "GET R k ?s2 = GET R k ?s1" for k
    using get_pexpire_live [of "ttl * 1000" key ?s1] get_pexpire [of k key "ttl * 1000" ?s1] assms(1) by (cases "k = key") auto
  have b: "baselineLua R key l ttl s = (if l \<le> ?c then (0, s) else if l < ?c + 1 then (0, DECRBY R key 1 ?s2) else (1, ?s2))"
    by (simp add: baselineLua_def Let_def g)
  show "fst (baselineLua R key l ttl s) = (if ?c < l then 1 else 0)" by (simp add: b)
  show "avail R k (snd (baselineLua R key l ttl s)) = (if k = key \<and> ?c < l then ?c + 1 else avail R k s)"
  proof (cases "?c < l")
    case True
    then have "snd (baselineLua R key l ttl s) = ?s2" by (simp add: b)
    then show ?thesis using e [of k] g [of k] True by simp
  qed (simp add: b)
qed

end

interpretation mem_counter: counter_store mem_cmds
  by unfold_locales (simp add: mem_cmds_def)

text \<open>Requests of any keys, one after the other; the replies go with their key.\<close>

fun baseline_run :: "'s redis_cmds \<Rightarrow> int \<Rightarrow> int \<Rightarrow> string list \<Rightarrow> 's \<Rightarrow> (string \<times> int) list \<times> 's" where
  "baseline_run R l ttl [] s = ([], s)"
| "baseline_run R l ttl (key # ks) s =
     (let (r, s1) = baselineLua R key l ttl s; (rs, s2) = baseline_run R l ttl ks s1 in ((key, r) # rs, s2))"

definition replies_of :: "string \<Rightarrow> (string \<times> int) list \<Rightarrow> int list" where
  "replies_of key rs = map snd (filter (\<lambda>x. fst x = key) rs)"

lemma replicate_more: "c < l \<Longrightarrow> 1 # replicate (min m (nat (l - (c + 1)))) 1 @ replicate (m - nat (l - (c + 1))) (0 :: int) =
    replicate (min (Suc m) (nat (l - c))) 1 @ replicate (Suc m - nat (l - c)) 0"
proof -
  assume "c < l"
  then have "nat (l - c) = Suc (nat (l - (c + 1)))" by simp
  then show ?thesis by simp
qed

text \<open>
  The limiter krate is measured against is exact within a window: whatever the order in which the
  requests of all keys reach Redis, those of a key are allowed until its counter has reached the limit and
  rejected from then on, until the key expires; the counter never exceeds the limit.
\<close>
theorem baseline_exact:
  assumes "counter_store R" "0 < ttl" "l < 2 ^ 62" "\<forall>k. 0 \<le> avail R k s \<and> avail R k s \<le> l"
    and "baseline_run R l ttl ks s = (rs, s')"
  shows "replies_of key rs = replicate (min (count_list ks key) (nat (l - avail R key s))) 1 @
      replicate (count_list ks key - nat (l - avail R key s)) 0 \<and>
    avail R key s' = min l (avail R key s + int (count_list ks key))"
  using assms(4,5)
proof (induction ks arbitrary: s rs)
  case Nil
  then show ?case by (simp add: replies_of_def)
next
  case (Cons k ks)
  let ?r = "fst (baselineLua R k l ttl s)" and ?s = "snd (baselineLua R k l ttl s)"
  obtain rs1 s1 where e: "baseline_run R l ttl ks ?s = (rs1, s1)" by (cases "baseline_run R l ttl ks ?s")
  then have run: "baseline_run R l ttl ks ?s = (rs1, s')" "rs = (k, ?r) # rs1"
    using Cons.prems(2) by (auto simp: Let_def split_beta)
  note step = counter_store.baseline_step [OF assms(1-3), of k s]
  have bound: "0 \<le> avail R k' s" "avail R k' s \<le> l" for k' using Cons.prems(1) by blast+
  have st: "?r = (if avail R k s < l then 1 else 0)"
    "avail R k' ?s = (if k' = k \<and> avail R k s < l then avail R k s + 1 else avail R k' s)" for k'
    using step bound by blast+
  have "\<forall>k'. 0 \<le> avail R k' ?s \<and> avail R k' ?s \<le> l" using bound st(2) by (auto simp: add_increasing)
  note IH = Cons.IH [OF this run(1)]
  show ?case
  proof (cases "k = key")
    case False
    then show ?thesis using IH run(2) st(2) [of key] by (simp add: replies_of_def)
  next
    case True
    show ?thesis
    proof (cases "avail R key s < l")
      case less: True
      have "avail R key ?s = avail R key s + 1" using st(2) [of key] True less by simp
      then show ?thesis
        using IH run(2) st(1) True less replicate_more [OF less, of "count_list ks key"] by (simp add: replies_of_def)
    next
      case False
      then have "avail R key s = l" using bound(2) [of key] by simp
      then show ?thesis using IH run(2) st True by (simp add: replies_of_def)
    qed
  qed
qed

theorem baseline_exact_witness:
  "replies_of ''a'' (fst (baseline_run mem_cmds 2 60 [''a'', ''b'', ''a'', ''a''] Map.empty)) = [1, 1, 0]"
proof -
  obtain rs s' where run: "baseline_run mem_cmds 2 60 [''a'', ''b'', ''a'', ''a''] Map.empty = (rs, s')"
    by (cases "baseline_run mem_cmds 2 60 [''a'', ''b'', ''a'', ''a''] Map.empty")
  have zero: "avail mem_cmds k Map.empty = 0" for k by (simp add: mem_cmds_def mem_get_def)
  then have "\<forall>k. 0 \<le> avail mem_cmds k Map.empty \<and> avail mem_cmds k Map.empty \<le> 2" by simp
  from baseline_exact [OF mem_counter.counter_store_axioms _ _ this run, of "''a''"]
  have "replies_of ''a'' rs = [1, 1, 0]" by (simp add: zero eval_nat_numeral)
  then show ?thesis by (simp only: run fst_conv)
qed

subsection \<open>A run of the benchmark\<close>

text \<open>The requests of all goroutines in the order they are answered: key, time, answer and latency.\<close>

type_synonym requests = "(string \<times> i64 \<times> bool \<times> f64) list"

definition drive_all :: "'g rand \<Rightarrow> (f64 \<Rightarrow> i64) \<Rightarrow> i64 \<Rightarrow> requests \<Rightarrow> 'g drive \<Rightarrow> 'g drive" where
  "drive_all R oor windowMs = fold (\<lambda>(key, nowMs, ok, ns). answered_request R oor windowMs key nowMs ok ns)"

definition history_of :: "i64 \<Rightarrow> requests \<Rightarrow> history" where
  "history_of windowMs = map (\<lambda>(key, nowMs, ok, ns). (key, i64_div nowMs windowMs, ok))"

definition allowed_in :: "bool \<Rightarrow> requests \<Rightarrow> nat" where
  "allowed_in b rs = length (filter (\<lambda>(key, nowMs, ok, ns). ok = b) rs)"

lemma drive_state:
  "dr_total (drive_all R oor windowMs rs (new_drive g)) = of_nat (length rs) \<and>
   dr_allowed (drive_all R oor windowMs rs (new_drive g)) = of_nat (allowed_in True rs) \<and>
   dr_rejected (drive_all R oor windowMs rs (new_drive g)) = of_nat (allowed_in False rs) \<and>
   dr_tracker (drive_all R oor windowMs rs (new_drive g)) = record_all (history_of windowMs rs) \<and>
   dr_lat (drive_all R oor windowMs rs (new_drive g)) = lat_all R oor (map (\<lambda>(key, nowMs, ok, ns). ns) rs) (newLatency 500000, g)"
proof (induction rs rule: rev_induct)
  case Nil
  then show ?case by (simp add: drive_all_def new_drive_def history_of_def allowed_in_def record_all_def)
next
  case (snoc r rs)
  obtain key nowMs ok ns where r: "r = (key, nowMs, ok, ns)" by (rule prod_cases4)
  have a: "drive_all R oor windowMs (rs @ [r]) (new_drive g) =
      answered_request R oor windowMs key nowMs ok ns (drive_all R oor windowMs rs (new_drive g))"
    by (simp add: drive_all_def r)
  show ?case
    unfolding a using snoc
    by (simp add: answered_request_def Let_def r history_of_def allowed_in_def record_all_def)
qed


text \<open>Random numbers that are always 0.\<close>

definition zeros :: "unit rand" where
  "zeros = \<lparr>Int64N = \<lambda>c g. (0, g), IntN = \<lambda>n g. (0, g)\<rparr>"


end
