(* ===== verification/Collector.thy ===== *)
theory Collector
  imports Go_Float
begin

text \<open>
  The metrics (\<^verbatim>\<open>internal/metrics\<close>). Prometheus is not in the repository: what a method of the collector
  asks of it is a list of samples, each a metric, the values of its labels and an operation. A nil
  collector asks for nothing.
\<close>

datatype kind = Counter | Gauge | Histogram "f64 list"

record metric =
  m_kind :: kind
  m_name :: string
  m_help :: string
  m_labels :: "string list"

datatype metric_op = Inc | Add f64 | Set f64 | Observe f64

type_synonym sample = "metric \<times> string list \<times> metric_op"

record Collector =
  RequestsTotal :: metric
  LocalHitsTotal :: metric
  RedisBorrowsTotal :: metric
  RedisSkipsTotal :: metric
  PreBorrowsTotal :: metric
  PeerProbesTotal :: metric
  PeerProbeStaleTotal :: metric
  TokensTransferred :: metric
  TokensReturned :: metric
  WindowResetsTotal :: metric
  GossipsSentTotal :: metric
  GossipsReceivedTotal :: metric
  RequestDuration :: metric
  BorrowSize :: metric
  LocalTokensRemaining :: metric
  LocalTokens :: metric
  BorrowedTokens :: metric
  KnownPeers :: metric
  CMSStaleness :: metric

definition registered :: "Collector \<Rightarrow> metric list" where
  \<comment> \<open>what \<^verbatim>\<open>NewCollector\<close> registers\<close>
  "registered c = [RequestsTotal c, LocalHitsTotal c, RedisBorrowsTotal c, RedisSkipsTotal c, PreBorrowsTotal c, PeerProbesTotal c,
     PeerProbeStaleTotal c, TokensTransferred c, TokensReturned c, WindowResetsTotal c, GossipsSentTotal c, GossipsReceivedTotal c,
     RequestDuration c, BorrowSize c, LocalTokensRemaining c, LocalTokens c, BorrowedTokens c, KnownPeers c,
     CMSStaleness c]"

text \<open>
  \<^verbatim>\<open>NewCollector\<close>: the collector, the registry it uses and what it registers there. The bounds
  \<^verbatim>\<open>ExponentialBuckets\<close> computes are a parameter.
\<close>

definition the_collector :: "(f64 \<Rightarrow> f64 \<Rightarrow> nat \<Rightarrow> f64 list) \<Rightarrow> Collector" where
  "the_collector ebuckets = \<lparr>
     RequestsTotal = \<lparr>m_kind = Counter, m_name = ''krate_requests_total'',
       m_help = ''Total number of rate limit requests.'', m_labels = [''key'', ''result'']\<rparr>,
     LocalHitsTotal = \<lparr>m_kind = Counter, m_name = ''krate_local_hits_total'',
       m_help = ''Total number of requests served from local token bucket.'', m_labels = [''key'']\<rparr>,
     RedisBorrowsTotal = \<lparr>m_kind = Counter, m_name = ''krate_redis_borrows_total'',
       m_help = ''Total number of Redis borrow attempts.'', m_labels = [''key'', ''result'']\<rparr>,
     RedisSkipsTotal = \<lparr>m_kind = Counter, m_name = ''krate_redis_skips_total'',
       m_help = ''Total requests that bypassed Redis because the pool was known-exhausted.'', m_labels = [''key'']\<rparr>,
     PreBorrowsTotal = \<lparr>m_kind = Counter, m_name = ''krate_pre_borrows_total'',
       m_help = ''Total async pre-borrow goroutines triggered.'', m_labels = [''key'']\<rparr>,
     PeerProbesTotal = \<lparr>m_kind = Counter, m_name = ''krate_peer_probes_total'',
       m_help = ''Total number of peer probe attempts.'', m_labels = [''key'', ''result'']\<rparr>,
     PeerProbeStaleTotal = \<lparr>m_kind = Counter, m_name = ''krate_peer_probe_stale_total'',
       m_help = ''Total number of stale peer detections.'', m_labels = [''key'', ''peer_id'']\<rparr>,
     TokensTransferred = \<lparr>m_kind = Counter, m_name = ''krate_tokens_transferred_total'',
       m_help = ''Total tokens transferred between peers.'', m_labels = [''direction'']\<rparr>,
     TokensReturned = \<lparr>m_kind = Counter, m_name = ''krate_tokens_returned_total'',
       m_help = ''Total tokens returned to Redis.'', m_labels = []\<rparr>,
     WindowResetsTotal = \<lparr>m_kind = Counter, m_name = ''krate_window_resets_total'',
       m_help = ''Total number of rate limit window resets.'', m_labels = [''key'']\<rparr>,
     GossipsSentTotal = \<lparr>m_kind = Counter, m_name = ''krate_gossips_sent_total'',
       m_help = ''Total gossip broadcasts sent.'', m_labels = []\<rparr>,
     GossipsReceivedTotal = \<lparr>m_kind = Counter, m_name = ''krate_gossips_received_total'',
       m_help = ''Total gossip messages received.'', m_labels = []\<rparr>,
     RequestDuration = \<lparr>m_kind = Histogram (ebuckets (rnd (1 / 1000000)) (FFin 4) 12), m_name = ''krate_request_duration_seconds'',
       m_help = ''Request duration in seconds by phase.'', m_labels = [''phase'']\<rparr>,
     BorrowSize = \<lparr>m_kind = Histogram [FFin 10, FFin 50, FFin 100, FFin 250, FFin 500, FFin 1000, FFin 2500, FFin 5000], m_name = ''krate_borrow_size'',
       m_help = ''Distribution of borrow sizes from Redis.'', m_labels = []\<rparr>,
     LocalTokensRemaining = \<lparr>m_kind = Histogram [FFin 0, FFin 10, FFin 50, FFin 100, FFin 500, FFin 1000, FFin 5000, FFin 10000], m_name = ''krate_local_tokens_remaining'',
       m_help = ''Distribution of local tokens remaining after requests.'', m_labels = []\<rparr>,
     LocalTokens = \<lparr>m_kind = Gauge, m_name = ''krate_local_tokens'',
       m_help = ''Current local token count per key.'', m_labels = [''key'']\<rparr>,
     BorrowedTokens = \<lparr>m_kind = Gauge, m_name = ''krate_borrowed_tokens'',
       m_help = ''Current borrowed token count per key.'', m_labels = [''key'']\<rparr>,
     KnownPeers = \<lparr>m_kind = Gauge, m_name = ''krate_known_peers'',
       m_help = ''Number of known cluster peers.'', m_labels = []\<rparr>,
     CMSStaleness = \<lparr>m_kind = Gauge, m_name = ''krate_cms_staleness_seconds'',
       m_help = ''Age of the most recent CMS snapshot from each peer.'', m_labels = [''peer_id'']\<rparr>\<rparr>"

definition NewCollector :: "(f64 \<Rightarrow> f64 \<Rightarrow> nat \<Rightarrow> f64 list) \<Rightarrow> 'g \<Rightarrow> 'g option \<Rightarrow> Collector \<times> 'g \<times> metric list" where
  "NewCollector ebuckets DefaultRegisterer reg =
     (let c = the_collector ebuckets
      in (c, case reg of None \<Rightarrow> DefaultRegisterer | Some g \<Rightarrow> g, registered c))"

definition NoopCollector :: "Collector option" where
  "NoopCollector = None"

subsection \<open>Recording\<close>

definition on_collector :: "(Collector \<Rightarrow> sample) \<Rightarrow> Collector option \<Rightarrow> sample list" where
  "on_collector f c = (case c of None \<Rightarrow> [] | Some c \<Rightarrow> [f c])"

definition RecordAllowed :: "string \<Rightarrow> Collector option \<Rightarrow> sample list" where
  "RecordAllowed key = on_collector (\<lambda>c. (RequestsTotal c, [key, ''allowed''], Inc))"

definition RecordRejected :: "string \<Rightarrow> Collector option \<Rightarrow> sample list" where
  "RecordRejected key = on_collector (\<lambda>c. (RequestsTotal c, [key, ''rejected''], Inc))"

definition RecordLocalHit :: "string \<Rightarrow> Collector option \<Rightarrow> sample list" where
  "RecordLocalHit key = on_collector (\<lambda>c. (LocalHitsTotal c, [key], Inc))"

definition RecordRedisBorrow :: "string \<Rightarrow> bool \<Rightarrow> Collector option \<Rightarrow> sample list" where
  "RecordRedisBorrow key granted = on_collector (\<lambda>c. (RedisBorrowsTotal c, [key, if granted then ''granted'' else ''exhausted''], Inc))"

definition RecordPeerProbe :: "string \<Rightarrow> string \<Rightarrow> Collector option \<Rightarrow> sample list" where
  "RecordPeerProbe key result = on_collector (\<lambda>c. (PeerProbesTotal c, [key, result], Inc))"

definition RecordPeerStale :: "string \<Rightarrow> string \<Rightarrow> Collector option \<Rightarrow> sample list" where
  "RecordPeerStale key peerID = on_collector (\<lambda>c. (PeerProbeStaleTotal c, [key, peerID], Inc))"

definition RecordTokenSent :: "u64 \<Rightarrow> Collector option \<Rightarrow> sample list" where
  "RecordTokenSent n = on_collector (\<lambda>c. (TokensTransferred c, [''sent''], Add (f64_of_u64 n)))"

definition RecordTokenReceived :: "u64 \<Rightarrow> Collector option \<Rightarrow> sample list" where
  "RecordTokenReceived n = on_collector (\<lambda>c. (TokensTransferred c, [''received''], Add (f64_of_u64 n)))"

definition RecordTokensReturned :: "u64 \<Rightarrow> Collector option \<Rightarrow> sample list" where
  "RecordTokensReturned n = on_collector (\<lambda>c. (TokensReturned c, [], Add (f64_of_u64 n)))"

definition RecordWindowReset :: "string \<Rightarrow> Collector option \<Rightarrow> sample list" where
  "RecordWindowReset key = on_collector (\<lambda>c. (WindowResetsTotal c, [key], Inc))"

definition RecordGossipSent :: "Collector option \<Rightarrow> sample list" where
  "RecordGossipSent = on_collector (\<lambda>c. (GossipsSentTotal c, [], Inc))"

definition RecordGossipReceived :: "Collector option \<Rightarrow> sample list" where
  "RecordGossipReceived = on_collector (\<lambda>c. (GossipsReceivedTotal c, [], Inc))"

definition ObserveRequestDuration :: "string \<Rightarrow> duration \<Rightarrow> Collector option \<Rightarrow> sample list" where
  "ObserveRequestDuration phase d = on_collector (\<lambda>c. (RequestDuration c, [phase], Observe (Seconds d)))"

definition SetLocalTokens :: "string \<Rightarrow> u64 \<Rightarrow> Collector option \<Rightarrow> sample list" where
  "SetLocalTokens key n = on_collector (\<lambda>c. (LocalTokens c, [key], Set (f64_of_u64 n)))"

definition SetBorrowedTokens :: "string \<Rightarrow> u64 \<Rightarrow> Collector option \<Rightarrow> sample list" where
  "SetBorrowedTokens key n = on_collector (\<lambda>c. (BorrowedTokens c, [key], Set (f64_of_u64 n)))"

definition SetKnownPeers :: "i64 \<Rightarrow> Collector option \<Rightarrow> sample list" where
  "SetKnownPeers n = on_collector (\<lambda>c. (KnownPeers c, [], Set (f64_of_i64 n)))"

definition ObserveBorrowSize :: "u64 \<Rightarrow> Collector option \<Rightarrow> sample list" where
  "ObserveBorrowSize n = on_collector (\<lambda>c. (BorrowSize c, [], Observe (f64_of_u64 n)))"

definition ObserveLocalTokensRemaining :: "u64 \<Rightarrow> Collector option \<Rightarrow> sample list" where
  "ObserveLocalTokensRemaining n = on_collector (\<lambda>c. (LocalTokensRemaining c, [], Observe (f64_of_u64 n)))"

definition SetCMSStaleness :: "string \<Rightarrow> f64 \<Rightarrow> Collector option \<Rightarrow> sample list" where
  "SetCMSStaleness peerID age = on_collector (\<lambda>c. (CMSStaleness c, [peerID], Set age))"

definition RecordRedisSkip :: "string \<Rightarrow> Collector option \<Rightarrow> sample list" where
  "RecordRedisSkip key = on_collector (\<lambda>c. (RedisSkipsTotal c, [key], Inc))"

definition RecordPreBorrow :: "string \<Rightarrow> Collector option \<Rightarrow> sample list" where
  "RecordPreBorrow key = on_collector (\<lambda>c. (PreBorrowsTotal c, [key], Inc))"

lemmas record_defs = RecordAllowed_def RecordRejected_def RecordLocalHit_def RecordRedisBorrow_def RecordPeerProbe_def RecordPeerStale_def RecordTokenSent_def RecordTokenReceived_def RecordTokensReturned_def RecordWindowReset_def RecordGossipSent_def
  RecordGossipReceived_def ObserveRequestDuration_def SetLocalTokens_def SetBorrowedTokens_def SetKnownPeers_def ObserveBorrowSize_def ObserveLocalTokensRemaining_def SetCMSStaleness_def RecordRedisSkip_def RecordPreBorrow_def

subsection \<open>Samples fit their metric\<close>

text \<open>
  Prometheus panics when two metrics of one name are registered, when a sample has another number
  of label values than its metric has labels, and when a counter is given a negative amount.
\<close>

definition op_fits :: "kind \<Rightarrow> metric_op \<Rightarrow> bool" where
  "op_fits k a = (case a of
     Inc \<Rightarrow> k = Counter
   | Add x \<Rightarrow> k = Counter \<and> fleq (FFin 0) x
   | Set x \<Rightarrow> k = Gauge
   | Observe x \<Rightarrow> (case k of Histogram bs \<Rightarrow> True | _ \<Rightarrow> False))"

definition sample_fits :: "Collector \<Rightarrow> sample \<Rightarrow> bool" where
  "sample_fits c = (\<lambda>(m, ls, a). m \<in> set (registered c) \<and> length ls = length (m_labels m) \<and> op_fits (m_kind m) a)"

definition fits :: "Collector \<Rightarrow> sample list \<Rightarrow> bool" where
  "fits c ss \<longleftrightarrow> (\<forall>x \<in> set ss. sample_fits c x)"

lemma fits_simps [simp]: "fits c []" "fits c (ss @ ts) \<longleftrightarrow> fits c ss \<and> fits c ts"
  by (auto simp: fits_def)

lemma rnd_nonneg: "0 \<le> x \<Longrightarrow> fleq (FFin 0) (rnd x)"
proof -
  assume x: "0 \<le> x"
  have "0 \<le> of_int (round_half_even (x / u)) * u" if "0 < u" for u :: rat
    using that x round_half_even_nonneg [of "x / u"] by (intro mult_nonneg_nonneg) simp_all
  then show ?thesis using x by (simp add: rnd_def Let_def)
qed

lemma f64_of_u64_nonneg: "fleq (FFin 0) (f64_of_u64 n)"
  unfolding f64_of_u64_def by (rule rnd_nonneg [OF of_int_nonneg [OF uint_ge_0]])

lemma fits_records:
  fixes eb
  defines "c \<equiv> the_collector eb"
  shows "fits c (RecordAllowed key (Some c))" "fits c (RecordRejected key (Some c))" "fits c (RecordLocalHit key (Some c))"
    "fits c (RecordRedisBorrow key granted (Some c))" "fits c (RecordPeerProbe key result (Some c))"
    "fits c (RecordPeerStale key peerID (Some c))" "fits c (RecordTokenSent n (Some c))"
    "fits c (RecordTokenReceived n (Some c))" "fits c (RecordTokensReturned n (Some c))" "fits c (RecordWindowReset key (Some c))"
    "fits c (RecordGossipSent (Some c))" "fits c (RecordGossipReceived (Some c))" "fits c (ObserveRequestDuration phase d (Some c))"
    "fits c (SetLocalTokens key n (Some c))" "fits c (SetBorrowedTokens key n (Some c))" "fits c (SetKnownPeers m (Some c))"
    "fits c (ObserveBorrowSize n (Some c))" "fits c (ObserveLocalTokensRemaining n (Some c))"
    "fits c (SetCMSStaleness peerID age (Some c))" "fits c (RecordRedisSkip key (Some c))" "fits c (RecordPreBorrow key (Some c))"
  unfolding record_defs on_collector_def option.case fits_def sample_fits_def registered_def
  by (simp_all add: op_fits_def f64_of_u64_nonneg) (simp_all add: c_def the_collector_def)

lemma metric_names: "distinct (map m_name (registered (the_collector eb)))"
  by (simp add: registered_def the_collector_def)

lemma nil_collector:
  "RecordAllowed key None = []" "RecordRejected key None = []" "RecordLocalHit key None = []"
  "RecordRedisBorrow key granted None = []" "RecordPeerProbe key result None = []" "RecordPeerStale key peerID None = []"
  "RecordTokenSent n None = []" "RecordTokenReceived n None = []" "RecordTokensReturned n None = []" "RecordWindowReset key None = []"
  "RecordGossipSent None = []" "RecordGossipReceived None = []" "ObserveRequestDuration phase d None = []"
  "SetLocalTokens key n None = []" "SetBorrowedTokens key n None = []" "SetKnownPeers m None = []" "ObserveBorrowSize n None = []"
  "ObserveLocalTokensRemaining n None = []" "SetCMSStaleness peerID age None = []" "RecordRedisSkip key None = []"
  "RecordPreBorrow key None = []"
  by (simp_all add: record_defs on_collector_def)

text \<open>
  Prometheus never panics on the collector: the names it registers are distinct, and every sample
  any of its methods records has as many label values as its metric has labels and an operation
  its metric has, with amounts that are not negative. A nil collector records nothing.
\<close>
theorem samples_fit:
  "let (c, reg, ms) = NewCollector eb D opt; records = (\<lambda>c.
      [RecordAllowed key c, RecordRejected key c, RecordLocalHit key c, RecordRedisBorrow key granted c,
       RecordPeerProbe key result c, RecordPeerStale key peerID c, RecordTokenSent n c, RecordTokenReceived n c,
       RecordTokensReturned n c, RecordWindowReset key c, RecordGossipSent c, RecordGossipReceived c,
       ObserveRequestDuration phase d c, SetLocalTokens key n c, SetBorrowedTokens key n c, SetKnownPeers m c,
       ObserveBorrowSize n c, ObserveLocalTokensRemaining n c, SetCMSStaleness peerID age c, RecordRedisSkip key c,
       RecordPreBorrow key c])
   in ms = registered c \<and> distinct (map m_name ms) \<and> reg = (case opt of None \<Rightarrow> D | Some g \<Rightarrow> g) \<and>
      fits c (concat (records (Some c))) \<and> concat (records None) = []"
  by (simp add: NewCollector_def Let_def metric_names fits_records nil_collector)

end
