(* ===== verification/Limiter_Metrics.thy ===== *)
theory Limiter_Metrics
  imports Collector Limiter_Wf
begin

text \<open>
  The limiter with its metrics: the functions of \<open>Limiter\<close> again, each with the samples it records, in
  their order. A clock that is read only to time a metric is looked at and not moved. That the
  metrics do not change what a call does is a theorem.
\<close>

definition elapsed :: "('w, 'r, 'c) env \<Rightarrow> gtime \<Rightarrow> 'w \<Rightarrow> duration" where
  "elapsed E start w = time_sub (fst (e_clock E w)) start"

text \<open>\<^verbatim>\<open>newLimiter\<close> has a collector only when the option gives it a registry.\<close>

definition limiter_collector ::
    "(f64 \<Rightarrow> f64 \<Rightarrow> nat \<Rightarrow> f64 list) \<Rightarrow> 'g \<Rightarrow> 'g option \<Rightarrow> Collector option \<times> ('g \<times> metric list) option" where
  "limiter_collector ebuckets DefaultRegisterer opt =
     (case opt of
        None \<Rightarrow> (None, None)
      | Some g \<Rightarrow> let (c, r) = NewCollector ebuckets DefaultRegisterer (Some g) in (Some c, Some r))"

definition served_metrics :: "string \<Rightarrow> bucket \<Rightarrow> Collector option \<Rightarrow> sample list" where
  \<comment> \<open>recorded after a \<^verbatim>\<open>tryConsume\<close> that succeeded; the tokens are read before the consumption is counted\<close>
  "served_metrics key b c =
     RecordAllowed key c @ SetLocalTokens key (remaining b) c @ ObserveLocalTokensRemaining (remaining b) c"

definition probe_metrics :: "probe_report \<Rightarrow> Collector option \<Rightarrow> sample list" where
  "probe_metrics = (\<lambda>(key, peerID, result) c.
     RecordPeerProbe key result c @ (if result = ''stale'' then RecordPeerStale key peerID c else []))"

definition try_serve_m ::
    "Collector option \<Rightarrow> string \<Rightarrow> u64 \<Rightarrow> bucket \<Rightarrow> 'r limiter \<Rightarrow> (bool \<times> bucket \<times> 'r limiter) \<times> sample list" where
  "try_serve_m c key n b l =
     (let (ok, b1, l1) = try_serve key n b l in ((ok, b1, l1), if ok then served_metrics key b1 c else []))"

definition resetWindow_m ::
    "('w, 'r, 'c) env \<Rightarrow> Collector option \<Rightarrow> string \<Rightarrow> i64 \<Rightarrow> 'r limiter \<Rightarrow> 'w \<Rightarrow>
     (err option \<times> 'r limiter \<times> 'w) go \<times> sample list" where
  "resetWindow_m E c key nowMs l w =
     (let (b, l1, w1) = getOrCreateBucket E key l w;
          windowMs = Milliseconds (o_window (l_opts l))
      in if windowMs = 0 then (Panic ''integer divide by zero'', [])
         else
           let newWindowStart = i64_div nowMs windowMs * windowMs
           in if sint newWindowStart \<le> sint (WindowStartMs (b_window b)) then (Return (None, l1, w1), [])
              else
                let (e, w2) = pool_ResetWindow (e_redis E) key (o_limit (l_opts l)) newWindowStart w1
                in (case e of
                      Some msg \<Rightarrow> (Return (Some (''reset window: '' @ msg), l1, w2), [])
                    | None \<Rightarrow>
                        let b1 = resetConsumed (ClearRedisExhausted (snd (drain b)));
                            b2 = b1\<lparr>b_window := UpdateWindowStart newWindowStart (b_window b1)\<rparr>;
                            l2 = put_bucket key b2 l1
                        in (Return (None, l2\<lparr>l_borrowMgr := bm_Reset key (l_borrowMgr l2)\<rparr>, w2), RecordWindowReset key c)))"

definition maybePreBorrow_m :: "Collector option \<Rightarrow> string \<Rightarrow> bucket \<Rightarrow> 'r limiter \<Rightarrow> 'r limiter \<times> sample list" where
  "maybePreBorrow_m c key b l =
     (let (ok, b') = TryMarkPreBorrowing b
      in if ok then ((put_bucket key b' l)\<lparr>l_jobs := l_jobs l @ [key]\<rparr>, RecordPreBorrow key c) else (l, []))"

definition preBorrow_job_m ::
    "('w, 'r, 'c) env \<Rightarrow> Collector option \<Rightarrow> string \<Rightarrow> 'r limiter \<Rightarrow> 'w \<Rightarrow> ('r limiter \<times> 'w) \<times> sample list" where
  "preBorrow_job_m E c key l w =
     (case lookup_bucket l key of
        None \<Rightarrow> ((l, w), [])
      | Some b \<Rightarrow>
          let (r, m, b1, w') = Acquire (e_oor E) (e_redis E) (e_wall E) key 0 on_grant (l_borrowMgr l) b w
          in (((put_bucket key (ClearPreBorrowing b1) l)\<lparr>l_borrowMgr := m, l_jobs := remove1 key (l_jobs l)\<rparr>, w'),
              case r of Inl e \<Rightarrow> [] | Inr granted \<Rightarrow> if 0 < granted then RecordRedisBorrow key True c else []))"

text \<open>The probes report before the granted tokens are put in the bucket.\<close>

definition acquireFromPeers_m ::
    "('w, 'r, 'c) env \<Rightarrow> Collector option \<Rightarrow> string \<Rightarrow> u64 \<Rightarrow> bucket \<Rightarrow> 'r limiter \<Rightarrow> 'w \<Rightarrow>
     ((err + u64) \<times> bucket \<times> 'r limiter \<times> 'w) go \<times> sample list" where
  "acquireFromPeers_m E c key need b l w =
     (case l_acquirer l of
        None \<Rightarrow> (Panic ''nil pointer dereference'', [])
      | Some a \<Rightarrow>
          let (t, w1) = e_wall E w in
          (case acquirer_Acquire (e_stub E) (e_lookup E) (e_sched E w1) (e_oor E) (l_gossiper l) t a key need refill b w1 of
             Panic msg \<Rightarrow> (Panic msg, [])
           | Return (r, extras, reps, b', w2) \<Rightarrow>
               (Return (r, b', l\<lparr>l_extras := l_extras l @ map (Pair key) extras\<rparr>, w2),
                concat (map (\<lambda>x. probe_metrics x c) reps) @
                (case r of Inl e \<Rightarrow> [] | Inr g \<Rightarrow> if 0 < g then RecordTokenReceived g c else []))))"

definition deliver_extra_m ::
    "('w, 'r, 'c) env \<Rightarrow> Collector option \<Rightarrow> 'r limiter \<Rightarrow> 'w \<Rightarrow> ('r limiter \<times> 'w) \<times> sample list" where
  "deliver_extra_m E c l w =
     (case l_extras l of
        [] \<Rightarrow> ((l, w), [])
      | (key, n) # rest \<Rightarrow>
          let (b, l1, w1) = getOrCreateBucket E key l w
          in (((put_bucket key (refill n b) l1)\<lparr>l_extras := rest\<rparr>, w1), RecordTokenReceived n c))"

definition tell :: "sample list \<Rightarrow> 'a \<times> sample list \<Rightarrow> 'a \<times> sample list" where
  "tell ss = (\<lambda>(x, ts). (x, ss @ ts))"

lemma tell_simps [simp]: "fst (tell ss x) = fst x" "snd (tell ss x) = ss @ snd x"
  by (simp_all add: tell_def split_beta)

fun allow_loop_m :: "nat \<Rightarrow> ('w, 'r, 'c) env \<Rightarrow> Collector option \<Rightarrow> string \<Rightarrow> u64 \<Rightarrow> bool \<Rightarrow> bool \<Rightarrow> bucket \<Rightarrow> 'r limiter \<Rightarrow> 'w
    \<Rightarrow> ((err + bool) \<times> 'r limiter \<times> 'w) go option \<times> sample list" where
  "allow_loop_m 0 E c key n redisExhausted peerChecked b l w = (None, [])"
| "allow_loop_m (Suc fuel) E c key n redisExhausted peerChecked b l w =
     (case e_decide E of
        None \<Rightarrow> (Some (Panic ''nil pointer dereference''), [])
      | Some decide \<Rightarrow>
          let rc = \<lparr>rc_Key = key, rc_Need = n, rc_RedisExhausted = redisExhausted,
                    rc_HasPeers = (l_acquirer l \<noteq> None \<and> \<not> peerChecked)\<rparr>;
              (d, r, w1) = decide (l_gossiper l) rc (l_router l) w;
              l1 = l\<lparr>l_router := r\<rparr>;
              phaseStart = fst (e_clock E w1)
          in (case d of
                Inl e \<Rightarrow> (Some (Return (Inl e, l1, w1)), [])
              | Inr DecisionRedis \<Rightarrow>
                  (let (g, m, b1, w2) = Acquire (e_oor E) (e_redis E) (e_wall E) key n on_grant (l_borrowMgr l1) b w1;
                       l2 = (put_bucket key b1 l1)\<lparr>l_borrowMgr := m\<rparr>;
                       ss = ObserveRequestDuration ''redis'' (elapsed E phaseStart w2) c
                   in case g of
                        Inl e \<Rightarrow> (Some (Return (Inl e, l2, w2)), ss)
                      | Inr granted \<Rightarrow>
                          if 0 < granted
                          then let (v, m3, w3) = Borrowed (e_wall E) key m w2;
                                   ((ok, b4, l4), ts) = try_serve_m c key n b1 (l2\<lparr>l_borrowMgr := m3\<rparr>);
                                   us = ss @ RecordRedisBorrow key True c @ SetBorrowedTokens key v c @ ts
                               in if ok then (Some (Return (Inr True, l4, w3)), us)
                                  else tell us (allow_loop_m fuel E c key n redisExhausted peerChecked b4 l4 w3)
                          else let b3 = MarkRedisExhausted b1
                               in tell (ss @ RecordRedisBorrow key False c)
                                    (allow_loop_m fuel E c key n True peerChecked b3 (put_bucket key b3 l2) w2))
              | Inr DecisionPeer \<Rightarrow>
                  (case acquireFromPeers_m E c key n b l1 w1 of
                     (Panic msg, ss) \<Rightarrow> (Some (Panic msg), ss)
                   | (Return (p, b2, l2, w2), ss) \<Rightarrow>
                       let l3 = put_bucket key b2 l2;
                           ss1 = ss @ ObserveRequestDuration ''peer'' (elapsed E phaseStart w2) c in
                       (case p of
                          Inl e \<Rightarrow> tell ss1 (allow_loop_m fuel E c key n redisExhausted True b2 l3 w2)
                        | Inr peerTokens \<Rightarrow>
                            if 0 < peerTokens
                            then let ((ok, b4, l4), ts) = try_serve_m c key n b2 l3
                                 in if ok then (Some (Return (Inr True, l4, w2)), ss1 @ ts)
                                    else tell (ss1 @ ts) (allow_loop_m fuel E c key n redisExhausted True b4 l4 w2)
                            else tell ss1 (allow_loop_m fuel E c key n redisExhausted True b2 l3 w2)))
              | Inr DecisionDeny \<Rightarrow>
                  (Some (Return (Inr False, l1, w1)), RecordRejected key c @ ObserveLocalTokensRemaining (remaining b) c)))"

definition skip_metrics :: "string \<Rightarrow> bucket \<Rightarrow> Collector option \<Rightarrow> sample list" where
  "skip_metrics key b c = (if IsRedisExhausted b then RecordRedisSkip key c else [])"

definition allow_slow_m :: "nat \<Rightarrow> ('w, 'r, 'c) env \<Rightarrow> Collector option \<Rightarrow> string \<Rightarrow> u64 \<Rightarrow> bucket \<Rightarrow> 'r limiter \<Rightarrow> 'w
    \<Rightarrow> ((err + bool) \<times> 'r limiter \<times> 'w) go option \<times> sample list" where
  "allow_slow_m fuel E c key n b l w =
     (let (t, w1) = e_clock E w; nowMs = UnixMilli t
      in if needsReset nowMs b
         then (case resetWindow_m E c key nowMs l w1 of
             (Panic msg, ss) \<Rightarrow> (Some (Panic msg), ss)
           | (Return (e, l2, w2), ss) \<Rightarrow>
               let ((ok, b3, l3), ts) = try_serve_m c key n (current key b l2) l2
               in if ok then (Some (Return (Inr True, l3, w2)), ss @ ts)
                  else tell (ss @ ts @ skip_metrics key b3 c) (allow_loop_m fuel E c key n (IsRedisExhausted b3) False b3 l3 w2))
         else tell (skip_metrics key b c) (allow_loop_m fuel E c key n (IsRedisExhausted b) False b l w1))"

definition AllowN_m :: "nat \<Rightarrow> ('w, 'r, 'c) env \<Rightarrow> Collector option \<Rightarrow> string \<Rightarrow> u64 \<Rightarrow> 'r limiter \<Rightarrow> 'w
    \<Rightarrow> ((err + bool) \<times> 'r limiter \<times> 'w) go option \<times> sample list" where
  "AllowN_m fuel E c key n l w =
     (if l_closed l then (Some (Return (Inl ErrClosed, l, w)), [])
      else
        let (start, w1) = e_clock E w;
            (b, l1, w2) = getOrCreateBucket E key l w1;
            b1 = updateAccess (UnixMilli start) b;
            (ok, b2, l2) = try_serve key n b1 (put_bucket key b1 l1)
        in if ok
           then let (l3, ss) = (if o_preBorrowEnabled (l_opts l2) \<and>
                  belowPreBorrowThreshold (e_oor E) (o_minBorrow (l_opts l2)) (o_preBorrowThreshold (l_opts l2)) b2
                  then maybePreBorrow_m c key b2 l2 else (l2, []))
                in (Some (Return (Inr True, l3, w2)),
                    RecordLocalHit key c @ served_metrics key b2 c @ ObserveRequestDuration ''local'' (elapsed E start w2) c @ ss)
           else allow_slow_m fuel E c key n b2 l2 w2)"


subsection \<open>The metrics change nothing\<close>

lemma resetWindow_m_fst [simp]: "fst (resetWindow_m E c key nowMs l w) = resetWindow E key nowMs l w"
  by (simp add: resetWindow_m_def resetWindow_def Let_def split_beta split: option.split)

lemma acquireFromPeers_m_fst [simp]: "fst (acquireFromPeers_m E c key n b l w) = acquireFromPeers E key n b l w"
  by (simp add: acquireFromPeers_m_def acquireFromPeers_def Let_def split_beta split: option.split go.split)

lemma try_serve_m_fst [simp]: "fst (try_serve_m c key n b l) = try_serve key n b l"
  by (simp add: try_serve_m_def split_beta)

lemma maybePreBorrow_m_fst [simp]: "fst (maybePreBorrow_m c key b l) = maybePreBorrow key b l"
  by (simp add: maybePreBorrow_m_def maybePreBorrow_def split_beta)

lemma preBorrow_job_m_fst [simp]: "fst (preBorrow_job_m E c key l w) = preBorrow_job E key l w"
  by (simp add: preBorrow_job_m_def preBorrow_job_def split_beta Let_def split: option.split)

lemma deliver_extra_m_fst [simp]: "fst (deliver_extra_m E c l w) = deliver_extra E l w"
  by (simp add: deliver_extra_m_def deliver_extra_def split_beta Let_def split: list.split)

lemma go_pair: "(case x of (Panic msg, ss) \<Rightarrow> f msg ss | (Return y, ss) \<Rightarrow> g y ss) =
    (case fst x of Panic msg \<Rightarrow> f msg (snd x) | Return y \<Rightarrow> g y (snd x))"
  by (cases x) (simp split: go.split)

lemma allow_loop_m_fst: "fst (allow_loop_m fuel E c key n re pchk b l w) = allow_loop fuel E key n re pchk b l w"
proof (induction fuel arbitrary: re pchk b l w)
  case (Suc fuel)
  show ?case
    by (simp add: go_pair Let_def split_beta Suc.IH split: option.split sum.split Decision.split go.split)
qed simp

lemma allow_slow_m_fst: "fst (allow_slow_m fuel E c key n b l w) = allow_slow fuel E key n b l w"
  by (simp add: allow_slow_m_def allow_slow_def go_pair Let_def split_beta allow_loop_m_fst split: go.split)

lemma AllowN_m_fst: "fst (AllowN_m fuel E c key n l w) = AllowN fuel E key n l w"
  by (simp add: AllowN_m_def AllowN_def Let_def split_beta allow_slow_m_fst)

subsection \<open>What is counted\<close>

definition requests :: "Collector \<Rightarrow> string \<Rightarrow> string \<Rightarrow> sample list \<Rightarrow> nat" where
  "requests c key res ss = count_list ss (RequestsTotal c, [key, res], Inc)"

text \<open>The value a gauge has after some samples.\<close>

definition gauge_set :: "metric \<Rightarrow> string list \<Rightarrow> sample \<Rightarrow> f64 option \<Rightarrow> f64 option" where
  "gauge_set m ls = (\<lambda>(m', ls', a) v. case a of Set x \<Rightarrow> if m' = m \<and> ls' = ls then Some x else v | _ \<Rightarrow> v)"

definition gauge :: "metric \<Rightarrow> string list \<Rightarrow> sample list \<Rightarrow> f64 option \<Rightarrow> f64 option" where
  "gauge m ls ss v = fold (gauge_set m ls) ss v"

lemma count_append [simp]: "requests c key res (ss @ ts) = requests c key res ss + requests c key res ts" "requests c key res [] = 0"
  by (simp_all add: requests_def)

lemma gauge_append [simp]: "gauge m ls (ss @ ts) v = gauge m ls ts (gauge m ls ss v)" "gauge m ls [] v = v"
  by (simp_all add: gauge_def)

lemma metrics_differ:
  fixes eb
  defines "c \<equiv> the_collector eb"
  shows "LocalHitsTotal c \<noteq> RequestsTotal c" "RedisBorrowsTotal c \<noteq> RequestsTotal c" "RedisSkipsTotal c \<noteq> RequestsTotal c"
    "PreBorrowsTotal c \<noteq> RequestsTotal c" "PeerProbesTotal c \<noteq> RequestsTotal c" "PeerProbeStaleTotal c \<noteq> RequestsTotal c"
    "TokensTransferred c \<noteq> RequestsTotal c" "WindowResetsTotal c \<noteq> RequestsTotal c" "RequestDuration c \<noteq> RequestsTotal c"
    "LocalTokensRemaining c \<noteq> RequestsTotal c" "LocalTokens c \<noteq> RequestsTotal c" "BorrowedTokens c \<noteq> RequestsTotal c"
    "BorrowedTokens c \<noteq> LocalTokens c"
  by (simp_all add: c_def the_collector_def)

lemma count_records [simp]:
  fixes eb
  defines "c \<equiv> the_collector eb"
  shows "requests c k res (RecordAllowed key (Some c)) = (if k = key \<and> res = ''allowed'' then 1 else 0)"
    "requests c k res (RecordRejected key (Some c)) = (if k = key \<and> res = ''rejected'' then 1 else 0)"
    "requests c k res (RecordLocalHit key (Some c)) = 0" "requests c k res (RecordRedisBorrow key granted (Some c)) = 0"
    "requests c k res (RecordPeerProbe key result (Some c)) = 0" "requests c k res (RecordPeerStale key peerID (Some c)) = 0"
    "requests c k res (RecordTokenReceived n (Some c)) = 0" "requests c k res (RecordWindowReset key (Some c)) = 0"
    "requests c k res (ObserveRequestDuration phase d (Some c)) = 0" "requests c k res (SetLocalTokens key n (Some c)) = 0"
    "requests c k res (SetBorrowedTokens key n (Some c)) = 0" "requests c k res (ObserveLocalTokensRemaining n (Some c)) = 0"
    "requests c k res (RecordRedisSkip key (Some c)) = 0" "requests c k res (RecordPreBorrow key (Some c)) = 0"
  using metrics_differ [of eb] by (auto simp: requests_def record_defs on_collector_def c_def [symmetric])

lemma gauge_records [simp]:
  fixes eb
  defines "c \<equiv> the_collector eb"
  shows "gauge (LocalTokens c) [k] (RecordAllowed key (Some c)) v = v" "gauge (LocalTokens c) [k] (RecordRejected key (Some c)) v = v"
    "gauge (LocalTokens c) [k] (RecordLocalHit key (Some c)) v = v" "gauge (LocalTokens c) [k] (RecordRedisBorrow key granted (Some c)) v = v"
    "gauge (LocalTokens c) [k] (RecordPeerProbe key result (Some c)) v = v" "gauge (LocalTokens c) [k] (RecordPeerStale key peerID (Some c)) v = v"
    "gauge (LocalTokens c) [k] (RecordTokenReceived n (Some c)) v = v" "gauge (LocalTokens c) [k] (RecordWindowReset key (Some c)) v = v"
    "gauge (LocalTokens c) [k] (ObserveRequestDuration phase d (Some c)) v = v"
    "gauge (LocalTokens c) [k] (SetLocalTokens key n (Some c)) v = (if k = key then Some (f64_of_u64 n) else v)"
    "gauge (LocalTokens c) [k] (SetBorrowedTokens key n (Some c)) v = v"
    "gauge (LocalTokens c) [k] (ObserveLocalTokensRemaining n (Some c)) v = v"
    "gauge (LocalTokens c) [k] (RecordRedisSkip key (Some c)) v = v" "gauge (LocalTokens c) [k] (RecordPreBorrow key (Some c)) v = v"
  using metrics_differ(13) [of eb] by (simp_all add: gauge_def gauge_set_def record_defs on_collector_def c_def [symmetric])

text \<open>Samples that count no request and leave the gauge of the local tokens.\<close>

definition silent :: "Collector \<Rightarrow> sample list \<Rightarrow> bool" where
  "silent c ss \<longleftrightarrow> fits c ss \<and> (\<forall>k res. requests c k res ss = 0) \<and> (\<forall>k v. gauge (LocalTokens c) [k] ss v = v)"

lemma silent_append [simp]: "silent c []" "silent c ss \<Longrightarrow> silent c ts \<Longrightarrow> silent c (ss @ ts)"
  by (simp_all add: silent_def)

lemma silent_records [simp]:
  fixes eb
  defines "c \<equiv> the_collector eb"
  shows "silent c (RecordLocalHit key (Some c))" "silent c (RecordRedisBorrow key granted (Some c))"
    "silent c (RecordTokenReceived n (Some c))" "silent c (RecordWindowReset key (Some c))"
    "silent c (ObserveRequestDuration phase d (Some c))" "silent c (SetBorrowedTokens key n (Some c))"
    "silent c (ObserveLocalTokensRemaining n (Some c))" "silent c (RecordRedisSkip key (Some c))"
    "silent c (RecordPreBorrow key (Some c))" "silent c (probe_metrics x (Some c))" "silent c (skip_metrics key b (Some c))"
  by (simp_all add: silent_def c_def fits_records probe_metrics_def skip_metrics_def split: prod.split)

lemma silent_concat: "(\<And>x. x \<in> set xs \<Longrightarrow> silent c (f x)) \<Longrightarrow> silent c (concat (map f xs))"
  by (induction xs) auto

text \<open>What a call that is answered has counted, and what the gauge of the key shows then.\<close>

definition answered :: "Collector \<Rightarrow> string \<Rightarrow> f64 option \<Rightarrow> err + bool \<Rightarrow> 'r limiter \<Rightarrow> sample list \<Rightarrow> bool" where
  "answered c key v r l' ss \<longleftrightarrow> fits c ss \<and>
     (\<forall>k. requests c k ''allowed'' ss = (if k = key \<and> r = Inr True then 1 else 0)) \<and>
     (\<forall>k. requests c k ''rejected'' ss = (if k = key \<and> r = Inr False then 1 else 0)) \<and>
     (\<forall>k. gauge (LocalTokens c) [k] ss v = (if k = key \<and> r = Inr True
        then map_option (\<lambda>b. f64_of_u64 (remaining b)) (lookup_bucket l' key) else v))"

definition counts ::
    "Collector \<Rightarrow> string \<Rightarrow> f64 option \<Rightarrow> ((err + bool) \<times> 'r limiter \<times> 'w) go option \<times> sample list \<Rightarrow> bool" where
  "counts c key v x \<longleftrightarrow> (case fst x of
     Some (Return y) \<Rightarrow> answered c key v (fst y) (fst (snd y)) (snd x)
   | _ \<Rightarrow> fits c (snd x))"

lemma answered_more: "silent c ss \<Longrightarrow> answered c key v r l' ts \<Longrightarrow> answered c key v r l' (ss @ ts)"
  by (simp add: answered_def silent_def)

lemma answered_then: "answered c key v r l' ts \<Longrightarrow> silent c ss \<Longrightarrow> answered c key v r l' (ts @ ss)"
  by (simp add: answered_def silent_def)

lemma counts_tell: "silent c ss \<Longrightarrow> counts c key v x \<Longrightarrow> counts c key v (tell ss x)"
  by (auto simp: counts_def answered_more silent_def split: option.splits go.splits)

lemma answered_error: "silent c ss \<Longrightarrow> answered c key v (Inl e) l' ss"
  by (simp add: answered_def silent_def)

lemma answered_served:
  fixes eb
  defines "c \<equiv> the_collector eb"
  shows "lookup_bucket l' key = Some b \<Longrightarrow> answered c key v (Inr True) l' (served_metrics key b (Some c))"
  by (simp add: answered_def served_metrics_def c_def fits_records)

lemma answered_rejected:
  fixes eb
  defines "c \<equiv> the_collector eb"
  shows "answered c key v (Inr False) l' (RecordRejected key (Some c) @ ObserveLocalTokensRemaining n (Some c))"
  by (simp add: answered_def c_def fits_records)

lemma try_serve_m_wf:
  assumes "wf_at key b l" "try_serve_m (Some (the_collector eb)) key n b l = ((ok, b', l'), ss)"
  shows "wf_at key b' l'" "ok \<Longrightarrow> answered (the_collector eb) key v (Inr True) l' ss" "\<not> ok \<Longrightarrow> ss = []"
proof -
  have t: "try_serve key n b l = (ok, b', l')" "ss = (if ok then served_metrics key b' (Some (the_collector eb)) else [])"
    using assms(2) by (auto simp: try_serve_m_def split_beta prod_eq_iff)
  then show "wf_at key b' l'" using try_serve_wf(1) [OF assms(1)] by blast
  then show "ok \<Longrightarrow> answered (the_collector eb) key v (Inr True) l' ss"
    using t(2) answered_served [of l' key b' eb v] by (simp add: wf_at_def)
  show "\<not> ok \<Longrightarrow> ss = []" using t(2) by simp
qed

lemma acquireFromPeers_m_silent: "silent (the_collector eb) (snd (acquireFromPeers_m E (Some (the_collector eb)) key n b l w))"
  by (auto simp: acquireFromPeers_m_def split_beta silent_concat split: option.split go.split sum.split)

lemma resetWindow_m_silent: "silent (the_collector eb) (snd (resetWindow_m E (Some (the_collector eb)) key nowMs l w))"
  by (simp add: resetWindow_m_def Let_def split_beta split: option.split)

lemma counts_simps:
  "counts c key v (Some (Return (r, l', w')), ss) = answered c key v r l' ss"
  "counts c key v (Some (Panic msg), ss) = fits c ss" "counts c key v (None, ss) = fits c ss"
  by (simp_all add: counts_def)

lemma allow_loop_m_counts:
  fixes eb
  defines "c \<equiv> the_collector eb"
  assumes "wf_at key b l"
  shows "counts c key v (allow_loop_m fuel E (Some c) key n re pchk b l w)"
  using assms(2)
proof (induction fuel arbitrary: re pchk b l w)
  case 0
  then show ?case by (simp add: counts_simps)
next
  case (Suc fuel)
  show ?case
  proof (cases "e_decide E")
    case None
    then show ?thesis by (simp add: counts_simps)
  next
    case (Some decide)
    let ?rc = "\<lparr>rc_Key = key, rc_Need = n, rc_RedisExhausted = re, rc_HasPeers = (l_acquirer l \<noteq> None \<and> \<not> pchk)\<rparr>"
    obtain d r w1 where D: "decide (l_gossiper l) ?rc (l_router l) w = (d, r, w1)" by (rule prod_cases3)
    let ?l = "l\<lparr>l_router := r\<rparr>"
    have "decides E key n re pchk l w d ?l w1" using Some D by (simp add: decides_def)
    then have l1: "wf_at key b ?l" by (rule decides_wf [OF _ Suc.prems])
    note step = allow_loop_m.simps(2) Some option.case D Let_def prod.case
    consider (err) e where "d = Inl e" | (redis) "d = Inr DecisionRedis" | (peer) "d = Inr DecisionPeer" | (deny) "d = Inr DecisionDeny"
      by (metis Decision.exhaust sum.exhaust)
    then show ?thesis
    proof cases
      case err
      then show ?thesis unfolding step by (simp add: counts_simps answered_error)
    next
      case deny
      then show ?thesis unfolding step by (simp add: counts_simps answered_rejected c_def)
    next
      case redis
      obtain g m b1 w2 where A: "Acquire (e_oor E) (e_redis E) (e_wall E) key n on_grant (l_borrowMgr ?l) b w1 = (g, m, b1, w2)"
        by (rule prod_cases4)
      have "bm_ok (l_borrowMgr ?l)" using l1 by (simp add: wf_at_def limiter_wf_def)
      note B = Acquire_bucket [OF this A]
      let ?l2 = "(put_bucket key b1 ?l)\<lparr>l_borrowMgr := m\<rparr>"
      have l2: "wf_at key b1 ?l2" by (rule wf_at_manager [OF wf_at_put [OF l1 B(2)] B(1)])
      let ?ss = "ObserveRequestDuration ''redis'' (elapsed E (fst (e_clock E w1)) w2) (Some c)"
      note step = step redis sum.case Decision.case A
      show ?thesis
      proof (cases g)
        case (Inl e)
        then show ?thesis unfolding step by (simp add: counts_simps answered_error c_def)
      next
        case (Inr granted)
        show ?thesis
        proof (cases "0 < granted")
          case True
          obtain v3 m3 w3 where C: "Borrowed (e_wall E) key m w2 = (v3, m3, w3)" by (rule prod_cases3)
          have l3: "wf_at key b1 (?l2\<lparr>l_borrowMgr := m3\<rparr>)" by (rule wf_at_manager [OF l2]) (use Borrowed_spec [OF B(1) C] in blast)
          obtain ok b4 l4 ts where T: "try_serve_m (Some c) key n b1 (?l2\<lparr>l_borrowMgr := m3\<rparr>) = ((ok, b4, l4), ts)"
            by (metis surj_pair)
          note S = try_serve_m_wf [OF l3 T [unfolded c_def]]
          let ?us = "?ss @ RecordRedisBorrow key True (Some c) @ SetBorrowedTokens key v3 (Some c)"
          have us: "silent c ?us" by (simp add: c_def)
          show ?thesis
          proof (cases ok)
            case True
            then have "counts c key v (Some (Return (Inr True, l4, w3)), ?us @ ts)"
              unfolding counts_simps by (rule answered_more [OF us S(2) [folded c_def]])
            then show ?thesis unfolding step Inr using \<open>0 < granted\<close> C T True by simp
          next
            case False
            then have "counts c key v (tell (?us @ ts) (allow_loop_m fuel E (Some c) key n re pchk b4 l4 w3))"
              using counts_tell [OF us Suc.IH [OF S(1)]] S(3) by simp
            then show ?thesis unfolding step Inr using \<open>0 < granted\<close> C T False by simp
          qed
        next
          case False
          have "silent c (?ss @ RecordRedisBorrow key False (Some c))" by (simp add: c_def)
          from counts_tell [OF this Suc.IH [OF wf_at_put [OF l2, of "MarkRedisExhausted b1"]]]
          show ?thesis unfolding step Inr using False by simp
        qed
      qed
    next
      case peer
      obtain q ss where P: "acquireFromPeers_m E (Some c) key n b ?l w1 = (q, ss)" by (cases "acquireFromPeers_m E (Some c) key n b ?l w1")
      have ss: "silent c ss" using acquireFromPeers_m_silent [of eb E key n b ?l w1] P by (simp add: c_def)
      note step = step peer sum.case Decision.case P prod.case
      show ?thesis
      proof (cases q)
        case (Panic msg)
        then show ?thesis unfolding step using ss by (simp add: counts_simps silent_def)
      next
        case (Return y)
        obtain p b2 l2 w2 where y: "y = (p, b2, l2, w2)" by (rule prod_cases4)
        have "acquireFromPeers E key n b ?l w1 = Return (p, b2, l2, w2)"
          using acquireFromPeers_m_fst [of E "Some c" key n b ?l w1] P Return y by simp
        note Q = acquireFromPeers_bucket [OF this]
        have "wf_at key b l2" using l1 Q(2) by (auto simp: wf_at_def)
        then have l3: "wf_at key b2 (put_bucket key b2 l2)" by (rule wf_at_put) (rule Q(1))
        let ?ss = "ss @ ObserveRequestDuration ''peer'' (elapsed E (fst (e_clock E w1)) w2) (Some c)"
        have s1: "silent c ?ss" using ss by (simp add: c_def)
        have go: "counts c key v (tell ?ss (allow_loop_m fuel E (Some c) key n re True b2 (put_bucket key b2 l2) w2))"
          by (rule counts_tell [OF s1 Suc.IH [OF l3]])
        show ?thesis
        proof (cases p)
          case (Inl e)
          then show ?thesis unfolding step Return y using go by simp
        next
          case (Inr g)
          obtain ok b4 l4 ts where T: "try_serve_m (Some c) key n b2 (put_bucket key b2 l2) = ((ok, b4, l4), ts)" by (metis surj_pair)
          note S = try_serve_m_wf [OF l3 T [unfolded c_def]]
          have "counts c key v (Some (Return (Inr True, l4, w2)), ?ss @ ts)" if ok
            unfolding counts_simps by (rule answered_more [OF s1 S(2) [folded c_def, OF that]])
          moreover have "counts c key v (tell (?ss @ ts) (allow_loop_m fuel E (Some c) key n re True b4 l4 w2))" if "\<not> ok"
            using counts_tell [OF s1 Suc.IH [OF S(1)]] S(3) [OF that] by simp
          ultimately show ?thesis unfolding step Return y Inr using go T by (cases ok) simp_all
        qed
      qed
    qed
  qed
qed

lemma maybePreBorrow_shows:
  assumes "wf_at key b l" "shards_ok shardIndex shardCount (l_shards l)"
  shows "\<exists>b'. lookup_bucket (maybePreBorrow key b l) key = Some b' \<and> remaining b' = remaining b"
  using assms by (auto simp: maybePreBorrow_def TryMarkPreBorrowing_def Let_def lookup_put wf_at_def remaining_def)

lemma maybePreBorrow_m_silent: "silent (the_collector eb) (snd (maybePreBorrow_m (Some (the_collector eb)) key b l))"
  by (simp add: maybePreBorrow_m_def split_beta)

lemma allow_slow_m_counts:
  fixes eb
  defines "c \<equiv> the_collector eb"
  assumes "wf_at key b l"
  shows "counts c key v (allow_slow_m fuel E (Some c) key n b l w)"
proof -
  obtain t w1 where t: "e_clock E w = (t, w1)" by (cases "e_clock E w")
  have skip: "silent c (skip_metrics key b0 (Some c))" for b0 by (simp add: c_def)
  note loop = allow_loop_m_counts [of key _ _ eb, folded c_def]
  show ?thesis
  proof (cases "needsReset (UnixMilli t) b")
    case False
    then show ?thesis
      using counts_tell [OF skip loop [OF assms(2)]] by (simp add: allow_slow_m_def t Let_def)
  next
    case True
    obtain x ss where R: "resetWindow_m E (Some c) key (UnixMilli t) l w1 = (x, ss)"
      by (cases "resetWindow_m E (Some c) key (UnixMilli t) l w1")
    have ss: "silent c ss" using resetWindow_m_silent [of eb E key "UnixMilli t" l w1] R by (simp add: c_def)
    note step = allow_slow_m_def t Let_def prod.case if_P [OF True] R
    show ?thesis
    proof (cases x)
      case (Panic msg)
      then show ?thesis unfolding step using ss by (simp add: counts_simps silent_def)
    next
      case (Return y)
      obtain e l2 w2 where y: "y = (e, l2, w2)" by (rule prod_cases3)
      have "resetWindow E key (UnixMilli t) l w1 = Return (e, l2, w2)"
        using resetWindow_m_fst [of E "Some c" key "UnixMilli t" l w1] R Return y by simp
      note l2 = resetWindow_wf(1) [OF wf_at_wf [OF assms(2)] this, of b]
      obtain ok b3 l3 ts where T: "try_serve_m (Some c) key n (current key b l2) l2 = ((ok, b3, l3), ts)" by (metis surj_pair)
      note S = try_serve_m_wf [OF l2 T [unfolded c_def], folded c_def]
      have "counts c key v (Some (Return (Inr True, l3, w2)), ss @ ts)" if ok
        unfolding counts_simps by (rule answered_more [OF ss S(2) [OF that]])
      moreover have "counts c key v (tell (ss @ ts @ skip_metrics key b3 (Some c))
          (allow_loop_m fuel E (Some c) key n (IsRedisExhausted b3) False b3 l3 w2))" if "\<not> ok"
        by (rule counts_tell [OF _ loop [OF S(1)]]) (use S(3) [OF that] ss skip in simp)
      ultimately show ?thesis unfolding step Return y using T by (cases ok) simp_all
    qed
  qed
qed

lemma AllowN_m_counts:
  fixes eb
  defines "c \<equiv> the_collector eb"
  assumes "limiter_wf l"
  shows "counts c key v (AllowN_m fuel E (Some c) key n l w)"
proof (cases "l_closed l")
  case True
  then show ?thesis by (simp add: AllowN_m_def counts_simps answered_error)
next
  case False
  obtain t w1 where t: "e_clock E w = (t, w1)" by (cases "e_clock E w")
  obtain b l1 w2 where g: "getOrCreateBucket E key l w1 = (b, l1, w2)" by (rule prod_cases3)
  let ?b = "updateAccess (UnixMilli t) b" and ?l = "put_bucket key (updateAccess (UnixMilli t) b) l1"
  obtain ok b2 l2 where T: "try_serve key n ?b ?l = (ok, b2, l2)" by (rule prod_cases3)
  have "wf_at key ?b ?l" by (rule wf_at_put [OF conjunct1 [OF getOrCreate_wf [OF assms(2) g]]]) simp
  then have l2: "wf_at key b2 l2" using try_serve_wf(1) T by blast
  note step = AllowN_m_def if_not_P [OF False] t Let_def prod.case g T
  show ?thesis
  proof (cases ok)
    case False
    then show ?thesis unfolding step using allow_slow_m_counts [OF l2, of eb, folded c_def] by simp
  next
    case True
    let ?low = "o_preBorrowEnabled (l_opts l2) \<and>
      belowPreBorrowThreshold (e_oor E) (o_minBorrow (l_opts l2)) (o_preBorrowThreshold (l_opts l2)) b2"
    let ?x = "if ?low then maybePreBorrow_m (Some c) key b2 l2 else (l2, [])"
    obtain l3 ss where x: "?x = (l3, ss)" by (cases ?x)
    have "l3 = fst ?x" using x by simp
    then have "l3 = maybePreBorrow key b2 l2 \<or> l3 = l2" by simp
    moreover have "shards_ok shardIndex shardCount (l_shards l2)" using limiter_wfD(1) [OF wf_at_wf [OF l2]] .
    ultimately obtain b3 where b3: "lookup_bucket l3 key = Some b3" "remaining b3 = remaining b2"
      using maybePreBorrow_shows [OF l2] l2 by (auto simp: wf_at_def)
    have "silent c (snd ?x)" using maybePreBorrow_m_silent [of eb key b2 l2] by (simp add: c_def)
    then have ss: "silent c ss" using x by simp
    have "served_metrics key b2 (Some c) = served_metrics key b3 (Some c)" using b3(2) by (simp add: served_metrics_def)
    then have s: "answered c key v (Inr True) l3 (served_metrics key b2 (Some c))" using answered_served [OF b3(1)] by (simp add: c_def)
    have "answered c key v (Inr True) l3 (RecordLocalHit key (Some c) @ served_metrics key b2 (Some c) @
        ObserveRequestDuration ''local'' (elapsed E t w2) (Some c) @ ss)"
      by (rule answered_more [OF _ answered_then [OF s]]) (simp_all add: c_def ss [unfolded c_def])
    then show ?thesis unfolding step if_P [OF True] x counts_simps .
  qed
qed

lemma no_samples [simp]:
  "served_metrics key b None = []" "skip_metrics key b None = []" "probe_metrics x None = []"
  "snd (try_serve_m None key n b l) = []" "snd (resetWindow_m E None key t l w) = []" "snd (maybePreBorrow_m None key b l) = []"
  "snd (acquireFromPeers_m E None key n b l w) = []"
  by (auto simp: served_metrics_def skip_metrics_def probe_metrics_def try_serve_m_def resetWindow_m_def maybePreBorrow_m_def
      acquireFromPeers_m_def nil_collector split_beta Let_def split: option.split go.split sum.split)

lemma allow_loop_m_nil: "snd (allow_loop_m fuel E None key n re pchk b l w) = []"
proof (induction fuel arbitrary: re pchk b l w)
  case (Suc fuel)
  show ?case
    by (simp add: go_pair Let_def split_beta Suc.IH nil_collector split: option.split sum.split Decision.split go.split)
qed simp

lemma AllowN_m_nil: "snd (AllowN_m fuel E None key n l w) = []"
  by (simp add: AllowN_m_def allow_slow_m_def go_pair Let_def split_beta allow_loop_m_nil nil_collector split: go.split)



end
