(* ===== verification/Programs.thy ===== *)
theory Programs
  imports Bench Limiter_Metrics
begin

text \<open>
  The programs that use the limiter: the server of \<^verbatim>\<open>cmd/krate-example/main.go\<close>, with its options and its
  request handler, and the instances the benchmark creates. The HTTP library and the handler of
  \<^verbatim>\<open>/metrics\<close> are parameters; the options that give an object (logger, registry, router) are, as in \<open>Options\<close>,
  not part of the record.
\<close>

subsection \<open>The example server\<close>

definition envOrDefault :: "(string \<Rightarrow> string) \<Rightarrow> string \<Rightarrow> string \<Rightarrow> string" where
  \<comment> \<open>\<open>getenv\<close> is \<^verbatim>\<open>os.Getenv\<close>: empty for a variable that is not set\<close>
  "envOrDefault getenv key dflt = (let v = getenv key in if v \<noteq> '''' then v else dflt)"

definition example_options :: "(string \<Rightarrow> string) \<Rightarrow> string \<Rightarrow> options" where
  "example_options getenv generated = apply_options generated
     [WithInstanceID (envOrDefault getenv ''INSTANCE_ID'' ''instance-1''),
      WithLimit 1000, WithWindow (60 * second), WithWindowType Fixed, WithMinBorrow 50, WithMaxBorrow 200,
      WithAdaptiveBorrow True, WithPeerListen (envOrDefault getenv ''PEER_ADDR'' '':7100'')]"

record http_request =
  rq_path :: string
  rq_apiKey :: string
  rq_remoteIP :: string

record http_response =
  rs_status :: nat
  rs_body :: string

definition requestHandler ::
    "(http_request \<Rightarrow> http_response) \<Rightarrow> nat \<Rightarrow> ('w, 'r, 'c) env \<Rightarrow> http_request \<Rightarrow> 'r limiter \<Rightarrow> 'w
     \<Rightarrow> (http_response \<times> 'r limiter \<times> 'w) go option" where
  "requestHandler metricsHandler fuel E rq l w =
     (if rq_path rq = ''/metrics'' then Some (Return (metricsHandler rq, l, w))
      else if rq_path rq \<noteq> ''/'' then Some (Return (\<lparr>rs_status = 404, rs_body = ''Not Found''\<rparr>, l, w))
      else
        let key = (if rq_apiKey rq = '''' then rq_remoteIP rq else rq_apiKey rq)
        in map_option (\<lambda>x. go_bind x (\<lambda>(r, l', w').
             Return (case r of
                 Inl e \<Rightarrow> \<lparr>rs_status = 200, rs_body = ''Hello, world!''\<rparr>
               | Inr allowed \<Rightarrow>
                   if \<not> allowed then \<lparr>rs_status = 429, rs_body = ''rate limit exceeded''\<rparr>
                   else \<lparr>rs_status = 200, rs_body = ''Hello, world!''\<rparr>, l', w')))
           (Allow fuel E key l w))"

text \<open>The handler fails open: only an answer that denies the token is refused.\<close>

lemma example_limited:
  assumes "rq_path rq = ''/''" "key = (if rq_apiKey rq = '''' then rq_remoteIP rq else rq_apiKey rq)"
  shows "Allow fuel E key l w = Some (Return (r, l', w')) \<Longrightarrow>
      \<exists>resp. requestHandler mh fuel E rq l w = Some (Return (resp, l', w')) \<and>
        rs_status resp = (if r = Inr False then 429 else 200)"
    "l_closed l \<Longrightarrow> requestHandler mh fuel E rq l w = Some (Return (\<lparr>rs_status = 200, rs_body = ''Hello, world!''\<rparr>, l, w))"
  using assms by (auto simp: requestHandler_def Let_def Allow_def AllowN_def split: sum.split)

subsection \<open>The instances of the benchmark\<close>

definition bench_options :: "scenarioConfig \<Rightarrow> nat \<Rightarrow> options" where
  "bench_options cfg i =
     (let (minBorrow, maxBorrow) = borrow_sizes cfg; (gossipInterval, heartbeatInterval) = intervals cfg
      in apply_options ''''
           [WithInstanceID (sc_Name cfg @ ''-'' @ nat_digits i), WithLimit (sc_Limit cfg), WithWindow (sc_Window cfg),
            WithMaxBorrow maxBorrow, WithMinBorrow minBorrow, WithAdaptiveBorrow True,
            WithReservedMinimum (sc_ReservedMin cfg), WithPreBorrowThreshold (rnd (2 / 10)), WithProbeK (int (sc_ProbeK cfg)),
            WithPeerListen '':0'', WithGossipInterval gossipInterval, WithHeartbeatInterval heartbeatInterval])"

lemma borrow_sizes_bounds:
  assumes "0 < sc_Instances cfg" "10 * sc_Instances cfg < 2 ^ 64" "borrow_sizes cfg = (lo, hi)"
  shows "1 \<le> uint lo" "uint lo \<le> uint hi"
    "2 * int (sc_Instances cfg) \<le> uint (sc_Limit cfg) \<Longrightarrow> 2 * int (sc_Instances cfg) * uint hi \<le> uint (sc_Limit cfg)"
proof -
  define n l where "n = int (sc_Instances cfg)" and "l = uint (sc_Limit cfg)"
  have n: "0 < n" "0 \<le> l" using assms(1) by (simp_all add: n_def l_def)
  have c: "uint (2 * of_nat (sc_Instances cfg) :: u64) = 2 * n" "uint (10 * of_nat (sc_Instances cfg) :: u64) = 10 * n"
  proof -
    have u: "uint (word_of_int x :: u64) = x" if "0 \<le> x" "x < 2 ^ 64" for x
      using that by (simp add: unsigned_of_int take_bit_int_eq_self)
    have w: "2 * of_nat (sc_Instances cfg) = (word_of_int (2 * n) :: u64)" "10 * of_nat (sc_Instances cfg) = (word_of_int (10 * n) :: u64)"
      by (simp_all add: n_def)
    have b: "10 * n < 2 ^ 64" using assms(2) unfolding n_def by (metis of_nat_less_iff of_nat_mult of_nat_numeral of_nat_power)
    show "uint (2 * of_nat (sc_Instances cfg) :: u64) = 2 * n" unfolding w by (rule u) (use n b in linarith)+
    show "uint (10 * of_nat (sc_Instances cfg) :: u64) = 10 * n" unfolding w by (rule u) (use n b in linarith)+
  qed
  have q: "uint (sc_Limit cfg div (2 * of_nat (sc_Instances cfg))) = l div (2 * n)"
    "uint (sc_Limit cfg div (10 * of_nat (sc_Instances cfg))) = l div (10 * n)"
    by (simp_all add: uint_div c l_def)
  have z: "x = 0 \<longleftrightarrow> uint x = 0" for x :: u64 by (simp add: uint_0_iff)
  have le: "l div (10 * n) \<le> l div (2 * n)" using n by (intro zdiv_mono2) auto
  have nn: "0 \<le> l div (10 * n)" using n by (simp add: pos_imp_zdiv_nonneg_iff)
  have u: "uint lo = (if l div (10 * n) = 0 then 1 else l div (10 * n))"
    "uint hi = (if l div (2 * n) = 0 then 1 else l div (2 * n))"
    using assms(3) q by (auto simp: borrow_sizes_def Let_def z)
  show "1 \<le> uint lo" "uint lo \<le> uint hi" using le nn unfolding u by auto
  have "2 * n * (l div (2 * n)) \<le> l" using n by (simp add: minus_mod_eq_mult_div [symmetric])
  then show "2 * int (sc_Instances cfg) * uint hi \<le> uint (sc_Limit cfg)"
    if "2 * int (sc_Instances cfg) \<le> uint (sc_Limit cfg)"
    using that unfolding u by (auto simp: n_def l_def)
qed

lemma key_index_apart:
  assumes "\<not> sc_SharedHotspot cfg" "i < sc_Instances cfg" "j < sc_Instances cfg" "sc_Instances cfg \<le> sc_Keys cfg"
    and "key_index cfg i raw = key_index cfg j raw"
  shows "i = j"
proof -
  define K q where "K = sc_Keys cfg" and "q = sc_Keys cfg div sc_Instances cfg"
  have q: "0 < q" "sc_Instances cfg * q \<le> K" using assms(2,4) by (auto simp: q_def K_def div_greater_zero_iff)
  have lt: "x * q < K" if "x < sc_Instances cfg" for x
  proof -
    have "x * q < sc_Instances cfg * q" by (rule mult_less_mono1 [OF that q(1)])
    then show ?thesis using q(2) by (rule less_le_trans)
  qed
  have "(raw + i * q) mod K = (raw + j * q) mod K" using assms(1,5) by (simp add: key_index_def Let_def K_def q_def)
  then have "(i * q) mod K = (j * q) mod K" by (simp add: nat_mod_eq_iff)
  then show ?thesis using lt assms(2,3) q(1) by simp
qed

lemma sleep_to_boundary:
  assumes "0 < sint wms" "0 \<le> sint nowMs" "sint nowMs + sint wms < 2 ^ 63" "sint wms * 1000000 < 2 ^ 63"
  shows "0 < sint (sleep_to_boundary wms nowMs)" "sint (sleep_to_boundary wms nowMs) \<le> sint wms * 1000000"
    "sint wms * 1000000 dvd sint nowMs * 1000000 + sint (sleep_to_boundary wms nowMs)"
proof -
  define W t where "W = sint wms" and "t = sint nowMs"
  have W: "0 < W" "0 \<le> t" "t + W < 2 ^ 63" "W * 1000000 < 2 ^ 63" using assms by (simp_all add: W_def t_def)
  have "i64_div nowMs wms = word_of_int (t div W)" using W by (auto simp: i64_div_def W_def t_def sgn_if)
  moreover have wn: "wms = word_of_int W" "nowMs = word_of_int t" by (simp_all add: W_def t_def)
  ultimately have e: "sleep_to_boundary wms nowMs = word_of_int (((t div W + 1) * W - t) * 1000000)"
    by (simp add: sleep_to_boundary_def Let_def algebra_simps)
  have d: "(t div W + 1) * W - t = W - t mod W" by (simp add: algebra_simps minus_mod_eq_div_mult [symmetric])
  have r: "0 \<le> t mod W" "t mod W < W" using W(1) by simp_all
  have x: "0 \<le> (W - t mod W) * 1000000" "(W - t mod W) * 1000000 \<le> W * 1000000" using r by simp_all
  have s: "sint (sleep_to_boundary wms nowMs) = (W - t mod W) * 1000000"
    unfolding e d using x W(4) by (intro sint_of_int_exact) linarith+
  show "0 < sint (sleep_to_boundary wms nowMs)" "sint (sleep_to_boundary wms nowMs) \<le> sint wms * 1000000"
    using r unfolding s by (simp_all add: W_def [symmetric])
  have "t + (W - t mod W) = (t div W + 1) * W" using d by simp
  then have "t * 1000000 + (W - t mod W) * 1000000 = (t div W + 1) * (W * 1000000)"
    by (metis mult.assoc ring_class.ring_distribs(2))
  then show "sint wms * 1000000 dvd sint nowMs * 1000000 + sint (sleep_to_boundary wms nowMs)"
    unfolding s by (simp add: W_def [symmetric] t_def [symmetric])
qed

text \<open>What the table of scenarios has to satisfy.\<close>

definition runnable :: "scenarioConfig \<Rightarrow> bool" where
  "runnable cfg \<longleftrightarrow> 0 < sc_Instances cfg \<and> 10 * sc_Instances cfg < 2 ^ 64 \<and> sc_Instances cfg \<le> sc_Keys cfg \<and>
     2 * int (sc_Instances cfg) \<le> uint (sc_Limit cfg) \<and> 0 < sint (Milliseconds (sc_Window cfg)) \<and>
     sint (Milliseconds (sc_Window cfg)) * 1000000 < 2 ^ 63 \<and> (\<forall>gi. 0 < workers cfg gi)"

lemma scenarios_runnable: "map_of scenarios name = Some cfg \<Longrightarrow> runnable cfg"
  by (drule map_of_SomeD) (auto simp: scenarios_def runnable_def Milliseconds_def i64_div_def workers_def Let_def)

lemmas With_defs = WithInstanceID_def WithLimit_def WithWindow_def WithMaxBorrow_def WithMinBorrow_def WithAdaptiveBorrow_def
  WithReservedMinimum_def WithPreBorrowThreshold_def WithProbeK_def WithPeerListen_def WithGossipInterval_def WithHeartbeatInterval_def

lemma bench_options_eq:
  "o_minBorrow (bench_options cfg i) = fst (borrow_sizes cfg)" "o_maxBorrow (bench_options cfg i) = snd (borrow_sizes cfg)"
  "o_limit (bench_options cfg i) = sc_Limit cfg" "o_instanceID (bench_options cfg i) = sc_Name cfg @ ''-'' @ nat_digits i"
proof -
  obtain lo hi where b: "borrow_sizes cfg = (lo, hi)" by (cases "borrow_sizes cfg")
  obtain g h where v: "intervals cfg = (g, h)" by (cases "intervals cfg")
  define o1 where "o1 = fold (\<lambda>opt o'. opt o') [WithInstanceID (sc_Name cfg @ ''-'' @ nat_digits i), WithLimit (sc_Limit cfg),
     WithWindow (sc_Window cfg), WithMaxBorrow hi, WithMinBorrow lo, WithAdaptiveBorrow True, WithReservedMinimum (sc_ReservedMin cfg),
     WithPreBorrowThreshold (rnd (2 / 10)), WithProbeK (int (sc_ProbeK cfg)), WithPeerListen '':0'', WithGossipInterval g,
     WithHeartbeatInterval h] defaultOptions"
  have o1: "o_minBorrow o1 = lo" "o_maxBorrow o1 = hi" "o_limit o1 = sc_Limit cfg" "o_instanceID o1 = sc_Name cfg @ ''-'' @ nat_digits i"
    by (simp_all add: o1_def With_defs Let_def)
  have "bench_options cfg i = o1"
    unfolding bench_options_def b v Let_def prod.case apply_options_def o1_def [symmetric] using o1(4) by simp
  then show "o_minBorrow (bench_options cfg i) = fst (borrow_sizes cfg)" "o_maxBorrow (bench_options cfg i) = snd (borrow_sizes cfg)"
    "o_limit (bench_options cfg i) = sc_Limit cfg" "o_instanceID (bench_options cfg i) = sc_Name cfg @ ''-'' @ nat_digits i"
    using o1 b by simp_all
qed

text \<open>
  Every scenario of the benchmark runs as it is meant to: each instance has its own name and borrows of at least
  one token, the smallest no larger than the largest, and all instances together can hold at most half the
  limit; the keys drawn are in range, and without a shared hotspot instances that draw the same number
  use different keys; and the run starts where a window does, after at most one window.
\<close>
theorem bench_setup:
  assumes "map_of scenarios name = Some cfg" "0 \<le> sint nowMs" "sint nowMs + sint (Milliseconds (sc_Window cfg)) < 2 ^ 63"
  shows "(\<forall>i j. o_instanceID (bench_options cfg i) = o_instanceID (bench_options cfg j) \<longrightarrow> i = j) \<and>
    (\<forall>i. 1 \<le> uint (o_minBorrow (bench_options cfg i)) \<and>
      uint (o_minBorrow (bench_options cfg i)) \<le> uint (o_maxBorrow (bench_options cfg i)) \<and>
      2 * int (sc_Instances cfg) * uint (o_maxBorrow (bench_options cfg i)) \<le> uint (o_limit (bench_options cfg i))) \<and>
    (\<forall>i raw. key_index cfg i raw < sc_Keys cfg) \<and>
    (\<forall>i j raw. \<not> sc_SharedHotspot cfg \<and> i < sc_Instances cfg \<and> j < sc_Instances cfg \<and>
      key_index cfg i raw = key_index cfg j raw \<longrightarrow> i = j) \<and>
    (let W = Milliseconds (sc_Window cfg); d = sleep_to_boundary W nowMs in
      0 < sint d \<and> sint d \<le> sint W * 1000000 \<and> sint W * 1000000 dvd sint nowMs * 1000000 + sint d)"
proof -
  note R = scenarios_runnable [OF assms(1), unfolded runnable_def]
  obtain lo hi where b: "borrow_sizes cfg = (lo, hi)" by (cases "borrow_sizes cfg")
  have o: "o_minBorrow (bench_options cfg i) = lo" "o_maxBorrow (bench_options cfg i) = hi" "o_limit (bench_options cfg i) = sc_Limit cfg"
    "o_instanceID (bench_options cfg i) = sc_Name cfg @ ''-'' @ nat_digits i" for i
    by (simp_all add: bench_options_eq b)
  have names: "i = j" if "sc_Name cfg @ ''-'' @ nat_digits i = sc_Name cfg @ ''-'' @ nat_digits j" for i j
  proof -
    have "nat_digits i = nat_digits j" using that by (simp only: same_append_eq)
    then show ?thesis using parse_nat_digits [of i] parse_nat_digits [of j] by (metis option.inject)
  qed
  have sizes: "1 \<le> uint lo" "uint lo \<le> uint hi" "2 * int (sc_Instances cfg) * uint hi \<le> uint (sc_Limit cfg)"
    using borrow_sizes_bounds [OF _ _ b] R by (simp_all only: simp_thms)
  have keys: "key_index cfg i raw < sc_Keys cfg" for i raw
  proof -
    have "0 < sc_Keys cfg" using R by linarith
    then show ?thesis by (simp add: key_index_def Let_def)
  qed
  have apart: "i = j" if "\<not> sc_SharedHotspot cfg" "i < sc_Instances cfg" "j < sc_Instances cfg" "key_index cfg i raw = key_index cfg j raw" for i j raw
    using key_index_apart [OF that(1-3) _ that(4)] R by blast
  have "0 < sint (Milliseconds (sc_Window cfg))" "sint (Milliseconds (sc_Window cfg)) * 1000000 < 2 ^ 63" using R by (simp_all only: simp_thms)
  note sleep = sleep_to_boundary [OF this(1) assms(2,3) this(2)]
  show ?thesis
    unfolding o Let_def by (intro conjI allI impI; (elim conjE)?; rule names sizes keys apart sleep; assumption)
qed

theorem bench_setup_witness:
  "\<exists>cfg. map_of scenarios ''peer'' = Some cfg \<and> sint (sleep_to_boundary (Milliseconds (sc_Window cfg)) 1700000000000) \<le> 60000 * 1000000"
proof -
  obtain cfg where c: "map_of scenarios ''peer'' = Some cfg" "sint (Milliseconds (sc_Window cfg)) = 60000"
    by (simp add: scenarios_def Milliseconds_def i64_div_def)
  then show ?thesis using bench_setup [OF c(1), of 1700000000000] by (simp add: Let_def)
qed

end
