(* ===== verification/Bench_Report.thy ===== *)
theory Bench_Report
  imports Bench Cluster
begin

text \<open>
  The benchmark around a run (\<^verbatim>\<open>cmd/krate-bench/main.go\<close>): cleaning Redis before it, the distribution of the
  keys, and the numbers as the report shows them. \<^verbatim>\<open>SCAN\<close> and \<^verbatim>\<open>DEL\<close> and the draws of the Zipf generator are
  parameters; the frames and columns of the report are not modelled.
\<close>

subsection \<open>Cleaning\<close>

text \<open>The patterns of Redis as far as they are used: a star stands for any text.\<close>

fun glob :: "string \<Rightarrow> string \<Rightarrow> bool" where
  "glob [] s = (s = [])"
| "glob (c # p) [] = (c = CHR ''*'' \<and> glob p [])"
| "glob (c # p) (d # s) = (if c = CHR ''*'' then glob p (d # s) \<or> glob (c # p) s else c = d \<and> glob p s)"

definition clean_patterns :: "string list" where
  "clean_patterns = [''krate:*:pool'', ''krate:*:borrowed:*'', ''krate:*:window_start'', ''krate:*:config'', ''krate:cluster:*'', ''rb:*'']"

record ('w, 'k) scan_client =
  Scan :: "'k \<Rightarrow> string \<Rightarrow> nat \<Rightarrow> 'w \<Rightarrow> (err + string list \<times> 'k) \<times> 'w"
  Del :: "string list \<Rightarrow> 'w \<Rightarrow> 'w"
  FlushDB :: "'w \<Rightarrow> err option \<times> 'w"

text \<open>The loop over the cursor, with fuel; the number counts what was deleted.\<close>

fun scan_loop :: "nat \<Rightarrow> ('w, 'k :: zero) scan_client \<Rightarrow> string \<Rightarrow> 'k \<Rightarrow> nat \<Rightarrow> 'w \<Rightarrow> (bool \<times> nat \<times> 'w) option" where
  \<comment> \<open>the truth value says whether the scan came to its end\<close>
  "scan_loop 0 C p cur del_count w = None"
| "scan_loop (Suc fuel) C p cur del_count w =
     (case Scan C cur p 1000 w of
        (Inl e, w1) \<Rightarrow> Some (False, del_count, w1)
      | (Inr (ks, n), w1) \<Rightarrow>
          let (more, w2) = (if 0 < length ks then (del_count + length ks, Del C ks w1) else (del_count, w1))
          in if n = 0 then Some (True, more, w2) else scan_loop fuel C p n more w2)"

fun clean_all :: "nat \<Rightarrow> ('w, 'k :: zero) scan_client \<Rightarrow> string list \<Rightarrow> 'w \<Rightarrow> (bool \<times> 'w) option" where
  "clean_all fuel C [] w = Some (True, w)"
| "clean_all fuel C (p # ps) w =
     (case scan_loop fuel C p 0 0 w of
        None \<Rightarrow> None
      | Some (ok, del_count, w1) \<Rightarrow> map_option (\<lambda>(oks, w2). (ok \<and> oks, w2)) (clean_all fuel C ps w1))"

definition cleanByScan :: "nat \<Rightarrow> ('w, 'k :: zero) scan_client \<Rightarrow> 'w \<Rightarrow> (bool \<times> 'w) option" where
  "cleanByScan fuel C w = clean_all fuel C clean_patterns w"

definition cleanScenario :: "nat \<Rightarrow> ('w, 'k :: zero) scan_client \<Rightarrow> 'w \<Rightarrow> (bool \<times> 'w) option" where
  "cleanScenario fuel C w =
     (case FlushDB C w of
        (Some e, w1) \<Rightarrow> cleanByScan fuel C w1
      | (None, w1) \<Rightarrow> Some (True, w1))"

text \<open>
  What \<^verbatim>\<open>SCAN\<close> promises: an iteration returns every key that is there from its beginning to its end,
  and ends. \<open>pending\<close> are the keys a cursor has still to return, \<open>rank\<close> bounds the calls that are left.
\<close>

locale scan_store =
  fixes C :: "('w, 'k :: zero) scan_client" and stored :: "'w \<Rightarrow> string set"
    and pending :: "string \<Rightarrow> 'k \<Rightarrow> 'w \<Rightarrow> string set" and rank :: "'k \<Rightarrow> 'w \<Rightarrow> nat"
  assumes scan: "Scan C cur p n w = (Inr (ks, nxt), w') \<Longrightarrow>
      stored w' = stored w \<and> set ks \<subseteq> {k. glob p k} \<and> (\<forall>c. rank c w' = rank c w) \<and>
      (\<forall>c. pending p c w' = pending p c w) \<and>
      (if nxt = 0 then pending p cur w \<subseteq> set ks else pending p cur w \<subseteq> set ks \<union> pending p nxt w \<and> rank nxt w < rank cur w)"
    and scan_error: "Scan C cur p n w = (Inl e, w') \<Longrightarrow> stored w' = stored w"
    and start: "pending p 0 w = {k \<in> stored w. glob p k}"
    and del: "stored (Del C ks w) = stored w - set ks" "pending p c w - set ks \<subseteq> pending p c (Del C ks w)"
      "rank c (Del C ks w) = rank c w"
    and flush: "FlushDB C w = (None, w') \<Longrightarrow> stored w' = {}" "FlushDB C w = (Some e, w') \<Longrightarrow> stored w' \<subseteq> stored w"
begin

lemma scan_loop_ends:
  assumes "rank cur w < fuel" "{k \<in> stored w. glob p k} \<subseteq> pending p cur w"
  shows "\<exists>ok m w'. scan_loop fuel C p cur del_count w = Some (ok, m, w') \<and> stored w' \<subseteq> stored w \<and>
    {k \<in> stored w. \<not> glob p k} \<subseteq> stored w' \<and> (ok \<longrightarrow> (\<forall>k \<in> stored w'. \<not> glob p k))"
  using assms
proof (induction fuel arbitrary: cur del_count w)
  case (Suc fuel)
  obtain r w1 where s: "Scan C cur p 1000 w = (r, w1)" by (cases "Scan C cur p 1000 w")
  show ?case
  proof (cases r)
    case (Inl e)
    then have "scan_loop (Suc fuel) C p cur del_count w = Some (False, del_count, w1)" "stored w1 = stored w"
      using s scan_error by simp_all
    then show ?thesis by blast
  next
    case (Inr x)
    obtain ks nxt where x: "x = (ks, nxt)" by (cases x)
    note S = scan [OF s [unfolded Inr x]]
    define w2 where "w2 = (if 0 < length ks then Del C ks w1 else w1)"
    have same: "pending p c w1 = pending p c w" for c using S by blast
    have w2: "stored w2 = stored w - set ks" "rank c w2 = rank c w" for c
      using S del(1,3) by (auto simp: w2_def)
    have left: "pending p c w - set ks \<subseteq> pending p c w2" for c
      using del(2) [of p c w1 ks] by (auto simp: w2_def same)
    define more where "more = (if 0 < length ks then del_count + length ks else del_count)"
    have run: "scan_loop (Suc fuel) C p cur del_count w =
        (if nxt = 0 then Some (True, more, w2) else scan_loop fuel C p nxt more w2)"
      using s Inr x by (auto simp: w2_def more_def)
    have keep: "{k \<in> stored w. \<not> glob p k} \<subseteq> stored w2" using w2(1) S by auto
    show ?thesis
    proof (cases "nxt = 0")
      case True
      have "\<forall>k \<in> stored w2. \<not> glob p k" using Suc.prems(2) S True w2(1) by auto
      then show ?thesis using run True keep w2(1) by auto
    next
      case False
      have "rank nxt w2 < fuel" using S False w2(2) Suc.prems(1) by simp
      moreover have "{k \<in> stored w2. glob p k} \<subseteq> pending p nxt w2"
        using S False Suc.prems(2) w2(1) left [of nxt] by auto
      ultimately obtain ok m w' where r: "scan_loop fuel C p nxt more w2 = Some (ok, m, w')" "stored w' \<subseteq> stored w2"
        "{k \<in> stored w2. \<not> glob p k} \<subseteq> stored w'" "ok \<longrightarrow> (\<forall>k \<in> stored w'. \<not> glob p k)"
        using Suc.IH by blast
      moreover have "{k \<in> stored w. \<not> glob p k} \<subseteq> stored w'" using r(3) keep by auto
      ultimately show ?thesis using run False w2(1) by auto
    qed
  qed
qed simp

lemma clean_all_ends:
  assumes "\<And>w. rank 0 w < fuel"
  shows "\<exists>ok w'. clean_all fuel C ps w = Some (ok, w') \<and> stored w' \<subseteq> stored w \<and>
    {k \<in> stored w. \<forall>p \<in> set ps. \<not> glob p k} \<subseteq> stored w' \<and> (ok \<longrightarrow> (\<forall>k \<in> stored w'. \<forall>p \<in> set ps. \<not> glob p k))"
proof (induction ps arbitrary: w)
  case (Cons p ps)
  obtain ok m w1 where s: "scan_loop fuel C p 0 0 w = Some (ok, m, w1)" "stored w1 \<subseteq> stored w"
    "{k \<in> stored w. \<not> glob p k} \<subseteq> stored w1" "ok \<longrightarrow> (\<forall>k \<in> stored w1. \<not> glob p k)"
    using scan_loop_ends [where p = p and cur = 0 and w = w and del_count = 0, OF assms] start by blast
  obtain oks w2 where c: "clean_all fuel C ps w1 = Some (oks, w2)" "stored w2 \<subseteq> stored w1"
    "{k \<in> stored w1. \<forall>p \<in> set ps. \<not> glob p k} \<subseteq> stored w2" "oks \<longrightarrow> (\<forall>k \<in> stored w2. \<forall>p \<in> set ps. \<not> glob p k)"
    using Cons.IH [of w1] by blast
  have "clean_all fuel C (p # ps) w = Some (ok \<and> oks, w2)" using s(1) c(1) by simp
  moreover have "{k \<in> stored w. \<forall>p \<in> set (p # ps). \<not> glob p k} \<subseteq> stored w2" using s(3) c(3) by auto
  ultimately show ?case using s(2,4) c(2,4) by (intro exI [of _ "ok \<and> oks"] exI [of _ w2] conjI) auto
qed (auto intro: exI [of _ True])

end

lemma glob_lit: "CHR ''*'' \<notin> set a \<Longrightarrow> glob (a @ p) (a @ s) = glob p s"
  by (induction a) auto

lemma glob_star: "glob p v \<Longrightarrow> glob (CHR ''*'' # p) (u @ v)"
proof (induction u)
  case Nil
  then show ?case by (cases v) auto
qed auto

lemma glob_self: "CHR ''*'' \<notin> set a \<Longrightarrow> glob a a"
  using glob_lit [of a "[]" "[]"] by simp

lemma glob_prefix: "CHR ''*'' \<notin> set a \<Longrightarrow> glob (a @ p) s \<Longrightarrow> \<exists>v. s = a @ v"
proof (induction a arbitrary: s)
  case (Cons c a)
  then show ?case by (cases s) auto
qed simp

text \<open>A server of a fixed table of slots, scanned slot by slot; a deleted key leaves its slot empty.\<close>

definition slot_keys :: "string \<Rightarrow> nat \<Rightarrow> string option list \<Rightarrow> string set" where
  "slot_keys p i w = {k. glob p k \<and> Some k \<in> set (drop i w)}"

definition slot_scan :: "(string option list, nat) scan_client" where
  "slot_scan = \<lparr>Scan = \<lambda>i p n w. (Inr (case drop i w of Some k # rest \<Rightarrow> if glob p k then [k] else [] | _ \<Rightarrow> [],
        if Suc i < length w then Suc i else 0), w),
     Del = \<lambda>ks. map (\<lambda>x. if x \<in> Some ` set ks then None else x), FlushDB = \<lambda>w. (None, map (\<lambda>_. None) w)\<rparr>"

lemma slot_keys_step:
  "slot_keys p i w = {k. (case drop i w of Some k' # rest \<Rightarrow> glob p k' \<and> k = k' | _ \<Rightarrow> False)} \<union> slot_keys p (Suc i) w"
proof (cases "drop i w")
  case Nil
  then show ?thesis by (simp add: slot_keys_def)
next
  case (Cons x rest)
  then have "drop (Suc i) w = rest" by (metis drop_Suc list.sel(3) tl_drop)
  then show ?thesis using Cons by (auto simp: slot_keys_def split: option.splits)
qed

interpretation slots: scan_store slot_scan "\<lambda>w. {k. Some k \<in> set w}" slot_keys "\<lambda>i w. length w - i"
proof (unfold_locales, goal_cases)
  case (1 cur p n w ks nxt w')
  have e: "slot_keys p i w = {}" if "length w \<le> i" for i using that by (simp add: slot_keys_def)
  have "slot_keys p cur w \<subseteq> set ks \<union> slot_keys p (Suc cur) w"
    using 1 by (subst slot_keys_step) (auto simp: slot_scan_def split: list.splits option.splits)
  then show ?case
    using 1 e [of "Suc cur"] by (auto simp: slot_scan_def split: list.splits option.splits if_splits)
next
  case (3 p w)
  show ?case by (auto simp: slot_keys_def)
next
  case (5 p c w ks)
  then show ?case by (auto simp: slot_keys_def slot_scan_def drop_map image_iff)
qed (auto simp: slot_scan_def image_iff)

text \<open>
  Before a scenario Redis is cleaned, in a bounded number of calls: a cleaning that did not fail leaves no key of
  a limit, of the cluster or of the baseline; when it has to scan it removes no key of anyone else.
\<close>

lemma clean_patterns_cover:
  "glob ''krate:*:pool'' (PoolKey key)" "glob ''krate:*:borrowed:*'' (BorrowedKey key i)"
  "glob ''krate:*:window_start'' (WindowStartKey key)" "glob ''krate:*:config'' (ConfigKey key)"
  "glob ''krate:cluster:*'' (ClusterKey i)" "glob ''rb:*'' (''rb:'' @ key)"
proof -
  have star: "glob (CHR ''*'' # p) (u @ p)" if "CHR ''*'' \<notin> set p" for u p using glob_star glob_self that by blast
  have end_star: "glob ''*'' u" for u using glob_star [of "[]" "[]" u] by simp
  have mid: "glob (CHR ''*'' # '':borrowed:*'') (key @ '':borrowed:'' @ i)"
    by (rule glob_star) (use glob_lit [of "'':borrowed:''" "''*''" i] end_star in simp)
  show "glob ''krate:*:pool'' (PoolKey key)" "glob ''krate:*:borrowed:*'' (BorrowedKey key i)"
    "glob ''krate:*:window_start'' (WindowStartKey key)" "glob ''krate:*:config'' (ConfigKey key)"
    "glob ''krate:cluster:*'' (ClusterKey i)" "glob ''rb:*'' (''rb:'' @ key)"
    using glob_lit [of "''krate:''" "''*:pool''" "key @ '':pool''"] star [of "'':pool''" key]
      glob_lit [of "''krate:''" "''*:borrowed:*''" "key @ '':borrowed:'' @ i"] mid
      glob_lit [of "''krate:''" "''*:window_start''" "key @ '':window_start''"] star [of "'':window_start''" key]
      glob_lit [of "''krate:''" "''*:config''" "key @ '':config''"] star [of "'':config''" key]
      glob_lit [of "''krate:cluster:''" "''*''" i] glob_lit [of "''rb:''" "''*''" key] end_star
    by (simp_all add: PoolKey_def BorrowedKey_def WindowStartKey_def ConfigKey_def ClusterKey_def)
qed

lemma clean_patterns_only: "p \<in> set clean_patterns \<Longrightarrow> glob p k \<Longrightarrow> \<exists>v. k = ''krate:'' @ v \<or> k = ''rb:'' @ v"
  using glob_prefix [of "''krate:''" "drop 6 p" k] glob_prefix [of "''rb:''" "drop 3 p" k]
  by (auto simp: clean_patterns_def)

lemma cleaned:
  assumes "scan_store C stored pending rank" "\<And>w. rank 0 w < fuel"
  shows "\<exists>ok w'. cleanScenario fuel C w = Some (ok, w') \<and>
    (ok \<longrightarrow> (\<forall>key i. PoolKey key \<notin> stored w' \<and> BorrowedKey key i \<notin> stored w' \<and> WindowStartKey key \<notin> stored w' \<and>
      ConfigKey key \<notin> stored w' \<and> ClusterKey i \<notin> stored w' \<and> ''rb:'' @ key \<notin> stored w')) \<and>
    (\<forall>w1 e k. FlushDB C w = (Some e, w1) \<and> k \<in> stored w1 \<and> (\<nexists>v. k = ''krate:'' @ v \<or> k = ''rb:'' @ v) \<longrightarrow> k \<in> stored w')"
proof -
  obtain e w1 where f: "FlushDB C w = (e, w1)" by (cases "FlushDB C w")
  show ?thesis
  proof (cases e)
    case None
    then show ?thesis using scan_store.flush(1) [OF assms(1)] f by (auto simp: cleanScenario_def intro: exI [of _ True])
  next
    case (Some msg)
    obtain ok w' where c: "clean_all fuel C clean_patterns w1 = Some (ok, w')"
      "{k \<in> stored w1. \<forall>p \<in> set clean_patterns. \<not> glob p k} \<subseteq> stored w'"
      "ok \<longrightarrow> (\<forall>k \<in> stored w'. \<forall>p \<in> set clean_patterns. \<not> glob p k)"
      using scan_store.clean_all_ends [OF assms, of clean_patterns w1] by blast
    have p: "''krate:*:pool'' \<in> set clean_patterns" "''krate:*:borrowed:*'' \<in> set clean_patterns" "''krate:*:window_start'' \<in> set clean_patterns"
      "''krate:*:config'' \<in> set clean_patterns" "''krate:cluster:*'' \<in> set clean_patterns" "''rb:*'' \<in> set clean_patterns"
      by (simp_all add: clean_patterns_def)
    have "cleanScenario fuel C w = Some (ok, w')" using f Some c(1) by (simp add: cleanScenario_def cleanByScan_def)
    moreover have "ok \<longrightarrow> PoolKey key \<notin> stored w' \<and> BorrowedKey key i \<notin> stored w' \<and> WindowStartKey key \<notin> stored w' \<and>
        ConfigKey key \<notin> stored w' \<and> ClusterKey i \<notin> stored w' \<and> ''rb:'' @ key \<notin> stored w'" for key i
      using c(3) p clean_patterns_cover by blast
    moreover have "k \<in> stored w'" if "k \<in> stored w1" "\<nexists>v. k = ''krate:'' @ v \<or> k = ''rb:'' @ v" for k
      using c(2) that clean_patterns_only by blast
    ultimately show ?thesis using f by (intro exI [of _ ok] exI [of _ w']) auto
  qed
qed

subsection \<open>The keys\<close>

record keyDist =
  kd_total :: i64
  kd_keys :: nat
  kd_zipfS :: f64
  kd_topHits :: "i64 list"
  kd_topIdxs :: "nat list"
  kd_topRanks :: "string list"

definition trackedIdxs :: "nat list" where
  "trackedIdxs = [0, 1, 4, 9, 99, 999, 9999, 49999]"

definition trackedRanks :: "string list" where
  "trackedRanks = [''#1'', ''#2'', ''#5'', ''#10'', ''#100'', ''#1K'', ''#10K'', ''#50K'']"

definition computeKeyDist :: "(nat \<Rightarrow> nat list) \<Rightarrow> (f64 \<Rightarrow> i64) \<Rightarrow> i64 \<Rightarrow> nat \<Rightarrow> f64 \<Rightarrow> keyDist" where
  \<comment> \<open>\<open>draws n\<close> are \<open>n\<close> numbers of the generator, which always has the same seed\<close>
  "computeKeyDist draws oor t numKeys s =
     (let n = (if 10000000 < sint t then 10000000 else t);
          scale = fdiv (f64_of_i64 t) (f64_of_i64 n);
          drawn = draws (nat (sint n))
      in \<lparr>kd_total = t, kd_keys = numKeys, kd_zipfS = s,
          kd_topHits = map (\<lambda>idx. i64_of_f64 oor (fmul (f64_of_i64 (of_nat (count_list drawn idx))) scale)) trackedIdxs,
          kd_topIdxs = trackedIdxs, kd_topRanks = trackedRanks\<rparr>)"

text \<open>A run of up to ten million requests is shown as it was drawn.\<close>

lemma computeKeyDist_small:
  assumes "0 < sint t" "sint t \<le> 10000000" "\<And>n. length (draws n) = n" "idx < length trackedIdxs"
  shows "kd_topHits (computeKeyDist draws oor t numKeys s) ! idx = of_nat (count_list (draws (nat (sint t))) (trackedIdxs ! idx))"
proof -
  have t: "f64_of_i64 t = FFin (of_int (sint t))" using rnd_of_int [of "sint t"] assms(1,2) by (simp add: f64_of_i64_def)
  have one: "fdiv (f64_of_i64 t) (f64_of_i64 t) = FFin 1"
  proof -
    have "(of_int (sint t) :: rat) \<noteq> 0" using assms(1) by (metis less_irrefl of_int_eq_0_iff)
    then show ?thesis unfolding t using rnd_of_int [of 1] by (simp only: fdiv.simps if_False divide_self) simp
  qed
  have c: "count_list (draws (nat (sint t))) x \<le> 10000000" for x
    using count_le_length [of "draws (nat (sint t))" x] assms(2,3) by simp
  have f: "i64_of_f64 oor (fmul (f64_of_i64 (of_nat m)) (FFin 1)) = of_nat m" if "m \<le> 10000000" for m
  proof -
    have "f64_of_i64 (of_nat m) = FFin (of_nat m)" by (rule f64_of_i64_nat) (use that in simp)
    then show ?thesis using rnd_of_int [of "int m"] that by (simp add: i64_of_f64_def trunc_rat_def)
  qed
  show ?thesis using assms(2,4) one f [OF c] by (simp add: computeKeyDist_def Let_def not_less)
qed

subsection \<open>The numbers as they are shown\<close>

text \<open>\<^verbatim>\<open>%.df\<close> for a finite value, which is rounded exactly, half to even, and \<^verbatim>\<open>%d\<close>.\<close>

definition pad_zeros :: "nat \<Rightarrow> string \<Rightarrow> string" where
  "pad_zeros d s = replicate (d - length s) (CHR ''0'') @ s"

definition fixed :: "nat \<Rightarrow> f64 \<Rightarrow> string" where
  "fixed d x = (case x of
     FNaN \<Rightarrow> ''NaN'' | FInf s \<Rightarrow> (if s then ''-Inf'' else ''+Inf'')
   | FFin q \<Rightarrow>
       let m = nat (round_half_even (\<bar>q\<bar> * 10 ^ d))
       in (if q < 0 then ''-'' else '''') @ nat_digits (m div 10 ^ d) @
          (if d = 0 then '''' else ''.'' @ pad_zeros d (nat_digits (m mod 10 ^ d))))"

definition fmtNs :: "f64 \<Rightarrow> string" where
  "fmtNs ns = (if fleq (FFin 1000000) ns then fixed 1 (fdiv ns (FFin 1000000)) @ ''ms''
     else if fleq (FFin 1000) ns then fixed 1 (fdiv ns (FFin 1000)) @ [CHR 0xCE, CHR 0xBC] @ ''s''
     else fixed 0 ns @ ''ns'')"

definition fmtN :: "i64 \<Rightarrow> string" where
  "fmtN n = (if 1000000000 \<le> sint n then fixed 2 (fdiv (f64_of_i64 n) (FFin (10 ^ 9))) @ ''B''
     else if 1000000 \<le> sint n then fixed 2 (fdiv (f64_of_i64 n) (FFin (10 ^ 6))) @ ''M''
     else if 1000 \<le> sint n then fixed 1 (fdiv (f64_of_i64 n) (FFin (10 ^ 3))) @ ''K''
     else FormatInt n)"

definition fmtF :: "f64 \<Rightarrow> string" where
  "fmtF f = (if fleq (FFin 1000000) f then fixed 2 (fdiv f (FFin (10 ^ 6))) @ ''M''
     else if fleq (FFin 1000) f then fixed 1 (fdiv f (FFin (10 ^ 3))) @ ''K''
     else fixed 0 f)"

text \<open>The length of the bar of a path, and of a bin of the histogram.\<close>

definition path_bar :: "(f64 \<Rightarrow> i64) \<Rightarrow> i64 \<Rightarrow> i64 \<Rightarrow> i64" where
  "path_bar oor c t =
     (let p = pct c t; n = i64_of_f64 oor (fmul (fdiv p (FFin 100)) (FFin 30))
      in if n = 0 \<and> 0 < sint c then 1 else n)"

definition bin_bar :: "(f64 \<Rightarrow> i64) \<Rightarrow> histBin \<Rightarrow> latency \<Rightarrow> i64" where
  "bin_bar oor b l =
     (let p = fmul (fdiv (f64_of_i64 (of_nat (hb_count b))) (f64_of_i64 (lat_count l))) (FFin 100);
          bw = i64_of_f64 oor (fdiv p (FFin 2))
      in if 30 < sint bw then 30 else bw)"

end
